(* ===== verification/Prelude.thy ===== *)
theory Prelude
  imports Main "HOL-Library.Word"
begin

unbundle bit_operations_syntax

text \<open>
  Shared vocabulary of the development: the C integer types, the outcome of a
  kernel operation (it returns, panics, or puts the calling thread to sleep),
  sequential composition of operations, the scan loops the kernel runs over its
  fixed-size tables, and the generic reachability and invariant rule that the
  step relations of the later theories instantiate.

  Conventions. Unsigned C types are machine words (\<open>uchar\<close>, \<open>ushort\<close>,
  \<open>uint\<close>, \<open>uint64\<close> are 8, 16, 32 and 64 bit words, so \<open>+\<close> and \<open>-\<close>
  wrap). A signed \<open>int\<close> is a HOL \<^typ>\<open>int\<close>: signed overflow is undefined in C,
  and where the code narrows a word to an \<open>int\<close> the two's complement reading
  \<^const>\<open>sint\<close> is written out. A pointer into a fixed table (\<open>struct proc *\<close>,
  \<open>struct file *\<close>, \<open>struct inode *\<close>, \<open>struct buf *\<close>) is the index of the
  entry, a null pointer is \<^const>\<open>None\<close>; a raw address is a 64 bit word.
\<close>

section \<open>C types\<close>

type_synonym u8 = "8 word"
type_synonym u16 = "16 word"
type_synonym u32 = "32 word"
type_synonym u64 = "64 word"

text \<open>Lemmas used for evaluating concrete kernel states.\<close>

named_theorems kexec_simps \<open>unfolding rules of the operation combinators\<close>
named_theorems table_simps \<open>facts on fixed-size tables and their scans\<close>

section \<open>Outcomes of kernel operations\<close>

text \<open>
  \<open>Ret a s\<close>: the call returned \<open>a\<close> in state \<open>s\<close>. \<open>Panic m\<close>: \<open>panic(m)\<close>
  was called, which never returns. \<open>Sleeps s\<close>: the calling thread set its
  process to \<open>SLEEPING\<close> and switched to the scheduler in state \<open>s\<close>. \<open>Fault\<close>:
  the kernel dereferenced a null pointer.
\<close>

datatype ('s, 'a) outcome = Ret 'a 's | Panic string | Sleeps 's | Fault

type_synonym ('s, 'a) kop = "'s \<Rightarrow> ('s, 'a) outcome"

definition kret :: "'a \<Rightarrow> ('s, 'a) kop" where
  "kret a = (\<lambda>s. Ret a s)"

definition kpanic :: "string \<Rightarrow> ('s, 'a) kop" where
  "kpanic m = (\<lambda>s. Panic m)"

definition kbind :: "('s, 'a) kop \<Rightarrow> ('a \<Rightarrow> ('s, 'b) kop) \<Rightarrow> ('s, 'b) kop" where
  "kbind f g = (\<lambda>s. case f s of
      Ret a t \<Rightarrow> g a t
    | Panic m \<Rightarrow> Panic m
    | Sleeps t \<Rightarrow> Sleeps t
    | Fault \<Rightarrow> Fault)"

definition kseq :: "('s, unit) kop \<Rightarrow> ('s, 'b) kop \<Rightarrow> ('s, 'b) kop" where
  "kseq f g = kbind f (\<lambda>_. g)"

definition kget :: "('s \<Rightarrow> 'a) \<Rightarrow> ('s, 'a) kop" where
  "kget f = (\<lambda>s. Ret (f s) s)"

definition kmod :: "('s \<Rightarrow> 's) \<Rightarrow> ('s, unit) kop" where
  "kmod f = (\<lambda>s. Ret () (f s))"

lemma kret_apply [simp, kexec_simps]: "kret a s = Ret a s"
  by (simp add: kret_def)

lemma kpanic_apply [simp, kexec_simps]: "kpanic m s = Panic m"
  by (simp add: kpanic_def)

lemma kget_apply [simp, kexec_simps]: "kget f s = Ret (f s) s"
  by (simp add: kget_def)

lemma kmod_apply [simp, kexec_simps]: "kmod f s = Ret () (f s)"
  by (simp add: kmod_def)

lemma kbind_Ret [simp]: "f s = Ret a t \<Longrightarrow> kbind f g s = g a t"
  by (simp add: kbind_def)

lemma kbind_Panic [simp]: "f s = Panic m \<Longrightarrow> kbind f g s = Panic m"
  by (simp add: kbind_def)

lemma kbind_Sleeps [simp]: "f s = Sleeps t \<Longrightarrow> kbind f g s = Sleeps t"
  by (simp add: kbind_def)

lemma kbind_Fault [simp]: "f s = Fault \<Longrightarrow> kbind f g s = Fault"
  by (simp add: kbind_def)

lemma kseq_apply [kexec_simps]: "kseq f g s = kbind f (\<lambda>_. g) s"
  by (simp add: kseq_def)

lemma kbind_RetD:
  assumes "kbind f g s = Ret b u"
  obtains a t where "f s = Ret a t" and "g a t = Ret b u"
  using assms by (cases "f s") (auto simp: kbind_def)

lemma kseq_RetD:
  assumes "kseq f g s = Ret b u"
  obtains t where "f s = Ret () t" and "g t = Ret b u"
  using assms by (auto simp: kseq_def elim: kbind_RetD)

text \<open>A loop over the elements of a list, for the counted loops of the source.\<close>

primrec kfor :: "'a list \<Rightarrow> ('a \<Rightarrow> ('s, unit) kop) \<Rightarrow> ('s, unit) kop" where
  "kfor [] f = kret ()"
| "kfor (x # xs) f = kseq (f x) (kfor xs f)"

lemma kseq_Ret [simp]: "f s = Ret u t \<Longrightarrow> kseq f g s = g t"
  by (simp add: kseq_def)

text \<open>A post-condition of the normal return; panics are excluded by a separate claim.\<close>

definition returns :: "('s, 'a) kop \<Rightarrow> 's \<Rightarrow> ('a \<Rightarrow> 's \<Rightarrow> bool) \<Rightarrow> bool" where
  "returns f s Q \<longleftrightarrow> (\<exists>a t. f s = Ret a t \<and> Q a t)"

lemma returnsI: "f s = Ret a t \<Longrightarrow> Q a t \<Longrightarrow> returns f s Q"
  by (auto simp: returns_def)

lemma returns_bind:
  assumes "returns f s R" and "\<And>a t. R a t \<Longrightarrow> returns (g a) t Q"
  shows "returns (kbind f g) s Q"
  using assms by (fastforce simp: returns_def)

section \<open>Scan loops over fixed tables\<close>

text \<open>
  \<open>for (p = tab; p < &tab[N]; p++) if (P(*p)) { ...; return; }\<close> stops at the
  first entry that satisfies \<open>P\<close>: \<open>scan_idx\<close> is the index of that entry.
\<close>

fun scan_idx :: "('a \<Rightarrow> bool) \<Rightarrow> 'a list \<Rightarrow> nat option" where
  "scan_idx P [] = None"
| "scan_idx P (x # xs) = (if P x then Some 0 else map_option Suc (scan_idx P xs))"

lemma scan_idx_None [table_simps]: "scan_idx P xs = None \<longleftrightarrow> (\<forall>x \<in> set xs. \<not> P x)"
  by (induction xs) auto

lemma scan_idx_Some [table_simps]:
  "scan_idx P xs = Some i \<longleftrightarrow> i < length xs \<and> P (xs ! i) \<and> (\<forall>j < i. \<not> P (xs ! j))"
proof (induction xs arbitrary: i)
  case Nil
  then show ?case by simp
next
  case (Cons x xs)
  show ?case
  proof (cases i)
    case 0
    then show ?thesis by auto
  next
    case (Suc k)
    with Cons.IH [of k] show ?thesis
      by (simp add: All_less_Suc2)
  qed
qed

lemma scan_idxD:
  assumes "scan_idx P xs = Some i"
  shows "i < length xs" and "P (xs ! i)"
  using assms by (auto simp: scan_idx_Some)

lemma scan_idx_cong:
  "(\<And>x. x \<in> set xs \<Longrightarrow> P x \<longleftrightarrow> Q x) \<Longrightarrow> scan_idx P xs = scan_idx Q xs"
  by (induction xs) auto

lemma scan_idx_unique:
  assumes "i < length xs" and "P (xs ! i)" and "\<And>j. j < length xs \<Longrightarrow> P (xs ! j) \<Longrightarrow> j = i"
  shows "scan_idx P xs = Some i"
proof -
  have "\<not> P (xs ! j)" if "j < i" for j
    using that assms(1) assms(3) [of j] by auto
  with assms(1,2) show ?thesis by (simp add: scan_idx_Some)
qed

text \<open>Reading an updated entry; an update past the end changes nothing.\<close>

lemma nth_update_if [table_simps]:
  "k < length xs \<Longrightarrow> xs[i := v] ! k = (if i = k then v else xs ! k)"
  by (cases "i < length xs") (auto simp: nth_list_update list_update_beyond)

section \<open>Counters that do not wrap\<close>

lemma unat_Suc_below:
  fixes x :: u32
  assumes "unat x \<le> k" and "k < 2 ^ 32 - 1"
  shows "unat (x + 1) = unat x + 1"
proof -
  have "unat x + unat (1::u32) < 2 ^ LENGTH(32)" using assms by simp
  then show ?thesis by (simp add: unat_add_lem [THEN iffD1])
qed

section \<open>Reachability and invariants\<close>

inductive reach :: "('s \<Rightarrow> bool) \<Rightarrow> ('s \<Rightarrow> 's \<Rightarrow> bool) \<Rightarrow> 's \<Rightarrow> bool"
  for init :: "'s \<Rightarrow> bool" and step :: "'s \<Rightarrow> 's \<Rightarrow> bool" where
  reach_init: "init s \<Longrightarrow> reach init step s"
| reach_step: "reach init step s \<Longrightarrow> step s t \<Longrightarrow> reach init step t"

locale invariant_system =
  fixes init :: "'s \<Rightarrow> bool"
    and step :: "'s \<Rightarrow> 's \<Rightarrow> bool"
    and inv :: "'s \<Rightarrow> bool"
  assumes inv_init: "init s \<Longrightarrow> inv s"
    and inv_step: "inv s \<Longrightarrow> step s t \<Longrightarrow> inv t"
begin

lemma reach_inv: "reach init step s \<Longrightarrow> inv s"
proof (induction rule: reach.induct)
  case (reach_init s)
  then show ?case by (rule inv_init)
next
  case (reach_step s t)
  from reach_step.IH reach_step.hyps(2) show ?case by (rule inv_step)
qed

end

end
