(* ===== verification/ProcTable.thy ===== *)
theory ProcTable
  imports Prelude
begin

text \<open>
  The process table of \<open>kernel/proc.h\<close> and \<open>kernel/param.h\<close>: \<open>struct proc\<close>,
  its states and priorities, and the well-formedness of the table that the
  scheduler and the process operations keep. \<open>struct spinlock lock\<close> is not a
  field: an operation that runs between \<open>acquire(&p->lock)\<close> and
  \<open>release(&p->lock)\<close> is one atomic update of the entry (theory \<open>Spinlock\<close>
  models the locks themselves).
\<close>

section \<open>Parameters\<close>

definition NPROC :: nat where "NPROC = 64"
definition NCPU :: nat where "NCPU = 8"
definition NOFILE :: nat where "NOFILE = 16"

definition PRIORITY_MIN :: int where "PRIORITY_MIN = 0"
definition PRIORITY_MAX :: int where "PRIORITY_MAX = 31"
definition PRIORITY_DEFAULT :: int where "PRIORITY_DEFAULT = 10"
definition AGING_INTERVAL :: u32 where "AGING_INTERVAL = 50"

lemmas priority_consts =
  PRIORITY_MIN_def PRIORITY_MAX_def PRIORITY_DEFAULT_def

definition priority_valid :: "int \<Rightarrow> bool" where
  "priority_valid priority \<longleftrightarrow> PRIORITY_MIN \<le> priority \<and> priority \<le> PRIORITY_MAX"

lemma priority_valid_default [simp]: "priority_valid PRIORITY_DEFAULT"
  by (simp add: priority_valid_def priority_consts)

lemma priority_valid_iff: "priority_valid x \<longleftrightarrow> 0 \<le> x \<and> x \<le> 31"
  by (simp add: priority_valid_def priority_consts)

lemma NPROC_pos [simp]: "0 < NPROC"
  by (simp add: NPROC_def)

section \<open>Process states\<close>

datatype procstate = UNUSED | USED | SLEEPING | RUNNABLE | RUNNING | ZOMBIE

text \<open>The value of the C enumerator, which orders the states.\<close>

fun procstate_code :: "procstate \<Rightarrow> nat" where
  "procstate_code UNUSED = 0"
| "procstate_code USED = 1"
| "procstate_code SLEEPING = 2"
| "procstate_code RUNNABLE = 3"
| "procstate_code RUNNING = 4"
| "procstate_code ZOMBIE = 5"

lemma procstate_code_inj: "procstate_code a = procstate_code b \<longleftrightarrow> a = b"
  by (cases a; cases b) simp_all

instantiation procstate :: linorder
begin

definition less_eq_procstate :: "procstate \<Rightarrow> procstate \<Rightarrow> bool" where
  "less_eq_procstate a b \<longleftrightarrow> procstate_code a \<le> procstate_code b"

definition less_procstate :: "procstate \<Rightarrow> procstate \<Rightarrow> bool" where
  "less_procstate a b \<longleftrightarrow> procstate_code a < procstate_code b"

instance
  by standard
    (auto simp: less_eq_procstate_def less_procstate_def procstate_code_inj)

end

section \<open>Wait channels\<close>

text \<open>
  A wait channel is the address of a kernel object. Distinct objects have
  distinct addresses, so an address is represented by the object it names; the
  null channel is \<^const>\<open>None\<close>.
\<close>

datatype kaddr =
    AddrProc nat            \<comment> \<open>\<open>&proc[i]\<close>: kwait\<close>
  | AddrTicks               \<comment> \<open>\<open>&ticks\<close>: sys\_pause\<close>
  | AddrLog                 \<comment> \<open>\<open>&log\<close>: begin\_op, end\_op, sys\_sync\<close>
  | AddrPipeNread u64       \<comment> \<open>\<open>&pi->nread\<close>\<close>
  | AddrPipeNwrite u64      \<comment> \<open>\<open>&pi->nwrite\<close>\<close>
  | AddrConsR               \<comment> \<open>\<open>&cons.r\<close>\<close>
  | AddrBufLock nat         \<comment> \<open>the sleep lock of buffer \<open>i\<close>\<close>
  | AddrInodeLock nat       \<comment> \<open>the sleep lock of in-memory inode \<open>i\<close>\<close>
  | AddrBuf nat             \<comment> \<open>buffer \<open>i\<close>, while the disk owns it\<close>
  | AddrDiskFree            \<comment> \<open>\<open>&disk.free[0]\<close>\<close>
  | AddrTxLock              \<comment> \<open>the uart's sleep lock\<close>
  | AddrTxChan              \<comment> \<open>\<open>&tx_chan\<close>\<close>

section \<open>struct context and struct proc\<close>

record kcontext =
  ctx_ra :: u64
  ctx_sp :: u64
  ctx_s :: "u64 list"  \<comment> \<open>the callee-saved registers s0 .. s11\<close>

record proc =
  p_state :: procstate
  p_chan :: "kaddr option"
  p_killed :: int
  p_xstate :: int
  p_pid :: int
  p_priority :: int
  p_wait_ticks :: u32
  p_parent :: "nat option"
  p_kstack :: u64
  p_sz :: u64
  p_pagetable :: u64
  p_trapframe :: u64
  p_context :: kcontext
  p_ofile :: "nat option list"
  p_cwd :: "nat option"
  p_name :: "u8 list"

type_synonym ptable = "proc list"

text \<open>
  The zero-initialised entry of the C array \<open>struct proc proc[NPROC]\<close>.
\<close>

definition zero_proc :: proc where
  "zero_proc = \<lparr>p_state = UNUSED, p_chan = None, p_killed = 0, p_xstate = 0,
     p_pid = 0, p_priority = 0, p_wait_ticks = 0, p_parent = None, p_kstack = 0,
     p_sz = 0, p_pagetable = 0, p_trapframe = 0,
     p_context = \<lparr>ctx_ra = 0, ctx_sp = 0, ctx_s = replicate 12 0\<rparr>,
     p_ofile = replicate NOFILE None, p_cwd = None, p_name = replicate 16 0\<rparr>"

abbreviation runnable :: "proc \<Rightarrow> bool" where
  "runnable p \<equiv> p_state p = RUNNABLE"

section \<open>Well-formed tables\<close>

text \<open>
  Every entry has a valid priority: what the scheduler's comparison against
  \<open>PRIORITY_MAX + 1\<close> and the aging rule rely on.
\<close>

definition valid_table :: "ptable \<Rightarrow> bool" where
  "valid_table ps \<longleftrightarrow> length ps = NPROC \<and> (\<forall>p \<in> set ps. priority_valid (p_priority p))"

lemma valid_tableD:
  assumes "valid_table ps" and "i < NPROC"
  shows "i < length ps" and "0 \<le> p_priority (ps ! i)" and "p_priority (ps ! i) \<le> 31"
  using assms by (auto simp: valid_table_def priority_valid_iff)

lemma valid_table_length: "valid_table ps \<Longrightarrow> length ps = NPROC"
  by (simp add: valid_table_def)

lemma valid_table_update [intro]:
  assumes "valid_table ps" and "priority_valid (p_priority q)"
  shows "valid_table (ps[i := q])"
  using assms by (auto simp: valid_table_def dest!: subsetD [OF set_update_subset_insert])

lemma valid_table_map [intro]:
  assumes "valid_table ps"
    and "\<And>p. priority_valid (p_priority p) \<Longrightarrow> priority_valid (p_priority (f p))"
  shows "valid_table (map f ps)"
  using assms by (auto simp: valid_table_def)

text \<open>An update of one entry that keeps its priority.\<close>

lemma valid_table_modify:
  assumes "valid_table ps" and "p_priority q = p_priority (ps ! i)"
  shows "valid_table (ps[i := q])"
proof (cases "i < length ps")
  case True
  with assms have "priority_valid (p_priority q)" by (simp add: valid_table_def)
  with assms(1) show ?thesis by (rule valid_table_update)
next
  case False
  with assms(1) show ?thesis by (simp add: list_update_beyond)
qed

end
