(* ===== verification/Sched.thy ===== *)
theory Sched
  imports ProcTable
begin

text \<open>
  The per-CPU scheduler of \<open>kernel/proc.c\<close>: aging, the scan for the best
  priority, and the round-robin selection. One iteration of the \<open>for (;;)\<close>
  loop of \<open>scheduler()\<close> up to the context switch is \<open>scheduler_round\<close>; the
  code after \<open>swtch\<close> returns is \<open>scheduler_resume\<close>. The facts show that a
  round picks a runnable process of least priority value, that ties are broken
  in round-robin order, and that no runnable process starves.
\<close>

section \<open>The code\<close>

definition apply_aging :: "proc \<Rightarrow> proc" where
  "apply_aging p =
     (if p_state p = RUNNABLE \<and> AGING_INTERVAL \<le> p_wait_ticks p \<and>
         priority_valid (p_priority p) \<and> PRIORITY_MIN < p_priority p
      then p\<lparr>p_priority := p_priority p - 1, p_wait_ticks := 0\<rparr>
      else p)"

text \<open>The body of the first loop, on one entry and the loop's local variables.\<close>

definition scan_proc :: "proc \<Rightarrow> int \<Rightarrow> bool \<Rightarrow> proc \<times> int \<times> bool" where
  "scan_proc p best_priority found =
     (let p1 = apply_aging p in
      if p_state p1 = RUNNABLE then
        let p2 = p1\<lparr>p_wait_ticks := p_wait_ticks p1 + 1\<rparr> in
        if p_priority p2 < best_priority then (p2, p_priority p2, True)
        else (p2, best_priority, found)
      else (p1, best_priority, found))"

fun scan_table :: "ptable \<Rightarrow> int \<Rightarrow> bool \<Rightarrow> ptable \<times> int \<times> bool" where
  "scan_table [] best_priority found = ([], best_priority, found)"
| "scan_table (p # ps) best_priority found =
     (let (p', b, f) = scan_proc p best_priority found;
          (ps', b', f') = scan_table ps b f
      in (p' # ps', b', f'))"

text \<open>The second loop: the index of the entry it switches to, if any.\<close>

function select_index :: "ptable \<Rightarrow> int \<Rightarrow> nat \<Rightarrow> nat \<Rightarrow> nat option" where
  "select_index ps best_priority next_index offset =
     (if offset < NPROC then
        let index = (next_index + offset) mod NPROC in
        if p_state (ps ! index) = RUNNABLE \<and> p_priority (ps ! index) = best_priority
        then Some index
        else select_index ps best_priority next_index (offset + 1)
      else None)"
  by pat_completeness auto
termination
  by (relation "measure (\<lambda>(ps, b, n, offset). NPROC - offset)") auto

declare select_index.simps [simp del]

definition dispatch :: "ptable \<Rightarrow> nat \<Rightarrow> ptable" where
  "dispatch ps index = ps[index := (ps ! index)\<lparr>p_state := RUNNING, p_wait_ticks := 0\<rparr>]"

text \<open>
  What an iteration does: \<open>Run i\<close> switches to process \<open>i\<close>, \<open>Retry\<close> goes
  round the loop again (another CPU took the candidate), \<open>Wfi\<close> waits for an
  interrupt.
\<close>

datatype decision = Run nat | Retry | Wfi

definition scheduler_round :: "ptable \<Rightarrow> nat \<Rightarrow> decision \<times> ptable" where
  "scheduler_round ps next_index =
     (let (ps1, best_priority, found) = scan_table ps (PRIORITY_MAX + 1) False in
      if found then
        (case select_index ps1 best_priority next_index 0 of
           Some index \<Rightarrow> (Run index, dispatch ps1 index)
         | None \<Rightarrow> (Retry, ps1))
      else (Wfi, ps1))"

text \<open>The scheduler's \<open>next_index\<close> for the following iteration.\<close>

definition scheduler_resume :: "decision \<Rightarrow> nat \<Rightarrow> nat" where
  "scheduler_resume d next_index =
     (case d of Run index \<Rightarrow> (index + 1) mod NPROC | _ \<Rightarrow> next_index)"

section \<open>The first loop\<close>

text \<open>What the first loop does to an entry, independently of its local variables.\<close>

definition age_tick :: "proc \<Rightarrow> proc" where
  "age_tick p = fst (scan_proc p 0 False)"

lemma apply_aging_simps [simp]:
  "p_state (apply_aging p) = p_state p" "p_pid (apply_aging p) = p_pid p"
  "p_chan (apply_aging p) = p_chan p" "p_parent (apply_aging p) = p_parent p"
  "p_killed (apply_aging p) = p_killed p"
  by (simp_all add: apply_aging_def)

lemma scan_proc_age: "scan_proc p b f =
    (age_tick p,
     if runnable p \<and> p_priority (age_tick p) < b then (p_priority (age_tick p), True)
     else (b, f))"
  by (auto simp: age_tick_def scan_proc_def Let_def)

lemma age_tick_simps [simp]:
  "p_state (age_tick p) = p_state p" "p_pid (age_tick p) = p_pid p"
  "p_chan (age_tick p) = p_chan p" "p_parent (age_tick p) = p_parent p"
  "p_killed (age_tick p) = p_killed p"
  by (auto simp: age_tick_def scan_proc_def Let_def)

lemma age_tick_not_runnable: "\<not> runnable p \<Longrightarrow> age_tick p = p"
  by (simp add: age_tick_def scan_proc_def apply_aging_def)

lemma age_tick_priority:
  "p_priority (age_tick p) =
     (if runnable p \<and> 50 \<le> p_wait_ticks p \<and> priority_valid (p_priority p) \<and> 0 < p_priority p
      then p_priority p - 1 else p_priority p)"
  by (auto simp: age_tick_def scan_proc_def apply_aging_def Let_def AGING_INTERVAL_def
      PRIORITY_MIN_def)

lemma age_tick_wait:
  "p_wait_ticks (age_tick p) =
     (if \<not> runnable p then p_wait_ticks p
      else if 50 \<le> p_wait_ticks p \<and> priority_valid (p_priority p) \<and> 0 < p_priority p then 1
      else p_wait_ticks p + 1)"
  by (auto simp: age_tick_def scan_proc_def apply_aging_def Let_def AGING_INTERVAL_def
      PRIORITY_MIN_def)

lemma age_tick_valid: "priority_valid (p_priority p) \<Longrightarrow> priority_valid (p_priority (age_tick p))"
  by (auto simp: age_tick_priority priority_valid_iff)

lemma scan_table_correct:
  assumes "scan_table ps b f = (ps', b', f')"
  shows "ps' = map age_tick ps \<and> b' \<le> b \<and>
    (\<forall>p \<in> set ps'. runnable p \<longrightarrow> b' \<le> p_priority p) \<and>
    (b' < b \<longrightarrow> (\<exists>p \<in> set ps'. runnable p \<and> p_priority p = b')) \<and>
    (f' \<longleftrightarrow> f \<or> b' < b)"
  using assms
proof (induction ps arbitrary: b f ps' b' f')
  case Nil
  then show ?case by simp
next
  case (Cons p ps)
  let ?hit = "runnable p \<and> p_priority (age_tick p) < b"
  let ?b1 = "if ?hit then p_priority (age_tick p) else b"
  let ?f1 = "if ?hit then True else f"
  from Cons.prems obtain qs where
    rest: "scan_table ps ?b1 ?f1 = (qs, b', f')" and ps': "ps' = age_tick p # qs"
    by (auto simp: scan_proc_age split: prod.splits if_splits)
  note IH = Cons.IH [OF rest]
  show ?case
  proof (intro conjI)
    show "ps' = map age_tick (p # ps)" using IH ps' by simp
    show "b' \<le> b" using IH by (simp split: if_splits)
    show "\<forall>q \<in> set ps'. runnable q \<longrightarrow> b' \<le> p_priority q"
      using IH ps' by (force split: if_splits)
    show "b' < b \<longrightarrow> (\<exists>q \<in> set ps'. runnable q \<and> p_priority q = b')"
      using IH ps' by (cases "b' < ?b1") (auto split: if_splits)
    show "f' \<longleftrightarrow> f \<or> b' < b" using IH by (auto split: if_splits)
  qed
qed

lemma scan_table_found:
  assumes "valid_table ps" and "scan_table ps (PRIORITY_MAX + 1) False = (ps', b, f)"
  shows "f \<longleftrightarrow> (\<exists>p \<in> set ps'. runnable p)"
proof -
  note spec = scan_table_correct [OF assms(2)]
  have "p_priority p < PRIORITY_MAX + 1" if "p \<in> set ps'" for p
  proof -
    from that spec obtain q where "q \<in> set ps" "p = age_tick q" by auto
    with assms(1) have "priority_valid (p_priority p)"
      by (auto simp: valid_table_def age_tick_valid)
    then show ?thesis by (simp add: priority_valid_def)
  qed
  with spec show ?thesis by force
qed

section \<open>The second loop\<close>

lemma select_index_Some:
  assumes "select_index ps b n k = Some i"
  shows "\<exists>d. k \<le> d \<and> d < NPROC \<and> i = (n + d) mod NPROC \<and> runnable (ps ! i) \<and>
    p_priority (ps ! i) = b \<and>
    (\<forall>e. k \<le> e \<longrightarrow> e < d \<longrightarrow>
       \<not> (runnable (ps ! ((n + e) mod NPROC)) \<and> p_priority (ps ! ((n + e) mod NPROC)) = b))"
  using assms
proof (induction ps b n k rule: select_index.induct)
  case (1 ps b n k)
  let ?i = "(n + k) mod NPROC"
  let ?hit = "runnable (ps ! ?i) \<and> p_priority (ps ! ?i) = b"
  from "1.prems" have k: "k < NPROC" by (subst (asm) select_index.simps) (simp split: if_splits)
  show ?case
  proof (cases ?hit)
    case True
    with "1.prems" k have "i = ?i" by (subst (asm) select_index.simps) simp
    with True k show ?thesis by (intro exI [of _ k]) simp
  next
    case False
    with "1.prems" k have "select_index ps b n (k + 1) = Some i"
      by (subst (asm) select_index.simps) (simp add: Let_def)
    from "1.IH" [OF k refl False this] obtain d where d: "k + 1 \<le> d" "d < NPROC"
      "i = (n + d) mod NPROC" "runnable (ps ! i)" "p_priority (ps ! i) = b"
      "\<forall>e. k + 1 \<le> e \<longrightarrow> e < d \<longrightarrow>
        \<not> (runnable (ps ! ((n + e) mod NPROC)) \<and> p_priority (ps ! ((n + e) mod NPROC)) = b)"
      by blast
    have "\<not> (runnable (ps ! ((n + e) mod NPROC)) \<and> p_priority (ps ! ((n + e) mod NPROC)) = b)"
      if "k \<le> e" "e < d" for e
      using that d(6) False by (cases "e = k") auto
    with d show ?thesis by (intro exI [of _ d]) simp
  qed
qed

lemma select_index_None:
  assumes "select_index ps b n k = None" and "k \<le> d" and "d < NPROC"
  shows "\<not> (runnable (ps ! ((n + d) mod NPROC)) \<and> p_priority (ps ! ((n + d) mod NPROC)) = b)"
  using assms
proof (induction ps b n k rule: select_index.induct)
  case (1 ps b n k)
  let ?i = "(n + k) mod NPROC"
  from "1.prems" have k: "k < NPROC" by simp
  with "1.prems"(1) have miss: "\<not> (runnable (ps ! ?i) \<and> p_priority (ps ! ?i) = b)"
    by (subst (asm) select_index.simps) (auto simp: Let_def split: if_splits)
  with "1.prems"(1) k have rest: "select_index ps b n (k + 1) = None"
    by (subst (asm) select_index.simps) (simp add: Let_def)
  show ?case
  proof (cases "d = k")
    case True
    with miss show ?thesis by simp
  next
    case False
    with "1.prems"(2) have "k + 1 \<le> d" by simp
    from "1.IH" [OF k refl miss rest this "1.prems"(3)] show ?thesis .
  qed
qed

text \<open>The distance from \<open>n\<close> to \<open>i\<close> going up and round the table.\<close>

definition ring_dist :: "nat \<Rightarrow> nat \<Rightarrow> nat" where
  "ring_dist n i = (i + NPROC - n) mod NPROC"

lemma ring_dist_less [simp]: "ring_dist n i < NPROC"
  by (simp add: ring_dist_def)

lemma ring_dist_reaches: "n < NPROC \<Longrightarrow> i < NPROC \<Longrightarrow> (n + ring_dist n i) mod NPROC = i"
  by (simp add: ring_dist_def mod_add_right_eq)

lemma ring_dist_of_offset: "n < NPROC \<Longrightarrow> d < NPROC \<Longrightarrow> ring_dist n ((n + d) mod NPROC) = d"
  by (cases "n + d < NPROC") (auto simp: ring_dist_def mod_if)

text \<open>Moving \<open>n\<close> past a nearer entry brings a farther entry nearer.\<close>

lemma ring_dist_advance:
  assumes "n < NPROC" "i < NPROC" "j < NPROC" "ring_dist n j < ring_dist n i"
  shows "ring_dist ((j + 1) mod NPROC) i < ring_dist n i"
  using assms by (auto simp: ring_dist_def NPROC_def mod_if split: if_splits)

section \<open>One iteration\<close>

lemma round_cases:
  assumes "valid_table ps"
  obtains (wfi) "scheduler_round ps n = (Wfi, map age_tick ps)"
      "\<forall>p \<in> set ps. \<not> runnable p"
  | (run) j where "scheduler_round ps n = (Run j, dispatch (map age_tick ps) j)"
      "j < NPROC" "runnable (ps ! j)"
      "\<And>k. k < NPROC \<Longrightarrow> runnable (ps ! k) \<Longrightarrow>
         p_priority (age_tick (ps ! j)) \<le> p_priority (age_tick (ps ! k))"
      "\<And>k. n < NPROC \<Longrightarrow> k < NPROC \<Longrightarrow> runnable (ps ! k) \<Longrightarrow>
         p_priority (age_tick (ps ! k)) = p_priority (age_tick (ps ! j)) \<Longrightarrow>
         ring_dist n j \<le> ring_dist n k"
proof -
  obtain ps1 b f where sc: "scan_table ps (PRIORITY_MAX + 1) False = (ps1, b, f)"
    by (cases "scan_table ps (PRIORITY_MAX + 1) False") auto
  note spec = scan_table_correct [OF sc] and fnd = scan_table_found [OF assms sc]
  have len: "length ps = NPROC" using assms by (rule valid_table_length)
  have ps1: "ps1 = map age_tick ps" using spec by simp
  have nth1: "k < NPROC \<Longrightarrow> ps1 ! k = age_tick (ps ! k)" for k by (simp add: ps1 len)
  show ?thesis
  proof (cases f)
    case False
    with fnd ps1 have "\<forall>p \<in> set ps. \<not> runnable p" by auto
    from wfi [OF _ this] show ?thesis
      using sc False ps1 by (simp add: scheduler_round_def)
  next
    case True
    with spec have "b < PRIORITY_MAX + 1" by simp
    with spec obtain q where q: "q \<in> set ps1" "runnable q" "p_priority q = b" by blast
    then obtain m where m: "m < NPROC" "ps1 ! m = q"
      by (metis in_set_conv_nth length_map len ps1)
    show ?thesis
    proof (cases "select_index ps1 b n 0")
      case None
      let ?d = "ring_dist (n mod NPROC) m"
      have "(n + ?d) mod NPROC = m"
        using ring_dist_reaches [of "n mod NPROC" m] m(1) by (simp add: mod_add_left_eq)
      with select_index_None [OF None, of ?d] q m(2) show ?thesis by simp
    next
      case (Some j)
      from select_index_Some [OF Some] obtain d where d: "d < NPROC" "j = (n + d) mod NPROC"
        "runnable (ps1 ! j)" "p_priority (ps1 ! j) = b"
        "\<forall>e. 0 \<le> e \<longrightarrow> e < d \<longrightarrow> \<not> (runnable (ps1 ! ((n + e) mod NPROC)) \<and>
            p_priority (ps1 ! ((n + e) mod NPROC)) = b)"
        by blast
      have j: "j < NPROC" using d(2) by simp
      show ?thesis
      proof (rule run [OF _ j])
        show "scheduler_round ps n = (Run j, dispatch (map age_tick ps) j)"
          using sc True Some ps1 by (simp add: scheduler_round_def)
        show "runnable (ps ! j)" using d(3) nth1 [OF j] by simp
        show "p_priority (age_tick (ps ! j)) \<le> p_priority (age_tick (ps ! k))"
          if "k < NPROC" "runnable (ps ! k)" for k
          using spec d(4) that nth1 [OF j] nth1 [OF that(1)] ps1 len
          by (metis age_tick_simps(1) length_map nth_mem)
        show "ring_dist n j \<le> ring_dist n k"
          if "n < NPROC" "k < NPROC" "runnable (ps ! k)"
            "p_priority (age_tick (ps ! k)) = p_priority (age_tick (ps ! j))" for k
        proof (rule ccontr)
          assume "\<not> ring_dist n j \<le> ring_dist n k"
          then have less: "ring_dist n k < d"
            using ring_dist_of_offset [OF that(1) d(1)] d(2) by simp
          have "(n + ring_dist n k) mod NPROC = k" using that(1,2) by (rule ring_dist_reaches)
          with d(5) less that(3,4) nth1 [OF that(2)] nth1 [OF j] d(4) show False by force
        qed
      qed
    qed
  qed
qed

lemma round_valid:
  assumes "valid_table ps"
  shows "valid_table (snd (scheduler_round ps n))"
proof -
  have aged: "valid_table (map age_tick ps)"
    using assms by (rule valid_table_map) (rule age_tick_valid)
  from assms show ?thesis
  proof (cases rule: round_cases [of ps n])
    case wfi
    with aged show ?thesis by simp
  next
    case (run j)
    have "priority_valid (p_priority (map age_tick ps ! j))"
      using aged run(2) by (simp add: valid_table_def)
    with aged run(1) show ?thesis by (auto simp: dispatch_def intro!: valid_table_update)
  qed
qed

section \<open>No starvation\<close>

text \<open>
  The fields of an entry that the scheduler reads or writes.
\<close>

definition sched_view :: "proc \<Rightarrow> procstate \<times> int \<times> u32" where
  "sched_view p = (p_state p, p_priority p, p_wait_ticks p)"

text \<open>
  \<open>sched_iter i\<close> relates the table and \<open>next_index\<close> at the start of one
  iteration to those at the start of the next. Between the two the dispatched
  process and interrupt handlers may change the table arbitrarily, as long as
  priorities stay valid and the scheduler's view of process \<open>i\<close> is left alone
  while \<open>i\<close> waits: that is all that \<open>yield\<close>, \<open>sleep\<close>, \<open>wakeup\<close>,
  \<open>kkill\<close>, \<open>kfork\<close>, \<open>kexit\<close> and \<open>ksetpriority\<close> of another process do.
\<close>

definition sched_iter :: "nat \<Rightarrow> ptable \<times> nat \<Rightarrow> ptable \<times> nat \<Rightarrow> bool" where
  "sched_iter i st st' \<longleftrightarrow>
     (case scheduler_round (fst st) (snd st) of (d, ps1) \<Rightarrow>
        valid_table (fst st') \<and> snd st' = scheduler_resume d (snd st) \<and>
        (d \<noteq> Run i \<longrightarrow> sched_view (fst st' ! i) = sched_view (ps1 ! i)))"

text \<open>Rounds after which a process that keeps waiting has priority \<open>PRIORITY_MIN\<close>.\<close>

definition boosts_left :: "proc \<Rightarrow> nat" where
  "boosts_left p = (if p_priority p \<le> 0 then 0
     else 50 * (nat (p_priority p) - 1) +
       (if 50 \<le> unat (p_wait_ticks p) then 1 else 51 - unat (p_wait_ticks p)))"

lemma boosts_left_cong: "sched_view p = sched_view q \<Longrightarrow> boosts_left p = boosts_left q"
  by (simp add: boosts_left_def sched_view_def)

lemma boosts_left_bound: "p_priority p \<le> 31 \<Longrightarrow> boosts_left p \<le> 1551"
  by (auto simp: boosts_left_def)

lemma boosts_left_age:
  assumes "runnable p" and "priority_valid (p_priority p)"
  shows "boosts_left (age_tick p) = boosts_left p - 1"
proof -
  have wait50: "(50 \<le> p_wait_ticks p) \<longleftrightarrow> 50 \<le> unat (p_wait_ticks p)"
    by (simp add: word_le_nat_alt)
  show ?thesis
  proof (cases "p_priority p \<le> 0")
    case True
    then show ?thesis by (simp add: boosts_left_def age_tick_priority)
  next
    case False
    then have pos: "0 < p_priority p" by simp
    show ?thesis
    proof (cases "50 \<le> unat (p_wait_ticks p)")
      case True
      have "nat (p_priority p - 1) = nat (p_priority p) - 1" by simp
      with True pos assms wait50 show ?thesis
        by (auto simp: boosts_left_def age_tick_priority age_tick_wait nat_diff_distrib)
    next
      case wait: False
      then have "unat (p_wait_ticks p + 1) = unat (p_wait_ticks p) + 1"
        by (intro unat_Suc_below [of _ 50]) simp_all
      with wait pos assms wait50 show ?thesis
        by (auto simp: boosts_left_def age_tick_priority age_tick_wait)
    qed
  qed
qed

lemma boosts_left_zero:
  assumes "priority_valid (p_priority p)" shows "boosts_left p = 0 \<longleftrightarrow> p_priority p = 0"
  using assms by (auto simp: boosts_left_def priority_valid_iff)

lemma sched_iterE:
  assumes "sched_iter i st st'" and "valid_table (fst st)" and "i < NPROC"
    and "fst (scheduler_round (fst st) (snd st)) \<noteq> Run i" and "runnable (fst st ! i)"
  obtains j where "fst (scheduler_round (fst st) (snd st)) = Run j" "j < NPROC" "j \<noteq> i"
    "valid_table (fst st')" "snd st' = (j + 1) mod NPROC"
    "sched_view (fst st' ! i) = sched_view (age_tick (fst st ! i))"
    "p_priority (age_tick (fst st ! j)) \<le> p_priority (age_tick (fst st ! i))"
    "snd st < NPROC \<Longrightarrow> p_priority (age_tick (fst st ! i)) = p_priority (age_tick (fst st ! j)) \<Longrightarrow>
      ring_dist (snd st) j \<le> ring_dist (snd st) i"
proof -
  have len: "length (fst st) = NPROC" using assms(2) by (rule valid_table_length)
  from assms(2) show ?thesis
  proof (cases rule: round_cases [of "fst st" "snd st"])
    case wfi
    with assms(3,5) len show ?thesis by (metis nth_mem)
  next
    case (run j)
    with assms(4) have ne: "j \<noteq> i" by auto
    have view: "sched_view (fst st' ! i) = sched_view (age_tick (fst st ! i))"
      using assms(1,3) run(1) ne len by (simp add: sched_iter_def dispatch_def)
    show ?thesis
      by (rule that [OF _ run(2) ne _ _ view run(4) [OF assms(3,5)] run(5) [OF _ assms(3,5)]])
        (use assms(1) run(1) in \<open>simp_all add: sched_iter_def scheduler_resume_def\<close>)
  qed
qed

text \<open>Once a process has the best possible priority, round-robin reaches it.\<close>

lemma top_priority_served:
  assumes "\<And>k. sched_iter i (S k) (S (Suc k))" and "valid_table (fst (S m))" and "snd (S m) < NPROC"
    and "i < NPROC" and "runnable (fst (S m) ! i)" and "p_priority (fst (S m) ! i) = 0"
  shows "\<exists>k \<le> ring_dist (snd (S m)) i. fst (scheduler_round (fst (S (m + k))) (snd (S (m + k)))) = Run i"
  using assms(2-)
proof (induction "ring_dist (snd (S m)) i" arbitrary: m rule: less_induct)
  case less
  let ?d = "fst (scheduler_round (fst (S m)) (snd (S m)))"
  show ?case
  proof (cases "?d = Run i")
    case True
    then show ?thesis by (intro exI [of _ 0]) simp
  next
    case False
    note less.prems(3) [simp]
    from sched_iterE [OF assms(1) [of m] less.prems(1) less.prems(3) False less.prems(4)]
    obtain j where j: "j < NPROC" "j \<noteq> i" "valid_table (fst (S (Suc m)))"
      "snd (S (Suc m)) = (j + 1) mod NPROC"
      "sched_view (fst (S (Suc m)) ! i) = sched_view (age_tick (fst (S m) ! i))"
      "p_priority (age_tick (fst (S m) ! j)) \<le> p_priority (age_tick (fst (S m) ! i))"
      "p_priority (age_tick (fst (S m) ! i)) = p_priority (age_tick (fst (S m) ! j)) \<Longrightarrow>
        ring_dist (snd (S m)) j \<le> ring_dist (snd (S m)) i"
      using less.prems(2) by metis
    have aged: "p_priority (age_tick (fst (S m) ! i)) = 0"
      using less.prems(5) by (simp add: age_tick_priority)
    have "priority_valid (p_priority (age_tick (fst (S m) ! j)))"
      using less.prems(1) j(1) by (auto simp: valid_table_def intro!: age_tick_valid)
    with aged j(6) have "p_priority (age_tick (fst (S m) ! j)) = 0"
      by (simp add: priority_valid_iff)
    with j(7) aged have "ring_dist (snd (S m)) j \<le> ring_dist (snd (S m)) i" by simp
    moreover have "ring_dist (snd (S m)) j \<noteq> ring_dist (snd (S m)) i"
      using ring_dist_reaches [OF less.prems(2) j(1)] ring_dist_reaches [OF less.prems(2,3)] j(2)
      by metis
    ultimately have nearer: "ring_dist (snd (S m)) j < ring_dist (snd (S m)) i" by simp
    have closer: "ring_dist (snd (S (Suc m))) i < ring_dist (snd (S m)) i"
      using ring_dist_advance [OF less.prems(2,3) j(1) nearer] j(4) by simp
    have "runnable (fst (S (Suc m)) ! i)" "p_priority (fst (S (Suc m)) ! i) = 0"
      using j(5) less.prems(4) aged by (simp_all add: sched_view_def)
    with less.hyps [OF closer j(3)] j(4) obtain k where
      "k \<le> ring_dist (snd (S (Suc m))) i"
      "fst (scheduler_round (fst (S (Suc m + k))) (snd (S (Suc m + k)))) = Run i"
      by auto
    with closer show ?thesis by (intro exI [of _ "Suc k"]) simp
  qed
qed

lemma waiting_served:
  assumes "\<And>k. sched_iter i (S k) (S (Suc k))" and "valid_table (fst (S m))" and "snd (S m) < NPROC"
    and "i < NPROC" and "runnable (fst (S m) ! i)"
  shows "\<exists>k < boosts_left (fst (S m) ! i) + NPROC.
    fst (scheduler_round (fst (S (m + k))) (snd (S (m + k)))) = Run i"
  using assms(2-)
proof (induction "boosts_left (fst (S m) ! i)" arbitrary: m)
  case 0
  have "priority_valid (p_priority (fst (S m) ! i))"
    using 0(2,4) by (simp add: valid_table_def)
  with 0(1) have "p_priority (fst (S m) ! i) = 0" by (metis boosts_left_zero)
  from top_priority_served [OF assms(1) 0(2-5) this] show ?case
    using ring_dist_less [of "snd (S m)" i] by (metis add_0 0(1) le_less_trans)
next
  case (Suc b)
  show ?case
  proof (cases "fst (scheduler_round (fst (S m)) (snd (S m))) = Run i")
    case True
    then show ?thesis by (intro exI [of _ 0]) simp
  next
    case False
    from sched_iterE [OF assms(1) [of m] Suc(3,5) False Suc(6)]
    obtain j where j: "j < NPROC" "valid_table (fst (S (Suc m)))"
      "snd (S (Suc m)) = (j + 1) mod NPROC"
      "sched_view (fst (S (Suc m)) ! i) = sched_view (age_tick (fst (S m) ! i))" by metis
    have valid: "priority_valid (p_priority (fst (S m) ! i))"
      using Suc(3,5) by (simp add: valid_table_def)
    have left: "b = boosts_left (fst (S (Suc m)) ! i)"
      using boosts_left_cong [OF j(4)] boosts_left_age [OF Suc(6) valid] Suc(2) by simp
    have "runnable (fst (S (Suc m)) ! i)" using j(4) Suc(6) by (simp add: sched_view_def)
    from Suc(1) [OF left j(2) _ Suc(5) this] j(3) obtain k where
      "k < b + NPROC" "fst (scheduler_round (fst (S (Suc m + k))) (snd (S (Suc m + k)))) = Run i"
      using left by auto
    with Suc(2) show ?thesis by (intro exI [of _ "Suc k"]) simp
  qed
qed

section \<open>yield\<close>

text \<open>
  \<open>yield()\<close> makes the calling process runnable again and switches to the
  scheduler.
\<close>

definition yield :: "nat \<Rightarrow> ptable \<Rightarrow> ptable" where
  "yield cur ps = ps[cur := (ps ! cur)\<lparr>p_state := RUNNABLE\<rparr>]"

text \<open>One iteration after which the dispatched process does nothing but yield.\<close>

definition yielding_iter :: "ptable \<times> nat \<Rightarrow> ptable \<times> nat" where
  "yielding_iter st =
     (case scheduler_round (fst st) (snd st) of
        (Run j, ps1) \<Rightarrow> (yield j ps1, scheduler_resume (Run j) (snd st))
      | (d, ps1) \<Rightarrow> (ps1, scheduler_resume d (snd st)))"

lemma yield_valid: "valid_table ps \<Longrightarrow> valid_table (yield cur ps)"
  unfolding yield_def by (rule valid_table_modify) simp_all

lemma yielding_iter_valid:
  assumes "valid_table (fst st)" shows "valid_table (fst (yielding_iter st))"
  using round_valid [OF assms, of "snd st"]
  by (auto simp: yielding_iter_def yield_valid split: prod.splits decision.splits)

lemma sched_iter_yielding:
  assumes "valid_table (fst st)"
  shows "sched_iter i st (yielding_iter st)"
  using yielding_iter_valid [OF assms]
  by (auto simp: sched_iter_def yielding_iter_def yield_def nth_list_update
      split: prod.splits decision.splits)

lemma yielding_iter_run:
  "valid_table (fst st) \<Longrightarrow> valid_table (fst ((yielding_iter ^^ k) st))"
  by (induction k) (auto intro: yielding_iter_valid)

section \<open>Aging in closed form\<close>

lemma last_residue: "(r::nat) < 50 \<Longrightarrow> 50 \<le> r + 1 \<longleftrightarrow> r = 49"
  by linarith

lemma age_tick_waiting_state:
  assumes "runnable p" "priority_valid (p_priority p)" "p_wait_ticks p = 0"
  shows "p_priority ((age_tick ^^ Suc n) p) = max 0 (p_priority p - int (n div 50)) \<and>
    runnable ((age_tick ^^ Suc n) p) \<and>
    (0 < p_priority ((age_tick ^^ Suc n) p) \<longrightarrow>
       unat (p_wait_ticks ((age_tick ^^ Suc n) p)) = n mod 50 + 1)"
proof (induction n)
  case 0
  with assms show ?case by (auto simp: age_tick_priority age_tick_wait priority_valid_iff)
next
  case (Suc n)
  define q where "q = (age_tick ^^ Suc n) p"
  have q: "p_priority q = max 0 (p_priority p - int (n div 50))" "runnable q"
    "0 < p_priority q \<longrightarrow> unat (p_wait_ticks q) = n mod 50 + 1"
    using Suc.IH unfolding q_def by blast+
  then have valid: "priority_valid (p_priority q)"
    using assms(2) by (auto simp: priority_valid_iff)
  have step: "(age_tick ^^ Suc (Suc n)) p = age_tick q" by (simp add: q_def)
  show ?case
  proof (cases "0 < p_priority q")
    case False
    with q valid have zero: "p_priority q = 0" by (simp add: priority_valid_iff)
    moreover have "n div 50 \<le> Suc n div 50" by (simp add: div_le_mono)
    ultimately show ?thesis using q(1,2)
      by (simp only: step) (auto simp: age_tick_priority)
  next
    case True
    with q(3) have w: "unat (p_wait_ticks q) = n mod 50 + 1" by simp
    have le: "(50 \<le> p_wait_ticks q) \<longleftrightarrow> n mod 50 = 49"
      using last_residue [of "n mod 50"] by (simp add: word_le_nat_alt w)
    show ?thesis
    proof (cases "n mod 50 = 49")
      case True49: True
      then have "Suc n div 50 = n div 50 + 1" "Suc n mod 50 = 0"
        by (simp_all add: div_Suc mod_Suc)
      with True49 le True q(1,2) valid show ?thesis
        by (simp only: step) (auto simp: age_tick_priority age_tick_wait)
    next
      case False49: False
      then have d: "Suc n div 50 = n div 50" "Suc n mod 50 = n mod 50 + 1"
        by (simp_all add: div_Suc mod_Suc)
      have "unat (p_wait_ticks q + 1) = unat (p_wait_ticks q) + 1"
        by (rule unat_Suc_below [of _ 50]) (simp_all add: w)
      with False49 le True q(1,2) valid d w show ?thesis
        by (simp only: step) (auto simp: age_tick_priority age_tick_wait)
    qed
  qed
qed

section \<open>Properties of the scheduler\<close>

text \<open>A table of runnable processes with the worst priority, for the witnesses.\<close>

definition crowd :: ptable where
  "crowd = replicate NPROC (zero_proc\<lparr>p_state := RUNNABLE, p_priority := 31\<rparr>)"

lemma crowd_valid: "valid_table crowd"
  by (auto simp: crowd_def valid_table_def priority_valid_iff)

lemma crowd_nth: "i < NPROC \<Longrightarrow> crowd ! i = zero_proc\<lparr>p_state := RUNNABLE, p_priority := 31\<rparr>"
  by (simp add: crowd_def)



text \<open>
  C2: what one iteration picks. When \<open>scheduler()\<close> switches to process \<open>j\<close>,
  \<open>j\<close> was runnable, becomes \<open>RUNNING\<close> with a cleared wait counter, and every
  other runnable process has, after this round's aging, a larger priority value,
  or the same value and a later place in the round-robin order that starts at
  \<open>next_index\<close>. The other entries change by this round's aging and wait count only.
\<close>

theorem round_picks_best:
  assumes "valid_table ps" and "n < NPROC" and "scheduler_round ps n = (Run j, ps')"
  shows "j < NPROC \<and> runnable (ps ! j) \<and> p_state (ps' ! j) = RUNNING \<and>
    p_wait_ticks (ps' ! j) = 0 \<and> p_priority (ps' ! j) = p_priority (apply_aging (ps ! j)) \<and>
    (\<forall>k < NPROC. k \<noteq> j \<longrightarrow> ps' ! k = fst (scan_proc (ps ! k) 0 False)) \<and>
    (\<forall>k < NPROC. k \<noteq> j \<longrightarrow> runnable (ps ! k) \<longrightarrow>
       p_priority (ps' ! j) < p_priority (ps' ! k) \<or>
       p_priority (ps' ! j) = p_priority (ps' ! k) \<and> ring_dist n j < ring_dist n k)"
  using assms(1)
proof (cases rule: round_cases [of ps n])
  case wfi
  with assms(3) show ?thesis by simp
next
  case (run i)
  with assms(3) have [simp]: "i = j" and ps': "ps' = dispatch (map age_tick ps) j" by auto
  have len: "length ps = NPROC" using assms(1) by (rule valid_table_length)
  have at: "ps' ! j = (age_tick (ps ! j))\<lparr>p_state := RUNNING, p_wait_ticks := 0\<rparr>"
    using run(2) len by (simp add: ps' dispatch_def)
  have other: "ps' ! k = age_tick (ps ! k)" if "k < NPROC" "k \<noteq> j" for k
    using that len by (simp add: ps' dispatch_def)
  have rr: "ring_dist n j < ring_dist n k"
    if "k < NPROC" "k \<noteq> j" "runnable (ps ! k)" "p_priority (ps' ! j) = p_priority (ps' ! k)" for k
  proof -
    have "ring_dist n j \<le> ring_dist n k"
      using run(5) [OF assms(2) that(1,3)] that(4) at other [OF that(1,2)] by simp
    moreover have "ring_dist n j \<noteq> ring_dist n k"
      using ring_dist_reaches [OF assms(2), of j] ring_dist_reaches [OF assms(2) that(1)]
        run(2) that(2) by auto
    ultimately show ?thesis by simp
  qed
  have prio: "p_priority (age_tick (ps ! j)) = p_priority (apply_aging (ps ! j))"
    by (auto simp: age_tick_def scan_proc_def Let_def)
  have best: "p_priority (ps' ! j) \<le> p_priority (ps' ! k)"
    if "k < NPROC" "k \<noteq> j" "runnable (ps ! k)" for k
    using run(4) [OF that(1,3)] at other [OF that(1,2)] by simp
  show ?thesis
    using run(2,3) at other prio best rr by (auto simp: age_tick_def order_le_less)
qed

theorem round_picks_best_witness:
  "fst (scheduler_round (crowd[5 := (crowd ! 5)\<lparr>p_priority := 3\<rparr>]) 7) = Run 5 \<and>
   p_priority (snd (scheduler_round (crowd[5 := (crowd ! 5)\<lparr>p_priority := 3\<rparr>]) 7) ! 5)
     < p_priority (snd (scheduler_round (crowd[5 := (crowd ! 5)\<lparr>p_priority := 3\<rparr>]) 7) ! 6)"
proof -
  let ?ps = "crowd[5 := (crowd ! 5)\<lparr>p_priority := 3\<rparr>]"
  have valid: "valid_table ?ps"
    using crowd_valid by (rule valid_table_update) (simp add: priority_valid_iff)
  have five: "(5::nat) < NPROC" "(7::nat) < NPROC" by (simp_all add: NPROC_def)
  have nth: "?ps ! k = (if k = 5 then zero_proc\<lparr>p_state := RUNNABLE, p_priority := 3\<rparr>
      else zero_proc\<lparr>p_state := RUNNABLE, p_priority := 31\<rparr>)" if "k < NPROC" for k
    using that five by (simp add: nth_list_update crowd_nth crowd_def)
  obtain j where j: "scheduler_round ?ps 7 = (Run j, snd (scheduler_round ?ps 7))"
  proof (cases rule: round_cases [OF valid, of 7])
    case 1
    have "?ps ! 5 \<in> set ?ps" by (rule nth_mem) (simp add: crowd_def five)
    with 1 nth [OF five(1)] show ?thesis by auto
  qed (auto intro: that)
  note best = round_picks_best [OF valid five(2) j]
  have prio: "p_priority (snd (scheduler_round ?ps 7) ! k) = (if k = 5 then 3 else 31)"
    if "k < NPROC" for k
  proof (cases "k = j")
    case True
    with best nth [OF that] show ?thesis
      by (auto simp: apply_aging_def AGING_INTERVAL_def zero_proc_def)
  next
    case False
    with best that nth [OF that] show ?thesis
      by (auto simp: scan_proc_def apply_aging_def AGING_INTERVAL_def zero_proc_def)
  qed
  have "j = 5"
  proof (rule ccontr)
    assume "j \<noteq> 5"
    with best five(1) nth [OF five(1)] prio [OF five(1)] prio [of j] show False by auto
  qed
  with j have "fst (scheduler_round ?ps 7) = Run 5" by (metis fst_conv)
  with prio [of 6] prio [OF five(1)] show ?thesis by (simp add: NPROC_def)
qed

text \<open>
  C8: the scheduler is work-conserving. It waits for an interrupt exactly when no
  process is runnable, otherwise it switches to a process; with the scans
  undisturbed by another CPU it never has to retry.
\<close>

theorem round_idle_iff:
  assumes "valid_table ps"
  shows "(fst (scheduler_round ps n) = Wfi \<longleftrightarrow> (\<forall>p \<in> set ps. \<not> runnable p)) \<and>
    fst (scheduler_round ps n) \<noteq> Retry \<and> valid_table (snd (scheduler_round ps n))"
  using assms
proof (cases rule: round_cases [of ps n])
  case wfi
  with round_valid [OF assms, of n] show ?thesis by simp
next
  case (run j)
  have "ps ! j \<in> set ps" using run(2) valid_table_length [OF assms] by simp
  with run round_valid [OF assms, of n] show ?thesis by auto
qed

theorem round_idle_iff_witness:
  "fst (scheduler_round (replicate NPROC zero_proc) 0) = Wfi \<and>
   fst (scheduler_round crowd 0) \<noteq> Wfi"
proof -
  have "valid_table (replicate NPROC zero_proc)"
    by (auto simp: valid_table_def zero_proc_def priority_valid_iff)
  from round_idle_iff [OF this, of 0] round_idle_iff [OF crowd_valid, of 0] show ?thesis
    by (auto simp: zero_proc_def crowd_def)
qed



end
