(* ===== verification/ProcOps.thy ===== *)
theory ProcOps
  imports Sched
begin

text \<open>
  The operations of \<open>kernel/proc.c\<close> that work on the process table alone: the
  slot part of \<open>allocproc\<close>, \<open>sleep_prepare\<close>, \<open>sleep\<close>, \<open>wakeup\<close>,
  \<open>ksetpriority\<close>, \<open>kgetpriority\<close>, \<open>kkill\<close>, \<open>setkilled\<close>, \<open>killed\<close>,
  \<open>reparent\<close> and the zombie scan of \<open>kwait\<close>. \<open>cur\<close> is the index of
  \<open>myproc()\<close>. The table invariant says that the processes in use have
  distinct positive pids below \<open>nextpid\<close>.
\<close>

section \<open>The code\<close>

text \<open>
  \<open>procinit\<close>: every slot is unused and has the default priority. \<open>KSTACK(i)\<close>
  is the parameter \<open>kstack\<close>, which theory \<open>Riscv\<close> defines.
\<close>

definition procinit :: "(nat \<Rightarrow> u64) \<Rightarrow> ptable \<Rightarrow> ptable" where
  "procinit kstack ps =
     map (\<lambda>(i, p). p\<lparr>p_state := UNUSED, p_priority := PRIORITY_DEFAULT,
            p_wait_ticks := 0, p_kstack := kstack i\<rparr>)
       (enumerate 0 ps)"

definition allocpid :: "int \<Rightarrow> int \<times> int" where
  "allocpid nextpid = (let pid = nextpid in (pid, nextpid + 1))"

text \<open>
  The scan of \<open>allocproc\<close> and the assignments at \<open>found:\<close> up to the first
  \<open>kalloc\<close>: the claimed index, the table and the new \<open>nextpid\<close>, or \<^const>\<open>None\<close>
  when every slot is taken.
\<close>

definition allocproc_claim :: "ptable \<Rightarrow> int \<Rightarrow> (nat \<times> ptable \<times> int) option" where
  "allocproc_claim ps nextpid =
     (case scan_idx (\<lambda>p. p_state p = UNUSED) ps of
        None \<Rightarrow> None
      | Some i \<Rightarrow>
          (case allocpid nextpid of (pid, nextpid') \<Rightarrow>
             Some (i, ps[i := (ps ! i)\<lparr>p_pid := pid, p_state := USED,
                         p_priority := PRIORITY_DEFAULT, p_wait_ticks := 0\<rparr>], nextpid')))"

text \<open>The fields that \<open>freeproc\<close> resets once the memory is freed.\<close>

definition freeproc_reset :: "proc \<Rightarrow> proc" where
  "freeproc_reset p = p\<lparr>p_trapframe := 0, p_pagetable := 0, p_sz := 0, p_pid := 0,
     p_name := (p_name p)[0 := 0], p_chan := None, p_killed := 0, p_xstate := 0,
     p_priority := PRIORITY_DEFAULT, p_wait_ticks := 0, p_state := UNUSED\<rparr>"

definition sleep_prepare :: "nat \<Rightarrow> kaddr option \<Rightarrow> (ptable, unit) kop" where
  "sleep_prepare cur chan ps =
     (if chan = None then Panic ''sleep_prepare: zero chan''
      else Ret () (ps[cur := (ps ! cur)\<lparr>p_chan := chan\<rparr>]))"

definition sleep :: "nat \<Rightarrow> (ptable, unit) kop" where
  "sleep cur ps =
     (if p_chan (ps ! cur) \<noteq> None
      then Sleeps (ps[cur := (ps ! cur)\<lparr>p_state := SLEEPING\<rparr>])
      else Ret () ps)"

definition wakeup_proc :: "kaddr option \<Rightarrow> proc \<Rightarrow> proc" where
  "wakeup_proc chan p =
     (if p_chan p = chan
      then p\<lparr>p_chan := None,
             p_state := (if p_state p = SLEEPING then RUNNABLE else p_state p)\<rparr>
      else p)"

definition wakeup :: "kaddr option \<Rightarrow> ptable \<Rightarrow> ptable" where
  "wakeup chan ps = map (wakeup_proc chan) ps"

definition ksetpriority :: "int \<Rightarrow> int \<Rightarrow> ptable \<Rightarrow> int \<times> ptable" where
  "ksetpriority pid priority ps =
     (if pid \<le> 0 \<or> \<not> priority_valid priority then (-1, ps)
      else case scan_idx (\<lambda>p. p_state p \<noteq> UNUSED \<and> p_pid p = pid) ps of
             Some i \<Rightarrow> (0, ps[i := (ps ! i)\<lparr>p_priority := priority, p_wait_ticks := 0\<rparr>])
           | None \<Rightarrow> (-1, ps))"

definition kgetpriority :: "int \<Rightarrow> ptable \<Rightarrow> int" where
  "kgetpriority pid ps =
     (if pid \<le> 0 then -1
      else case scan_idx (\<lambda>p. p_state p \<noteq> UNUSED \<and> p_pid p = pid) ps of
             Some i \<Rightarrow> p_priority (ps ! i)
           | None \<Rightarrow> -1)"

definition kkill :: "int \<Rightarrow> ptable \<Rightarrow> int \<times> ptable" where
  "kkill pid ps =
     (case scan_idx (\<lambda>p. p_pid p = pid) ps of
        Some i \<Rightarrow>
          (0, ps[i := (ps ! i)\<lparr>p_killed := 1,
                 p_state := (if p_state (ps ! i) = SLEEPING then RUNNABLE else p_state (ps ! i))\<rparr>])
      | None \<Rightarrow> (-1, ps))"

definition setkilled :: "nat \<Rightarrow> ptable \<Rightarrow> ptable" where
  "setkilled i ps = ps[i := (ps ! i)\<lparr>p_killed := 1\<rparr>]"

definition killed :: "nat \<Rightarrow> ptable \<Rightarrow> int" where
  "killed i ps = p_killed (ps ! i)"

text \<open>
  \<open>reparent(p)\<close> is a loop whose body both changes a parent pointer and wakes
  \<open>initproc\<close>.
\<close>

fun reparent_loop :: "nat \<Rightarrow> nat option \<Rightarrow> nat list \<Rightarrow> ptable \<Rightarrow> ptable" where
  "reparent_loop p initproc [] ps = ps"
| "reparent_loop p initproc (k # ks) ps =
     (if p_parent (ps ! k) = Some p
      then reparent_loop p initproc ks
             (wakeup (map_option AddrProc initproc) (ps[k := (ps ! k)\<lparr>p_parent := initproc\<rparr>]))
      else reparent_loop p initproc ks ps)"

definition reparent :: "nat \<Rightarrow> nat option \<Rightarrow> ptable \<Rightarrow> ptable" where
  "reparent p initproc ps = reparent_loop p initproc [0..<NPROC] ps"

text \<open>
  The part of \<open>kexit\<close> under \<open>wait_lock\<close>: children go to \<open>init\<close>, the parent
  is woken, the process becomes a zombie.
\<close>

definition exit_zombie :: "nat \<Rightarrow> nat option \<Rightarrow> int \<Rightarrow> ptable \<Rightarrow> ptable" where
  "exit_zombie cur initproc status ps =
     (let ps1 = reparent cur initproc ps;
          ps2 = wakeup (map_option AddrProc (p_parent (ps1 ! cur))) ps1
      in ps2[cur := (ps2 ! cur)\<lparr>p_xstate := status, p_state := ZOMBIE\<rparr>])"

text \<open>
  What other processes and CPUs may do to the table between two steps of one
  process, one lock-protected update at a time.
\<close>

datatype table_event =
    EvWakeup "kaddr option"
  | EvKill int
  | EvSetKilled nat
  | EvSetPriority int int
  | EvPrepare nat kaddr
  | EvScan nat

definition table_event :: "table_event \<Rightarrow> ptable \<Rightarrow> ptable" where
  "table_event ev ps = (case ev of
     EvWakeup c \<Rightarrow> wakeup c ps
   | EvKill pid \<Rightarrow> snd (kkill pid ps)
   | EvSetKilled i \<Rightarrow> setkilled i ps
   | EvSetPriority pid pr \<Rightarrow> snd (ksetpriority pid pr ps)
   | EvPrepare i c \<Rightarrow> ps[i := (ps ! i)\<lparr>p_chan := Some c\<rparr>]
   | EvScan i \<Rightarrow> ps[i := age_tick (ps ! i)])"

section \<open>The table invariant\<close>

definition pids_ok :: "int \<Rightarrow> ptable \<Rightarrow> bool" where
  "pids_ok nextpid ps \<longleftrightarrow> 0 < nextpid \<and>
     (\<forall>p \<in> set ps. if p_state p = UNUSED then p_pid p = 0 else 0 < p_pid p \<and> p_pid p < nextpid) \<and>
     (\<forall>i < length ps. \<forall>j < length ps. p_state (ps ! i) \<noteq> UNUSED \<longrightarrow>
        p_pid (ps ! i) = p_pid (ps ! j) \<longrightarrow> i = j)"

lemma pids_okI:
  assumes "0 < nextpid"
    and "\<And>i. i < length ps \<Longrightarrow> p_state (ps ! i) = UNUSED \<Longrightarrow> p_pid (ps ! i) = 0"
    and "\<And>i. i < length ps \<Longrightarrow> p_state (ps ! i) \<noteq> UNUSED \<Longrightarrow> 0 < p_pid (ps ! i) \<and> p_pid (ps ! i) < nextpid"
    and "\<And>i j. i < length ps \<Longrightarrow> j < length ps \<Longrightarrow> p_state (ps ! i) \<noteq> UNUSED \<Longrightarrow>
      p_pid (ps ! i) = p_pid (ps ! j) \<Longrightarrow> i = j"
  shows "pids_ok nextpid ps"
  unfolding pids_ok_def using assms by (auto simp: in_set_conv_nth)

lemma pids_okD:
  assumes "pids_ok nextpid ps"
  shows "0 < nextpid"
    and "i < length ps \<Longrightarrow> p_state (ps ! i) = UNUSED \<Longrightarrow> p_pid (ps ! i) = 0"
    and "i < length ps \<Longrightarrow> p_state (ps ! i) \<noteq> UNUSED \<Longrightarrow> 0 < p_pid (ps ! i)"
    and "i < length ps \<Longrightarrow> p_state (ps ! i) \<noteq> UNUSED \<Longrightarrow> p_pid (ps ! i) < nextpid"
    and "i < length ps \<Longrightarrow> j < length ps \<Longrightarrow> p_state (ps ! i) \<noteq> UNUSED \<Longrightarrow>
      p_pid (ps ! i) = p_pid (ps ! j) \<Longrightarrow> i = j"
  using assms nth_mem [of i ps] unfolding pids_ok_def by (auto split: if_splits)

text \<open>
  An operation that leaves every pid alone, and neither frees nor claims a slot,
  keeps the invariant.
\<close>

definition same_slots :: "ptable \<Rightarrow> ptable \<Rightarrow> bool" where
  "same_slots ps qs \<longleftrightarrow> length qs = length ps \<and>
     (\<forall>i < length ps. p_pid (qs ! i) = p_pid (ps ! i) \<and>
        (p_state (qs ! i) = UNUSED \<longleftrightarrow> p_state (ps ! i) = UNUSED))"

lemma same_slots_refl [simp]: "same_slots ps ps"
  by (simp add: same_slots_def)

lemma same_slots_trans: "same_slots ps qs \<Longrightarrow> same_slots qs rs \<Longrightarrow> same_slots ps rs"
  by (simp add: same_slots_def)

lemma same_slots_update:
  assumes "p_pid q = p_pid (ps ! i)" and "p_state q = UNUSED \<longleftrightarrow> p_state (ps ! i) = UNUSED"
  shows "same_slots ps (ps[i := q])"
  using assms by (auto simp: same_slots_def nth_update_if)

lemma same_slots_map:
  assumes "\<And>p. p_pid (f p) = p_pid p" and "\<And>p. p_state (f p) = UNUSED \<longleftrightarrow> p_state p = UNUSED"
  shows "same_slots ps (map f ps)"
  using assms by (simp add: same_slots_def)

lemma pids_ok_same_slots:
  assumes "pids_ok nextpid ps" and "same_slots ps qs"
  shows "pids_ok nextpid qs"
proof (rule pids_okI)
  note slot = assms(2) [unfolded same_slots_def]
  show "0 < nextpid" by (rule pids_okD(1) [OF assms(1)])
  show "p_pid (qs ! i) = 0" if "i < length qs" "p_state (qs ! i) = UNUSED" for i
    using pids_okD(2) [OF assms(1), of i] slot that by auto
  show "0 < p_pid (qs ! i) \<and> p_pid (qs ! i) < nextpid"
    if "i < length qs" "p_state (qs ! i) \<noteq> UNUSED" for i
    using pids_okD(3,4) [OF assms(1), of i] slot that by auto
  show "i = j" if "i < length qs" "j < length qs" "p_state (qs ! i) \<noteq> UNUSED"
    "p_pid (qs ! i) = p_pid (qs ! j)" for i j
    using pids_okD(5) [OF assms(1), of i j] slot that by auto
qed

lemma wakeup_proc_simps [simp]:
  "p_pid (wakeup_proc c p) = p_pid p" "p_parent (wakeup_proc c p) = p_parent p"
  "p_priority (wakeup_proc c p) = p_priority p" "p_killed (wakeup_proc c p) = p_killed p"
  "p_xstate (wakeup_proc c p) = p_xstate p" "p_wait_ticks (wakeup_proc c p) = p_wait_ticks p"
  "p_state (wakeup_proc c p) = UNUSED \<longleftrightarrow> p_state p = UNUSED"
  "p_state (wakeup_proc c p) = ZOMBIE \<longleftrightarrow> p_state p = ZOMBIE"
  "p_state (wakeup_proc c p) = RUNNING \<longleftrightarrow> p_state p = RUNNING"
  by (auto simp: wakeup_proc_def)

lemma length_wakeup [simp]: "length (wakeup c ps) = length ps"
  by (simp add: wakeup_def)

lemma nth_wakeup [simp]: "i < length ps \<Longrightarrow> wakeup c ps ! i = wakeup_proc c (ps ! i)"
  by (simp add: wakeup_def)

lemma same_slots_wakeup: "same_slots ps (wakeup c ps)"
  unfolding wakeup_def by (rule same_slots_map) simp_all

lemma same_slots_age: "same_slots ps (map age_tick ps)"
  by (rule same_slots_map) simp_all

lemma same_slots_ksetpriority: "same_slots ps (snd (ksetpriority pid pr ps))"
  by (auto simp: ksetpriority_def intro!: same_slots_update split: option.split)

lemma same_slots_kkill: "same_slots ps (snd (kkill pid ps))"
  by (auto simp: kkill_def intro!: same_slots_update split: option.split)

lemma length_reparent_loop [simp]: "length (reparent_loop p q ks ps) = length ps"
  by (induction p q ks ps rule: reparent_loop.induct) simp_all

lemma same_slots_reparent_loop: "same_slots ps (reparent_loop p q ks ps)"
proof (induction p q ks ps rule: reparent_loop.induct)
  case (2 p q k ks ps)
  show ?case
  proof (cases "p_parent (ps ! k) = Some p")
    case True
    let ?qs = "ps[k := (ps ! k)\<lparr>p_parent := q\<rparr>]"
    have "same_slots ps ?qs" by (rule same_slots_update) simp_all
    also note same_slots_wakeup [of ?qs]
    finally (same_slots_trans) show ?thesis
      using True 2(1) by (auto intro: same_slots_trans)
  next
    case False
    with 2(2) show ?thesis by simp
  qed
qed simp

lemma same_slots_exit: 
  assumes "cur < length ps" and "p_state (ps ! cur) \<noteq> UNUSED"
  shows "same_slots ps (exit_zombie cur initproc status ps)"
proof -
  let ?ps1 = "reparent cur initproc ps"
  let ?ps2 = "wakeup (map_option AddrProc (p_parent (?ps1 ! cur))) ?ps1"
  have one: "same_slots ps ?ps2"
    unfolding reparent_def
    by (rule same_slots_trans [OF same_slots_reparent_loop same_slots_wakeup])
  then have "p_state (?ps2 ! cur) \<noteq> UNUSED"
    using assms by (auto simp: same_slots_def)
  then have "same_slots ?ps2 (?ps2[cur := (?ps2 ! cur)\<lparr>p_xstate := status, p_state := ZOMBIE\<rparr>])"
    by (intro same_slots_update) simp_all
  with one show ?thesis
    unfolding exit_zombie_def Let_def by (rule same_slots_trans)
qed

lemma pids_ok_claim:
  assumes "pids_ok nextpid ps" and i: "i < length ps" "p_state (ps ! i) = UNUSED"
    and qs: "qs = ps[i := (ps ! i)\<lparr>p_pid := nextpid, p_state := USED,
        p_priority := PRIORITY_DEFAULT, p_wait_ticks := 0\<rparr>]"
  shows "pids_ok (nextpid + 1) qs"
proof (rule pids_okI)
  note ok = pids_okD [OF assms(1)]
  show "0 < nextpid + 1" using ok(1) by simp
  show "p_pid (qs ! k) = 0" if "k < length qs" "p_state (qs ! k) = UNUSED" for k
    using that ok(2) [of k] i by (auto simp: qs nth_update_if split: if_splits)
  show "0 < p_pid (qs ! k) \<and> p_pid (qs ! k) < nextpid + 1"
    if "k < length qs" "p_state (qs ! k) \<noteq> UNUSED" for k
    using that ok(1) ok(3,4) [of k] i by (auto simp: qs nth_update_if split: if_splits)
  show "k = m" if "k < length qs" "m < length qs" "p_state (qs ! k) \<noteq> UNUSED"
    "p_pid (qs ! k) = p_pid (qs ! m)" for k m
  proof -
    have fresh: "p_pid (ps ! k) \<noteq> nextpid" if "k < length ps" for k
      using that ok(1) ok(2,4) [of k] by (cases "p_state (ps ! k) = UNUSED") auto
    show ?thesis
      using that ok(5) [of k m] fresh [of k] fresh [of m] i
      by (auto simp: qs nth_update_if split: if_splits)
  qed
qed

lemma allocproc_claimD:
  assumes "allocproc_claim ps nextpid = Some (i, qs, n)"
  shows "i < length ps" and "p_state (ps ! i) = UNUSED" and "n = nextpid + 1"
    and "qs = ps[i := (ps ! i)\<lparr>p_pid := nextpid, p_state := USED,
        p_priority := PRIORITY_DEFAULT, p_wait_ticks := 0\<rparr>]"
  using assms by (auto simp: allocproc_claim_def allocpid_def scan_idx_Some split: option.splits)

lemma pids_ok_free:
  assumes "pids_ok nextpid ps"
  shows "pids_ok nextpid (ps[i := freeproc_reset (ps ! i)])"
proof (rule pids_okI)
  note ok = pids_okD [OF assms]
  let ?qs = "ps[i := freeproc_reset (ps ! i)]"
  show "0 < nextpid" by (rule ok(1))
  show "p_pid (?qs ! k) = 0" if "k < length ?qs" "p_state (?qs ! k) = UNUSED" for k
    using that ok(2) [of k] by (auto simp: nth_update_if freeproc_reset_def split: if_splits)
  show "0 < p_pid (?qs ! k) \<and> p_pid (?qs ! k) < nextpid"
    if "k < length ?qs" "p_state (?qs ! k) \<noteq> UNUSED" for k
    using that ok(3,4) [of k] by (auto simp: nth_update_if freeproc_reset_def split: if_splits)
  show "k = m" if "k < length ?qs" "m < length ?qs" "p_state (?qs ! k) \<noteq> UNUSED"
    "p_pid (?qs ! k) = p_pid (?qs ! m)" for k m
    using that ok(3) [of k] ok(5) [of k m]
    by (auto simp: nth_update_if freeproc_reset_def split: if_splits)
qed

section \<open>Priority system calls\<close>

text \<open>The slot of a live process is the one a scan for its pid finds.\<close>

lemma scan_pid:
  assumes "pids_ok nextpid ps" and "i < length ps" and "p_state (ps ! i) \<noteq> UNUSED"
  shows "scan_idx (\<lambda>p. p_state p \<noteq> UNUSED \<and> p_pid p = p_pid (ps ! i)) ps = Some i"
proof (rule scan_idx_unique)
  show "i < length ps" by (rule assms(2))
  show "p_state (ps ! i) \<noteq> UNUSED \<and> p_pid (ps ! i) = p_pid (ps ! i)" using assms(3) by simp
  show "j = i" if "j < length ps" "p_state (ps ! j) \<noteq> UNUSED \<and> p_pid (ps ! j) = p_pid (ps ! i)" for j
    using pids_okD(5) [OF assms(1) that(1) assms(2)] that(2) by blast
qed

lemma ksetpriority_hit:
  assumes "pids_ok nextpid ps" and "i < length ps" and "p_state (ps ! i) \<noteq> UNUSED"
    and "priority_valid pr"
  shows "ksetpriority (p_pid (ps ! i)) pr ps =
    (0, ps[i := (ps ! i)\<lparr>p_priority := pr, p_wait_ticks := 0\<rparr>])"
  using scan_pid [OF assms(1-3)] pids_okD(3) [OF assms(1-3)] assms(4)
  by (simp add: ksetpriority_def)

lemma kgetpriority_hit:
  assumes "pids_ok nextpid ps" and "i < length ps" and "p_state (ps ! i) \<noteq> UNUSED"
  shows "kgetpriority (p_pid (ps ! i)) ps = p_priority (ps ! i)"
  using scan_pid [OF assms] pids_okD(3) [OF assms] by (simp add: kgetpriority_def)

lemma kgetpriority_miss:
  assumes "\<forall>p \<in> set ps. p_state p \<noteq> UNUSED \<longrightarrow> p_pid p \<noteq> pid"
  shows "kgetpriority pid ps = -1"
proof -
  have "scan_idx (\<lambda>p. p_state p \<noteq> UNUSED \<and> p_pid p = pid) ps = None"
    using assms by (auto simp: scan_idx_None)
  then show ?thesis by (simp add: kgetpriority_def)
qed

text \<open>What \<open>kgetpriority\<close> answers depends only on pid, state and priority of the entries.\<close>

lemma kgetpriority_other:
  assumes ok: "pids_ok nextpid ps" and i: "i < length ps" "p_state (ps ! i) \<noteq> UNUSED"
    and pid: "pid \<noteq> p_pid (ps ! i)"
  shows "kgetpriority pid (ps[i := (ps ! i)\<lparr>p_priority := pr, p_wait_ticks := 0\<rparr>]) =
    kgetpriority pid ps"
proof -
  let ?qs = "ps[i := (ps ! i)\<lparr>p_priority := pr, p_wait_ticks := 0\<rparr>]"
  have ok': "pids_ok nextpid ?qs"
    by (rule pids_ok_same_slots [OF ok same_slots_update]) simp_all
  show ?thesis
  proof (cases "\<exists>j < length ps. p_state (ps ! j) \<noteq> UNUSED \<and> p_pid (ps ! j) = pid")
    case True
    then obtain j where j: "j < length ps" "p_state (ps ! j) \<noteq> UNUSED" "p_pid (ps ! j) = pid" by blast
    with pid have "j \<noteq> i" by auto
    then have "?qs ! j = ps ! j" by simp
    with kgetpriority_hit [OF ok j(1,2)] kgetpriority_hit [OF ok', of j] j show ?thesis by simp
  next
    case False
    then have "\<forall>p \<in> set ps. p_state p \<noteq> UNUSED \<longrightarrow> p_pid p \<noteq> pid"
      by (auto simp: in_set_conv_nth)
    moreover have "\<forall>p \<in> set ?qs. p_state p \<noteq> UNUSED \<longrightarrow> p_pid p \<noteq> pid"
    proof
      fix p assume "p \<in> set ?qs"
      then obtain j where j: "j < length ps" "p = ?qs ! j" by (auto simp: in_set_conv_nth)
      show "p_state p \<noteq> UNUSED \<longrightarrow> p_pid p \<noteq> pid"
        using False pid j by (cases "j = i") auto
    qed
    ultimately show ?thesis by (simp add: kgetpriority_miss)
  qed
qed

text \<open>A small table with three live processes, for the witnesses.\<close>

definition live_proc :: "int \<Rightarrow> procstate \<Rightarrow> proc" where
  "live_proc pid st = zero_proc\<lparr>p_pid := pid, p_state := st, p_priority := 10\<rparr>"

definition demo_table :: ptable where
  "demo_table = [live_proc 1 SLEEPING, live_proc 2 RUNNING, live_proc 3 RUNNABLE] @
     replicate 61 (zero_proc\<lparr>p_priority := 10\<rparr>)"

lemma demo_length [simp]: "length demo_table = 64"
  by (simp add: demo_table_def)

lemma demo_nth:
  "demo_table ! 0 = live_proc 1 SLEEPING" "demo_table ! 1 = live_proc 2 RUNNING"
  "demo_table ! 2 = live_proc 3 RUNNABLE"
  "3 \<le> i \<Longrightarrow> i < 64 \<Longrightarrow> demo_table ! i = zero_proc\<lparr>p_priority := 10\<rparr>"
  by (simp_all add: demo_table_def nth_append nth_Cons')

lemma demo_pids_ok: "pids_ok 4 demo_table"
proof -
  have eq: "demo_table ! i = (if i = 0 then live_proc 1 SLEEPING else if i = 1 then live_proc 2 RUNNING
      else if i = 2 then live_proc 3 RUNNABLE else zero_proc\<lparr>p_priority := 10\<rparr>)" if "i < 64" for i
  proof (cases "3 \<le> i")
    case True then show ?thesis using that demo_nth(4) [of i] by simp
  next
    case False
    then have "i = 0 \<or> i = 1 \<or> i = 2" by auto
    then show ?thesis by (auto simp: demo_nth(1-3) demo_nth(2) [unfolded One_nat_def])
  qed
  show ?thesis
    by (rule pids_okI) (auto simp: eq live_proc_def zero_proc_def split: if_splits)
qed

text \<open>
  C6: \<open>setpriority\<close> and \<open>getpriority\<close> round trip. On a table whose pids are
  consistent, \<open>ksetpriority\<close> succeeds exactly for a valid priority and the pid of
  a process in use; then \<open>kgetpriority\<close> returns that priority for the pid and its
  old answer for every other pid. In every other case it returns -1 and the table
  is unchanged.
\<close>

theorem set_get_priority:
  assumes "pids_ok nextpid ps"
  shows "case ksetpriority pid pr ps of (r, qs) \<Rightarrow>
    if priority_valid pr \<and> (\<exists>p \<in> set ps. p_state p \<noteq> UNUSED \<and> p_pid p = pid)
    then r = 0 \<and> kgetpriority pid qs = pr \<and>
      (\<forall>pid'. pid' \<noteq> pid \<longrightarrow> kgetpriority pid' qs = kgetpriority pid' ps)
    else r = -1 \<and> qs = ps"
proof (cases "priority_valid pr \<and> (\<exists>p \<in> set ps. p_state p \<noteq> UNUSED \<and> p_pid p = pid)")
  case True
  then obtain i where i: "i < length ps" "p_state (ps ! i) \<noteq> UNUSED" and pid: "pid = p_pid (ps ! i)"
    by (auto simp: in_set_conv_nth)
  let ?qs = "ps[i := (ps ! i)\<lparr>p_priority := pr, p_wait_ticks := 0\<rparr>]"
  have ok': "pids_ok nextpid ?qs"
    by (rule pids_ok_same_slots [OF assms same_slots_update]) simp_all
  have set: "ksetpriority pid pr ps = (0, ?qs)"
    using ksetpriority_hit [OF assms i] True pid by simp
  have "kgetpriority pid ?qs = pr"
    using kgetpriority_hit [OF ok', of i] i pid by simp
  moreover have "\<forall>pid'. pid' \<noteq> pid \<longrightarrow> kgetpriority pid' ?qs = kgetpriority pid' ps"
    using kgetpriority_other [OF assms i] pid by blast
  ultimately show ?thesis using True by (simp add: set)
next
  case False
  have "ksetpriority pid pr ps = (-1, ps)"
  proof (cases "priority_valid pr")
    case True
    with False have "scan_idx (\<lambda>p. p_state p \<noteq> UNUSED \<and> p_pid p = pid) ps = None"
      by (auto simp: scan_idx_None)
    then show ?thesis by (simp add: ksetpriority_def)
  qed (simp add: ksetpriority_def)
  with False show ?thesis by auto
qed

theorem set_get_priority_witness:
  "pids_ok 4 demo_table \<and>
   fst (ksetpriority 3 5 demo_table) = 0 \<and>
   kgetpriority 3 (snd (ksetpriority 3 5 demo_table)) = 5"
proof -
  have "live_proc 3 RUNNABLE \<in> set demo_table" by (simp add: demo_table_def)
  then have "\<exists>p \<in> set demo_table. p_state p \<noteq> UNUSED \<and> p_pid p = 3"
    by (rule bexI [rotated]) (simp add: live_proc_def)
  moreover have "priority_valid 5" by (simp add: priority_valid_iff)
  ultimately show ?thesis
    using set_get_priority [OF demo_pids_ok, where pid = 3 and pr = 5] demo_pids_ok by (auto split: prod.splits)
qed

section \<open>Killing\<close>

lemma scan_unused_pid0:
  assumes "pids_ok nextpid ps"
  shows "scan_idx (\<lambda>p. p_pid p = 0) ps = scan_idx (\<lambda>p. p_state p = UNUSED) ps"
proof (rule scan_idx_cong)
  fix p assume "p \<in> set ps"
  then show "p_pid p = 0 \<longleftrightarrow> p_state p = UNUSED"
    using assms by (auto simp: pids_ok_def split: if_splits)
qed

text \<open>
  C10: \<open>kill(0)\<close> is not rejected. Unused slots carry pid 0 and \<open>kkill\<close>, unlike
  \<open>ksetpriority\<close>, does not look at the state: while a slot is free it reports
  success, and the slot it marks as killed is the one the next \<open>allocproc\<close>
  claims, which does not clear the mark. The next process to be created is thus
  killed at birth.
\<close>

theorem kill_zero_marks_next_process:
  assumes "pids_ok nextpid ps" and "\<exists>p \<in> set ps. p_state p = UNUSED"
  shows "case kkill 0 ps of (r, qs) \<Rightarrow> r = 0 \<and>
    (\<exists>i rs. allocproc_claim qs nextpid = Some (i, rs, nextpid + 1) \<and>
       p_state (rs ! i) = USED \<and> p_pid (rs ! i) = nextpid \<and> killed i rs = 1)"
proof -
  from assms(2) obtain i where i: "scan_idx (\<lambda>p. p_state p = UNUSED) ps = Some i"
    by (cases "scan_idx (\<lambda>p. p_state p = UNUSED) ps") (auto simp: scan_idx_None)
  then have unused: "i < length ps" "p_state (ps ! i) = UNUSED" by (auto simp: scan_idx_Some)
  let ?qs = "ps[i := (ps ! i)\<lparr>p_killed := 1, p_state := UNUSED\<rparr>]"
  have kill: "kkill 0 ps = (0, ?qs)"
    using i unused scan_unused_pid0 [OF assms(1)] by (simp add: kkill_def)
  have "scan_idx (\<lambda>p. p_state p = UNUSED) ?qs = Some i"
    using i by (auto simp: scan_idx_Some nth_update_if)
  then have "allocproc_claim ?qs nextpid = Some (i, ?qs[i := (?qs ! i)\<lparr>p_pid := nextpid,
      p_state := USED, p_priority := PRIORITY_DEFAULT, p_wait_ticks := 0\<rparr>], nextpid + 1)"
    by (simp add: allocproc_claim_def allocpid_def)
  with unused show ?thesis by (simp add: kill killed_def)
qed

theorem kill_zero_marks_next_process_witness:
  "fst (kkill 0 demo_table) = 0 \<and>
   (\<exists>i rs. allocproc_claim (snd (kkill 0 demo_table)) 4 = Some (i, rs, 5) \<and> killed i rs = 1)"
proof -
  have "zero_proc\<lparr>p_priority := 10\<rparr> \<in> set demo_table" by (simp add: demo_table_def)
  then have "\<exists>p \<in> set demo_table. p_state p = UNUSED"
    by (rule bexI [rotated]) (simp add: zero_proc_def)
  from kill_zero_marks_next_process [OF demo_pids_ok this] show ?thesis
    by (auto split: prod.splits)
qed

section \<open>Sleeping and waking\<close>

definition table_events :: "table_event list \<Rightarrow> ptable \<Rightarrow> ptable" where
  "table_events evs ps = fold table_event evs ps"

lemma table_events_simps [simp]:
  "table_events [] ps = ps" "table_events (ev # evs) ps = table_events evs (table_event ev ps)"
  by (simp_all add: table_events_def)

lemma length_table_event [simp]: "length (table_event ev ps) = length ps"
  by (cases ev) (simp_all add: table_event_def kkill_def setkilled_def ksetpriority_def split: option.split)

lemma table_event_chan:
  assumes "cur < length ps" and "\<forall>c. ev \<noteq> EvPrepare cur c"
  shows "p_chan (table_event ev ps ! cur) =
    (if ev = EvWakeup (p_chan (ps ! cur)) then None else p_chan (ps ! cur))"
  using assms
  by (cases ev) (auto simp: table_event_def kkill_def setkilled_def ksetpriority_def wakeup_proc_def
      nth_update_if split: option.split if_splits)

lemma table_events_chan:
  assumes "cur < length ps" and "\<forall>c. EvPrepare cur c \<notin> set evs" and "p_chan (ps ! cur) = Some chan"
  shows "p_chan (table_events evs ps ! cur) =
    (if EvWakeup (Some chan) \<in> set evs then None else Some chan)"
proof -
  have None: "p_chan (table_events evs qs ! cur) = None"
    if "cur < length qs" "\<forall>c. EvPrepare cur c \<notin> set evs" "p_chan (qs ! cur) = None" for evs qs
    using that
  proof (induction evs arbitrary: qs)
    case (Cons ev evs)
    have "\<forall>c. ev \<noteq> EvPrepare cur c" using Cons.prems(2) by auto
    then have "p_chan (table_event ev qs ! cur) = None"
      using Cons.prems by (simp add: table_event_chan)
    with Cons show ?case by simp
  qed simp
  from assms show ?thesis
  proof (induction evs arbitrary: ps)
    case Nil then show ?case by simp
  next
    case (Cons ev evs)
    have c: "p_chan (table_event ev ps ! cur) = (if ev = EvWakeup (Some chan) then None else Some chan)"
    proof -
      have "\<forall>c. ev \<noteq> EvPrepare cur c" using Cons.prems(2) by auto
      then show ?thesis using Cons.prems by (simp add: table_event_chan)
    qed
    show ?case
    proof (cases "ev = EvWakeup (Some chan)")
      case True
      with c None [of "table_event ev ps" evs] Cons.prems show ?thesis by simp
    next
      case False
      with c Cons.IH [of "table_event ev ps"] Cons.prems show ?thesis by auto
    qed
  qed
qed

lemma length_table_events [simp]: "length (table_events evs ps) = length ps"
  by (induction evs arbitrary: ps) simp_all

text \<open>
  C4: no wakeup is lost between \<open>sleep_prepare\<close> and \<open>sleep\<close>. A process
  registers on a channel and later calls \<open>sleep\<close>; in between, other CPUs run
  any sequence of wakeups, kills, priority changes, scheduler scans and registrations of
  other processes. If one of them was a wakeup of the channel, \<open>sleep\<close> returns at
  once; otherwise the process is asleep on its channel, and the next wakeup of the
  channel makes it runnable.
\<close>

theorem no_lost_wakeup:
  assumes "cur < length ps" and "\<forall>c. EvPrepare cur c \<notin> set evs"
  shows "case sleep_prepare cur (Some chan) ps of
      Ret u ps1 \<Rightarrow>
        (let ps2 = table_events evs ps1 in
         if EvWakeup (Some chan) \<in> set evs then sleep cur ps2 = Ret () ps2
         else \<exists>ps3. sleep cur ps2 = Sleeps ps3 \<and> p_state (ps3 ! cur) = SLEEPING \<and>
                p_chan (ps3 ! cur) = Some chan \<and>
                p_state (wakeup (Some chan) ps3 ! cur) = RUNNABLE)
    | _ \<Rightarrow> False"
proof -
  let ?ps1 = "ps[cur := (ps ! cur)\<lparr>p_chan := Some chan\<rparr>]"
  have "p_chan (table_events evs ?ps1 ! cur) =
      (if EvWakeup (Some chan) \<in> set evs then None else Some chan)"
    using assms by (intro table_events_chan) simp_all
  with assms(1) show ?thesis
    by (auto simp: sleep_prepare_def sleep_def Let_def wakeup_proc_def)
qed

theorem no_lost_wakeup_witness:
  "case sleep_prepare 1 (Some AddrTicks) demo_table of
     Ret u ps1 \<Rightarrow> sleep 1 (table_events [EvKill 3, EvWakeup (Some AddrTicks), EvScan 2] ps1) =
       Ret () (table_events [EvKill 3, EvWakeup (Some AddrTicks), EvScan 2] ps1)
   | _ \<Rightarrow> False"
  using no_lost_wakeup [of 1 demo_table "[EvKill 3, EvWakeup (Some AddrTicks), EvScan 2]" AddrTicks]
  by (simp add: Let_def split: outcome.splits)

section \<open>Exit\<close>

lemma reparent_loop_parent:
  assumes "distinct ks" and "set ks \<subseteq> {..<length ps}" and "q \<noteq> Some p" and "j < length ps"
  shows "p_parent (reparent_loop p q ks ps ! j) =
    (if j \<in> set ks \<and> p_parent (ps ! j) = Some p then q else p_parent (ps ! j))"
  using assms
proof (induction p q ks ps rule: reparent_loop.induct)
  case (2 p q k ks ps)
  then show ?case
    by (cases "p_parent (ps ! k) = Some p") (auto simp: nth_update_if split: if_splits)
qed simp

text \<open>A process waiting on a channel that the loop never wakes is left alone, and one
  asleep on init's channel is woken once a child is handed over.\<close>

lemma wakeup_proc_runnable:
  "p_state p = RUNNABLE \<Longrightarrow> p_state (wakeup_proc c p) = RUNNABLE"
  by (simp add: wakeup_proc_def)

definition waiting_or_woken :: "kaddr option \<Rightarrow> proc \<Rightarrow> bool" where
  "waiting_or_woken c p \<longleftrightarrow> p_state p = RUNNABLE \<or> p_state p = SLEEPING \<and> p_chan p = c"

lemma waiting_or_woken_wakeup: "waiting_or_woken c p \<Longrightarrow> waiting_or_woken c (wakeup_proc d p)"
  by (auto simp: waiting_or_woken_def wakeup_proc_def)

lemma waiting_or_woken_wakeup_same: "waiting_or_woken c p \<Longrightarrow> p_state (wakeup_proc c p) = RUNNABLE"
  by (auto simp: waiting_or_woken_def wakeup_proc_def)

lemma reparent_loop_waiting:
  assumes "j < length ps" and "waiting_or_woken c (ps ! j)"
  shows "waiting_or_woken c (reparent_loop p q ks ps ! j)"
  using assms
proof (induction p q ks ps rule: reparent_loop.induct)
  case (2 p q k ks ps)
  have "waiting_or_woken c (ps[k := (ps ! k)\<lparr>p_parent := q\<rparr>] ! j)"
    using 2(3,4) by (simp add: nth_update_if waiting_or_woken_def)
  with 2 show ?case
    by (cases "p_parent (ps ! k) = Some p") (simp_all add: waiting_or_woken_wakeup)
qed simp


text \<open>A parent (slot 0) asleep in \<open>wait\<close> and its child (slot 1), which has a child
  of its own (slot 2).\<close>

definition family_table :: ptable where
  "family_table = [(live_proc 1 SLEEPING)\<lparr>p_chan := Some (AddrProc 0)\<rparr>,
      (live_proc 2 RUNNING)\<lparr>p_parent := Some 0\<rparr>, (live_proc 3 RUNNABLE)\<lparr>p_parent := Some 1\<rparr>] @
     replicate 61 (zero_proc\<lparr>p_priority := 10\<rparr>)"


end
