(* ===== verification/Smp.thy ===== *)
theory Smp
  imports ProcOps
begin

text \<open>
  Several CPUs working on the one process table of \<open>kernel/proc.c\<close>. The atomic
  steps are the sections of the code under one \<open>p->lock\<close>: one iteration of the
  scheduler's first loop, one iteration of its second loop, the switch back from
  a process that yields, sleeps or exits, and the single-slot updates that a running
  process makes in \<open>wakeup\<close>, \<open>kkill\<close>, \<open>ksetpriority\<close>, \<open>allocproc\<close>,
  \<open>freeproc\<close> and \<open>kfork\<close>. The invariant says that a process is RUNNING exactly when
  it is the current process of exactly one CPU.
\<close>

section \<open>The machine\<close>

text \<open>
  Where a CPU is in \<open>scheduler()\<close>: about to scan entry \<open>k\<close>, about to look at
  \<open>offset\<close> of the second loop, or switched to a process.
\<close>

datatype sched_pc = AtScan nat | AtSelect nat | Switched nat

record cpu_sched =
  cs_pc :: sched_pc
  cs_best :: int
  cs_found :: bool
  cs_next :: nat
  cs_proc :: "nat option"

record smp =
  sm_tab :: ptable
  sm_nextpid :: int
  sm_cpus :: "cpu_sched list"

text \<open>The head of the \<open>for (;;)\<close> loop.\<close>

definition sched_restart :: "cpu_sched \<Rightarrow> cpu_sched" where
  "sched_restart c = c\<lparr>cs_pc := AtScan 0, cs_best := PRIORITY_MAX + 1, cs_found := False\<rparr>"

text \<open>A scheduler before its first iteration, on the CPU with the given id.\<close>

definition sched_start :: "nat \<Rightarrow> cpu_sched" where
  "sched_start cpuid = \<lparr>cs_pc = AtScan 0, cs_best = PRIORITY_MAX + 1, cs_found = False,
     cs_next = cpuid mod NPROC, cs_proc = None\<rparr>"

definition scan_one :: "nat \<Rightarrow> nat \<Rightarrow> smp \<Rightarrow> smp" where
  "scan_one c k s =
     (let cp = sm_cpus s ! c;
          (p', b, f) = scan_proc (sm_tab s ! k) (cs_best cp) (cs_found cp)
      in s\<lparr>sm_tab := (sm_tab s)[k := p'],
           sm_cpus := (sm_cpus s)[c := cp\<lparr>cs_pc := AtScan (k + 1), cs_best := b, cs_found := f\<rparr>]\<rparr>)"

definition scan_end :: "nat \<Rightarrow> smp \<Rightarrow> smp" where
  "scan_end c s =
     (let cp = sm_cpus s ! c
      in s\<lparr>sm_cpus := (sm_cpus s)[c := if cs_found cp then cp\<lparr>cs_pc := AtSelect 0\<rparr> else sched_restart cp]\<rparr>)"

definition select_one :: "nat \<Rightarrow> nat \<Rightarrow> smp \<Rightarrow> smp" where
  "select_one c offset s =
     (let cp = sm_cpus s ! c;
          index = (cs_next cp + offset) mod NPROC;
          p = sm_tab s ! index
      in if p_state p = RUNNABLE \<and> p_priority p = cs_best cp
         then s\<lparr>sm_tab := dispatch (sm_tab s) index,
                sm_cpus := (sm_cpus s)[c := cp\<lparr>cs_pc := Switched index, cs_proc := Some index\<rparr>]\<rparr>
         else s\<lparr>sm_cpus := (sm_cpus s)[c := cp\<lparr>cs_pc := AtSelect (offset + 1)\<rparr>]\<rparr>)"

text \<open>Process \<open>i\<close> leaves CPU \<open>c\<close> in state \<open>st\<close>: \<open>sched()\<close> and the code after \<open>swtch\<close>.\<close>

definition switch_back :: "nat \<Rightarrow> nat \<Rightarrow> procstate \<Rightarrow> int \<Rightarrow> smp \<Rightarrow> smp" where
  "switch_back c i st xstate s =
     s\<lparr>sm_tab := (sm_tab s)[i := (sm_tab s ! i)\<lparr>p_xstate := xstate, p_state := st\<rparr>],
       sm_cpus := (sm_cpus s)[c :=
         sched_restart ((sm_cpus s ! c)\<lparr>cs_proc := None, cs_next := (i + 1) mod NPROC\<rparr>)]\<rparr>"

abbreviation cpu_at :: "smp \<Rightarrow> nat \<Rightarrow> sched_pc \<Rightarrow> bool" where
  "cpu_at s c pc \<equiv> c < length (sm_cpus s) \<and> cs_pc (sm_cpus s ! c) = pc"

abbreviation set_slot :: "smp \<Rightarrow> nat \<Rightarrow> proc \<Rightarrow> smp" where
  "set_slot s i p \<equiv> s\<lparr>sm_tab := (sm_tab s)[i := p]\<rparr>"

inductive smp_step :: "smp \<Rightarrow> smp \<Rightarrow> bool" where
  scan: "cpu_at s c (AtScan k) \<Longrightarrow> k < NPROC \<Longrightarrow> smp_step s (scan_one c k s)"
| scanned: "cpu_at s c (AtScan NPROC) \<Longrightarrow> smp_step s (scan_end c s)"
| select: "cpu_at s c (AtSelect offset) \<Longrightarrow> offset < NPROC \<Longrightarrow> smp_step s (select_one c offset s)"
| retry: "cpu_at s c (AtSelect NPROC) \<Longrightarrow>
    smp_step s (s\<lparr>sm_cpus := (sm_cpus s)[c := sched_restart (sm_cpus s ! c)]\<rparr>)"
| yields: "cpu_at s c (Switched i) \<Longrightarrow>
    smp_step s (switch_back c i RUNNABLE (p_xstate (sm_tab s ! i)) s)"
| sleeps: "cpu_at s c (Switched i) \<Longrightarrow> p_chan (sm_tab s ! i) \<noteq> None \<Longrightarrow>
    smp_step s (switch_back c i SLEEPING (p_xstate (sm_tab s ! i)) s)"
| exits: "cpu_at s c (Switched i) \<Longrightarrow> smp_step s (switch_back c i ZOMBIE status s)"
| prepares: "cpu_at s c (Switched i) \<Longrightarrow>
    smp_step s (set_slot s i ((sm_tab s ! i)\<lparr>p_chan := Some chan\<rparr>))"
| wakes: "k < NPROC \<Longrightarrow> smp_step s (set_slot s k (wakeup_proc chan (sm_tab s ! k)))"
| kills: "k < NPROC \<Longrightarrow> smp_step s (set_slot s k ((sm_tab s ! k)\<lparr>p_killed := 1,
    p_state := (if p_state (sm_tab s ! k) = SLEEPING then RUNNABLE else p_state (sm_tab s ! k))\<rparr>))"
| sets: "k < NPROC \<Longrightarrow> priority_valid pr \<Longrightarrow>
    smp_step s (set_slot s k ((sm_tab s ! k)\<lparr>p_priority := pr, p_wait_ticks := 0\<rparr>))"
| adopts: "k < NPROC \<Longrightarrow> smp_step s (set_slot s k ((sm_tab s ! k)\<lparr>p_parent := parent\<rparr>))"
| claims: "cpu_at s c (Switched i) \<Longrightarrow> k < NPROC \<Longrightarrow> p_state (sm_tab s ! k) = UNUSED \<Longrightarrow>
    allocpid (sm_nextpid s) = (pid, n) \<Longrightarrow>
    smp_step s ((set_slot s k ((sm_tab s ! k)\<lparr>p_pid := pid, p_state := USED,
      p_priority := PRIORITY_DEFAULT, p_wait_ticks := 0\<rparr>))\<lparr>sm_nextpid := n\<rparr>)"
| readies: "k < NPROC \<Longrightarrow> p_state (sm_tab s ! k) = USED \<Longrightarrow>
    smp_step s (set_slot s k ((sm_tab s ! k)\<lparr>p_state := RUNNABLE\<rparr>))"
| frees: "k < NPROC \<Longrightarrow> p_state (sm_tab s ! k) = USED \<or> p_state (sm_tab s ! k) = ZOMBIE \<Longrightarrow>
    smp_step s (set_slot s k (freeproc_reset (sm_tab s ! k)))"

text \<open>
  The machine as \<open>main()\<close> leaves it: the table has been through \<open>procinit\<close> and
  \<open>userinit\<close> has claimed the first slot, and every CPU enters \<open>scheduler()\<close>.
\<close>

definition smp_init :: "smp \<Rightarrow> bool" where
  "smp_init s \<longleftrightarrow>
     (\<exists>kstack i qs. allocproc_claim (procinit kstack (replicate NPROC zero_proc)) 1 = Some (i, qs, sm_nextpid s) \<and>
        sm_tab s = qs[i := (qs ! i)\<lparr>p_state := RUNNABLE\<rparr>]) \<and>
     (\<exists>n \<le> NCPU. sm_cpus s = map sched_start [0..<n])"

section \<open>The invariant\<close>

definition owner_ok :: "ptable \<Rightarrow> cpu_sched list \<Rightarrow> bool" where
  "owner_ok ps cs \<longleftrightarrow>
     (\<forall>c < length cs. \<forall>i. cs_proc (cs ! c) = Some i \<longleftrightarrow> cs_pc (cs ! c) = Switched i) \<and>
     (\<forall>c < length cs. \<forall>i. cs_proc (cs ! c) = Some i \<longrightarrow> i < length ps) \<and>
     (\<forall>i < length ps. p_state (ps ! i) = RUNNING \<longleftrightarrow> (\<exists>c < length cs. cs_proc (cs ! c) = Some i)) \<and>
     (\<forall>c < length cs. \<forall>d < length cs. \<forall>i. cs_proc (cs ! c) = Some i \<longrightarrow> cs_proc (cs ! d) = Some i \<longrightarrow> c = d)"

definition smp_inv :: "smp \<Rightarrow> bool" where
  "smp_inv s \<longleftrightarrow> valid_table (sm_tab s) \<and> pids_ok (sm_nextpid s) (sm_tab s) \<and>
     owner_ok (sm_tab s) (sm_cpus s)"

lemma owner_okI:
  assumes "\<And>c i. c < length cs \<Longrightarrow> cs_proc (cs ! c) = Some i \<longleftrightarrow> cs_pc (cs ! c) = Switched i"
    and "\<And>c i. c < length cs \<Longrightarrow> cs_proc (cs ! c) = Some i \<Longrightarrow> i < length ps \<and> p_state (ps ! i) = RUNNING"
    and "\<And>i. i < length ps \<Longrightarrow> p_state (ps ! i) = RUNNING \<Longrightarrow> \<exists>c < length cs. cs_proc (cs ! c) = Some i"
    and "\<And>c d i. c < length cs \<Longrightarrow> d < length cs \<Longrightarrow> cs_proc (cs ! c) = Some i \<Longrightarrow>
      cs_proc (cs ! d) = Some i \<Longrightarrow> c = d"
  shows "owner_ok ps cs"
  unfolding owner_ok_def using assms by blast

lemma owner_okD:
  assumes "owner_ok ps cs"
  shows "c < length cs \<Longrightarrow> cs_proc (cs ! c) = Some i \<longleftrightarrow> cs_pc (cs ! c) = Switched i"
    and "c < length cs \<Longrightarrow> cs_proc (cs ! c) = Some i \<Longrightarrow> i < length ps"
    and "c < length cs \<Longrightarrow> cs_proc (cs ! c) = Some i \<Longrightarrow> p_state (ps ! i) = RUNNING"
    and "i < length ps \<Longrightarrow> p_state (ps ! i) = RUNNING \<Longrightarrow> \<exists>c < length cs. cs_proc (cs ! c) = Some i"
    and "c < length cs \<Longrightarrow> d < length cs \<Longrightarrow> cs_proc (cs ! c) = Some i \<Longrightarrow>
      cs_proc (cs ! d) = Some i \<Longrightarrow> c = d"
  using assms unfolding owner_ok_def by blast+

lemma owner_ok_slot:
  assumes "owner_ok ps cs" and "p_state p = RUNNING \<longleftrightarrow> p_state (ps ! k) = RUNNING"
  shows "owner_ok (ps[k := p]) cs"
proof (rule owner_okI)
  note ok = owner_okD [OF assms(1)]
  show "cs_proc (cs ! c) = Some i \<longleftrightarrow> cs_pc (cs ! c) = Switched i" if "c < length cs" for c i
    by (rule ok(1) [OF that])
  show "i < length (ps[k := p]) \<and> p_state (ps[k := p] ! i) = RUNNING"
    if "c < length cs" "cs_proc (cs ! c) = Some i" for c i
    using ok(2,3) [OF that] assms(2) by (simp add: nth_update_if)
  show "\<exists>c < length cs. cs_proc (cs ! c) = Some i"
    if "i < length (ps[k := p])" "p_state (ps[k := p] ! i) = RUNNING" for i
    using ok(4) [of i] that assms(2) by (cases "i = k") simp_all
  show "c = d" if "c < length cs" "d < length cs" "cs_proc (cs ! c) = Some i" "cs_proc (cs ! d) = Some i"
    for c d i by (rule ok(5) [OF that])
qed

lemma owner_ok_cpu:
  assumes "owner_ok ps cs" and "\<And>i. cs_pc (cs ! c) \<noteq> Switched i" and "\<And>i. cs_pc cp \<noteq> Switched i"
    and "cs_proc cp = cs_proc (cs ! c)"
  shows "owner_ok ps (cs[c := cp])"
proof -
  have proc: "cs_proc (cs[c := cp] ! d) = cs_proc (cs ! d)" if "d < length cs" for d
    using assms(4) that by (simp add: nth_update_if)
  have pc: "cs_pc (cs[c := cp] ! d) = Switched i \<longleftrightarrow> cs_pc (cs ! d) = Switched i" if "d < length cs" for d i
    using assms(2,3) that by (cases "d = c") simp_all
  show ?thesis using assms(1) by (simp add: owner_ok_def proc pc cong: conj_cong)
qed

lemma owner_ok_dispatch:
  assumes "owner_ok ps cs" and c: "c < length cs" "\<And>i. cs_pc (cs ! c) \<noteq> Switched i"
    and k: "k < length ps" "p_state (ps ! k) \<noteq> RUNNING"
    and p: "p_state p = RUNNING" and cp: "cs_pc cp = Switched k" "cs_proc cp = Some k"
  shows "owner_ok (ps[k := p]) (cs[c := cp])"
proof (rule owner_okI)
  note ok = owner_okD [OF assms(1)]
  have idle: "cs_proc (cs ! c) \<noteq> Some i" for i using ok(1) c by blast
  have free: "cs_proc (cs ! d) \<noteq> Some k" if "d < length cs" for d using ok(3) k(2) that by blast
  let ?cs = "cs[c := cp]"
  show "cs_proc (?cs ! d) = Some i \<longleftrightarrow> cs_pc (?cs ! d) = Switched i" if "d < length ?cs" for d i
    using ok(1) [of d i] that cp by (cases "d = c") auto
  show "i < length (ps[k := p]) \<and> p_state (ps[k := p] ! i) = RUNNING"
    if "d < length ?cs" "cs_proc (?cs ! d) = Some i" for d i
    using ok(2,3) [of d i] that cp k(1) p by (cases "d = c") (auto simp: nth_update_if)
  show "\<exists>d < length ?cs. cs_proc (?cs ! d) = Some i"
    if "i < length (ps[k := p])" "p_state (ps[k := p] ! i) = RUNNING" for i
  proof (cases "i = k")
    case True
    with c(1) cp show ?thesis by (intro exI [of _ c]) simp
  next
    case False
    with ok(4) [of i] that obtain d where "d < length cs" "cs_proc (cs ! d) = Some i" by auto
    moreover from this idle have "d \<noteq> c" by auto
    ultimately show ?thesis by (intro exI [of _ d]) simp
  qed
  show "d = e" if "d < length ?cs" "e < length ?cs" "cs_proc (?cs ! d) = Some i" "cs_proc (?cs ! e) = Some i"
    for d e i
    using ok(5) [of d e i] free [of d] free [of e] that cp by (auto simp: nth_update_if split: if_splits)
qed

lemma owner_ok_back:
  assumes "owner_ok ps cs" and c: "c < length cs" "cs_pc (cs ! c) = Switched k"
    and p: "p_state p \<noteq> RUNNING" and cp: "\<And>i. cs_pc cp \<noteq> Switched i" "cs_proc cp = None"
  shows "owner_ok (ps[k := p]) (cs[c := cp])"
proof (rule owner_okI)
  note ok = owner_okD [OF assms(1)]
  have own: "cs_proc (cs ! c) = Some k" using ok(1) [OF c(1)] c(2) by simp
  have only: "d = c" if "d < length cs" "cs_proc (cs ! d) = Some k" for d
    by (rule ok(5) [OF that(1) c(1) that(2) own])
  let ?cs = "cs[c := cp]"
  show "cs_proc (?cs ! d) = Some i \<longleftrightarrow> cs_pc (?cs ! d) = Switched i" if "d < length ?cs" for d i
    using ok(1) [of d i] that cp by (cases "d = c") auto
  show "i < length (ps[k := p]) \<and> p_state (ps[k := p] ! i) = RUNNING"
    if "d < length ?cs" "cs_proc (?cs ! d) = Some i" for d i
  proof -
    from that cp(2) have d: "d \<noteq> c" "d < length cs" "cs_proc (cs ! d) = Some i" by (auto simp: nth_update_if split: if_splits)
    moreover from d only have "i \<noteq> k" by auto
    ultimately show ?thesis using ok(2,3) [of d i] by simp
  qed
  show "\<exists>d < length ?cs. cs_proc (?cs ! d) = Some i"
    if i: "i < length (ps[k := p])" "p_state (ps[k := p] ! i) = RUNNING" for i
  proof -
    from i p have "i \<noteq> k" by (auto simp: nth_update_if split: if_splits)
    with ok(4) [of i] i obtain d where d: "d < length cs" "cs_proc (cs ! d) = Some i" by auto
    with own \<open>i \<noteq> k\<close> have "d \<noteq> c" by auto
    with d show ?thesis by (intro exI [of _ d]) simp
  qed
  show "d = e" if "d < length ?cs" "e < length ?cs" "cs_proc (?cs ! d) = Some i" "cs_proc (?cs ! e) = Some i"
    for d e i
    using ok(5) [of d e i] that cp by (auto simp: nth_update_if split: if_splits)
qed

lemma smp_invD:
  assumes "smp_inv s"
  shows "valid_table (sm_tab s)" "pids_ok (sm_nextpid s) (sm_tab s)" "owner_ok (sm_tab s) (sm_cpus s)"
    "length (sm_tab s) = NPROC"
  using assms by (auto simp: smp_inv_def valid_table_def)

text \<open>Updates of one slot, of one scheduler's locals, and of both.\<close>

lemma smp_inv_slot:
  assumes "smp_inv s" and "p_state p = RUNNING \<longleftrightarrow> p_state (sm_tab s ! k) = RUNNING"
    and "priority_valid (p_priority p)" and "p_pid p = p_pid (sm_tab s ! k)"
    and "p_state p = UNUSED \<longleftrightarrow> p_state (sm_tab s ! k) = UNUSED"
  shows "smp_inv (set_slot s k p)"
  unfolding smp_inv_def
  using valid_table_update [OF smp_invD(1) [OF assms(1)] assms(3)]
    pids_ok_same_slots [OF smp_invD(2) [OF assms(1)] same_slots_update [OF assms(4,5)]]
    owner_ok_slot [OF smp_invD(3) [OF assms(1)] assms(2)]
  by simp

lemma smp_inv_cpu:
  assumes "smp_inv s" and "\<And>i. cs_pc (sm_cpus s ! c) \<noteq> Switched i" and "\<And>i. cs_pc cp \<noteq> Switched i"
    and "cs_proc cp = cs_proc (sm_cpus s ! c)"
  shows "smp_inv (s\<lparr>sm_cpus := (sm_cpus s)[c := cp]\<rparr>)"
  using smp_invD [OF assms(1)] owner_ok_cpu [OF smp_invD(3) [OF assms(1)] assms(2-4)]
  by (simp add: smp_inv_def)

lemma valid_priority:
  assumes "smp_inv s" and "k < NPROC"
  shows "priority_valid (p_priority (sm_tab s ! k))"
  using smp_invD(1,4) [OF assms(1)] assms(2) by (simp add: valid_table_def)

lemma sched_restart_simps [simp]:
  "cs_pc (sched_restart c) = AtScan 0" "cs_proc (sched_restart c) = cs_proc c"
  by (simp_all add: sched_restart_def)

lemma smp_inv_scan:
  assumes "smp_inv s" and "cpu_at s c (AtScan k)" and "k < NPROC"
  shows "smp_inv (scan_one c k s)"
proof -
  let ?cp = "sm_cpus s ! c"
  obtain b f where sp: "scan_proc (sm_tab s ! k) (cs_best ?cp) (cs_found ?cp) = (age_tick (sm_tab s ! k), b, f)"
    by (cases "scan_proc (sm_tab s ! k) (cs_best ?cp) (cs_found ?cp)") (auto simp: scan_proc_age)
  have "smp_inv (set_slot s k (age_tick (sm_tab s ! k)))"
    using valid_priority [OF assms(1,3)] by (intro smp_inv_slot [OF assms(1)]) (simp_all add: age_tick_valid)
  from smp_inv_cpu [OF this, of c "?cp\<lparr>cs_pc := AtScan (k + 1), cs_best := b, cs_found := f\<rparr>"]
  show ?thesis using assms(2) by (simp add: scan_one_def sp Let_def)
qed

lemma smp_inv_scan_end:
  assumes "smp_inv s" and "cpu_at s c (AtScan NPROC)"
  shows "smp_inv (scan_end c s)"
  unfolding scan_end_def Let_def using assms(2) by (intro smp_inv_cpu [OF assms(1)]) simp_all

lemma smp_inv_select:
  assumes "smp_inv s" and "cpu_at s c (AtSelect offset)"
  shows "smp_inv (select_one c offset s)"
proof -
  let ?cp = "sm_cpus s ! c"
  let ?i = "(cs_next ?cp + offset) mod NPROC"
  let ?p = "(sm_tab s ! ?i)\<lparr>p_state := RUNNING, p_wait_ticks := 0\<rparr>"
  let ?cp' = "?cp\<lparr>cs_pc := Switched ?i, cs_proc := Some ?i\<rparr>"
  note inv = smp_invD [OF assms(1)]
  have i: "?i < length (sm_tab s)" using inv(4) by simp
  show ?thesis
  proof (cases "p_state (sm_tab s ! ?i) = RUNNABLE \<and> p_priority (sm_tab s ! ?i) = cs_best ?cp")
    case True
    have "owner_ok ((sm_tab s)[?i := ?p]) ((sm_cpus s)[c := ?cp'])"
      using assms(2) i True by (intro owner_ok_dispatch [OF inv(3)]) simp_all
    moreover have "valid_table ((sm_tab s)[?i := ?p])"
      using valid_priority [OF assms(1), of ?i] by (intro valid_table_update [OF inv(1)]) simp
    moreover have "pids_ok (sm_nextpid s) ((sm_tab s)[?i := ?p])"
      using True by (intro pids_ok_same_slots [OF inv(2) same_slots_update]) simp_all
    ultimately show ?thesis
      using True by (simp add: select_one_def Let_def dispatch_def smp_inv_def)
  next
    case False
    have "smp_inv (s\<lparr>sm_cpus := (sm_cpus s)[c := ?cp\<lparr>cs_pc := AtSelect (offset + 1)\<rparr>]\<rparr>)"
      using assms(2) by (intro smp_inv_cpu [OF assms(1)]) simp_all
    with False show ?thesis by (auto simp: select_one_def Let_def)
  qed
qed

lemma smp_inv_back:
  assumes "smp_inv s" and "cpu_at s c (Switched i)" and "st \<notin> {RUNNING, UNUSED}"
  shows "smp_inv (switch_back c i st x s)"
proof -
  note inv = smp_invD [OF assms(1)]
  have own: "i < length (sm_tab s)" "p_state (sm_tab s ! i) = RUNNING"
    using owner_okD(1-3) [OF inv(3)] assms(2) by blast+
  let ?p = "(sm_tab s ! i)\<lparr>p_xstate := x, p_state := st\<rparr>"
  have "owner_ok ((sm_tab s)[i := ?p]) ((sm_cpus s)[c :=
      sched_restart ((sm_cpus s ! c)\<lparr>cs_proc := None, cs_next := (i + 1) mod NPROC\<rparr>)])"
    using assms(2,3) by (intro owner_ok_back [OF inv(3)]) simp_all
  moreover have "valid_table ((sm_tab s)[i := ?p])"
    using valid_priority [OF assms(1), of i] own inv(4) by (intro valid_table_update [OF inv(1)]) simp
  moreover have "pids_ok (sm_nextpid s) ((sm_tab s)[i := ?p])"
    using own assms(3) by (intro pids_ok_same_slots [OF inv(2) same_slots_update]) simp_all
  ultimately show ?thesis by (simp add: switch_back_def smp_inv_def)
qed

lemma smp_inv_claim:
  assumes "smp_inv s" and "k < NPROC" and "p_state (sm_tab s ! k) = UNUSED"
    and "allocpid (sm_nextpid s) = (pid, n)"
  shows "smp_inv ((set_slot s k ((sm_tab s ! k)\<lparr>p_pid := pid, p_state := USED,
      p_priority := PRIORITY_DEFAULT, p_wait_ticks := 0\<rparr>))\<lparr>sm_nextpid := n\<rparr>)"
proof -
  note inv = smp_invD [OF assms(1)]
  let ?p = "(sm_tab s ! k)\<lparr>p_pid := pid, p_state := USED, p_priority := PRIORITY_DEFAULT, p_wait_ticks := 0\<rparr>"
  have n: "pid = sm_nextpid s" "n = sm_nextpid s + 1" using assms(4) by (auto simp: allocpid_def)
  have "pids_ok n ((sm_tab s)[k := ?p])"
    unfolding n by (rule pids_ok_claim [OF inv(2) _ assms(3) refl]) (simp add: inv(4) assms(2))
  moreover have "valid_table ((sm_tab s)[k := ?p])"
    by (rule valid_table_update [OF inv(1)]) (simp add: priority_valid_iff PRIORITY_DEFAULT_def)
  moreover have "owner_ok ((sm_tab s)[k := ?p]) (sm_cpus s)"
    by (rule owner_ok_slot [OF inv(3)]) (simp add: assms(3))
  ultimately show ?thesis by (simp add: smp_inv_def)
qed

lemma smp_inv_free:
  assumes "smp_inv s" and "p_state (sm_tab s ! k) = USED \<or> p_state (sm_tab s ! k) = ZOMBIE"
  shows "smp_inv (set_slot s k (freeproc_reset (sm_tab s ! k)))"
proof -
  note inv = smp_invD [OF assms(1)]
  have "valid_table ((sm_tab s)[k := freeproc_reset (sm_tab s ! k)])"
    by (rule valid_table_update [OF inv(1)]) (simp add: freeproc_reset_def priority_valid_iff PRIORITY_DEFAULT_def)
  moreover have "owner_ok ((sm_tab s)[k := freeproc_reset (sm_tab s ! k)]) (sm_cpus s)"
    by (rule owner_ok_slot [OF inv(3)]) (use assms(2) in \<open>auto simp: freeproc_reset_def\<close>)
  ultimately show ?thesis using pids_ok_free [OF inv(2)] by (simp add: smp_inv_def)
qed

lemma smp_inv_step:
  assumes "smp_inv s" and "smp_step s t"
  shows "smp_inv t"
  using assms(2,1)
proof (cases rule: smp_step.cases)
  case (prepares c i chan)
  have "i < NPROC" using owner_okD(1,2) [OF smp_invD(3) [OF assms(1)]] prepares smp_invD(4) [OF assms(1)] by metis
  with prepares valid_priority [OF assms(1)] show ?thesis by (auto intro!: smp_inv_slot assms(1))
qed (auto intro!: smp_inv_scan smp_inv_scan_end smp_inv_select smp_inv_back smp_inv_claim smp_inv_free
    smp_inv_cpu smp_inv_slot valid_priority simp: assms(1))

lemma smp_inv_initial:
  assumes "smp_init s"
  shows "smp_inv s"
proof -
  from assms obtain kstack i qs n where
    claim: "allocproc_claim (procinit kstack (replicate NPROC zero_proc)) 1 = Some (i, qs, sm_nextpid s)"
    and tab: "sm_tab s = qs[i := (qs ! i)\<lparr>p_state := RUNNABLE\<rparr>]"
    and cpus: "sm_cpus s = map sched_start [0..<n]"
    by (auto simp: smp_init_def)
  let ?z = "procinit kstack (replicate NPROC zero_proc)"
  have z: "?z ! k = zero_proc\<lparr>p_state := UNUSED, p_priority := PRIORITY_DEFAULT,
      p_wait_ticks := 0, p_kstack := kstack k\<rparr>" if "k < NPROC" for k
    using that by (simp add: procinit_def nth_enumerate_eq)
  have len: "length ?z = NPROC" by (simp add: procinit_def)
  have zp: "p_state (?z ! k) = UNUSED" "p_pid (?z ! k) = 0"
    "p_priority (?z ! k) = PRIORITY_DEFAULT" if "k < NPROC" for k
    unfolding z [OF that] by (simp_all add: zero_proc_def)
  note c = allocproc_claimD [OF claim]
  have lenq: "length qs = NPROC" using c(4) len by simp
  have pids: "pids_ok 1 ?z"
    by (rule pids_okI) (use len zp in auto)
  have pq: "pids_ok (1 + 1) qs" by (rule pids_ok_claim [OF pids c(1,2,4)])
  have "pids_ok (sm_nextpid s) (sm_tab s)"
    unfolding tab c(3) using c(1,4)
    by (intro pids_ok_same_slots [OF pq same_slots_update]) simp_all
  moreover have "valid_table (sm_tab s)"
    unfolding valid_table_def all_set_conv_all_nth tab
    using c(1,4) len zp by (auto simp: nth_update_if priority_valid_iff PRIORITY_DEFAULT_def)
  moreover have "owner_ok (sm_tab s) (sm_cpus s)"
    by (rule owner_okI)
      (use c(1,4) len zp in \<open>auto simp: tab cpus sched_start_def nth_update_if split: if_splits\<close>)
  ultimately show ?thesis by (simp add: smp_inv_def)
qed

interpretation smp_sys: invariant_system smp_init smp_step smp_inv
  by unfold_locales (rule smp_inv_initial, assumption, rule smp_inv_step)

text \<open>Two CPUs after \<open>userinit\<close>, and CPU 0 up to its first switch.\<close>

definition smp_boot :: smp where
  "smp_boot = (case allocproc_claim (procinit (\<lambda>_. 0) (replicate NPROC zero_proc)) 1 of
      Some (i, qs, n) \<Rightarrow> \<lparr>sm_tab = qs[i := (qs ! i)\<lparr>p_state := RUNNABLE\<rparr>], sm_nextpid = n,
        sm_cpus = map sched_start [0..<2]\<rparr>)"

definition smp_first :: smp where
  "smp_first = select_one 0 0 (scan_end 0 (fold (scan_one 0) [0..<NPROC] smp_boot))"

lemma scan_reach:
  assumes "reach smp_init smp_step s" and "cpu_at s c (AtScan k)" and "k + n \<le> NPROC"
  shows "reach smp_init smp_step (fold (scan_one c) [k..<k + n] s) \<and>
    cpu_at (fold (scan_one c) [k..<k + n] s) c (AtScan (k + n))"
  using assms(3)
proof (induction n)
  case 0
  with assms(1,2) show ?case by simp
next
  case (Suc n)
  let ?t = "fold (scan_one c) [k..<k + n] s"
  from Suc have t: "reach smp_init smp_step ?t" "cpu_at ?t c (AtScan (k + n))" "k + n < NPROC" by simp_all
  have "reach smp_init smp_step (scan_one c (k + n) ?t)"
    by (rule reach_step [OF t(1) smp_step.scan [OF t(2,3)]])
  moreover have "cpu_at (scan_one c (k + n) ?t) c (AtScan (k + Suc n))"
    using t(2) by (simp add: scan_one_def Let_def split: prod.split)
  ultimately show ?case by simp
qed

lemma smp_boot_init: "smp_init smp_boot"
proof -
  obtain i qs n where
    claim: "allocproc_claim (procinit (\<lambda>_. 0) (replicate NPROC zero_proc)) 1 = Some (i, qs, n)"
    by (auto simp: allocproc_claim_def allocpid_def procinit_def NPROC_def zero_proc_def numeral_eq_Suc)
  then have boot: "smp_boot = \<lparr>sm_tab = qs[i := (qs ! i)\<lparr>p_state := RUNNABLE\<rparr>], sm_nextpid = n,
      sm_cpus = map sched_start [0..<2]\<rparr>"
    by (simp add: smp_boot_def)
  show ?thesis
    unfolding smp_init_def
  proof
    show "\<exists>kstack i qs. allocproc_claim (procinit kstack (replicate NPROC zero_proc)) 1 =
        Some (i, qs, sm_nextpid smp_boot) \<and> sm_tab smp_boot = qs[i := (qs ! i)\<lparr>p_state := RUNNABLE\<rparr>]"
      by (rule exI [of _ "\<lambda>_. 0"], rule exI [of _ i], rule exI [of _ qs]) (simp add: claim boot)
    show "\<exists>n \<le> NCPU. sm_cpus smp_boot = map sched_start [0..<n]"
      by (rule exI [of _ 2]) (simp add: boot NCPU_def)
  qed
qed

lemma smp_scanned:
  "cs_found (sm_cpus (fold (scan_one 0) [0..<NPROC] smp_boot) ! 0) \<and>
   length (sm_cpus (fold (scan_one 0) [0..<NPROC] smp_boot)) = 2"
  by code_simp

lemma smp_first_running: "cs_proc (sm_cpus smp_first ! 0) = Some 0 \<and> length (sm_cpus smp_first) = 2"
  by code_simp

lemma smp_first_reach: "reach smp_init smp_step smp_first"
proof -
  let ?s = "fold (scan_one 0) [0..<NPROC] smp_boot"
  have "cpu_at smp_boot 0 (AtScan 0)" by code_simp
  from scan_reach [OF reach_init [where init = smp_init and step = smp_step, OF smp_boot_init] this, of NPROC]
  have s: "reach smp_init smp_step ?s" "cpu_at ?s 0 (AtScan NPROC)" by simp_all
  have r: "reach smp_init smp_step (scan_end 0 ?s)"
    by (rule reach_step [OF s(1) smp_step.scanned [OF s(2)]])
  have a: "cpu_at (scan_end 0 ?s) 0 (AtSelect 0)"
    using smp_scanned by (simp add: scan_end_def Let_def)
  show ?thesis
    unfolding smp_first_def by (rule reach_step [OF r smp_step.select [OF a]]) simp
qed


section \<open>What the locking of the scheduler guarantees\<close>

text \<open>
  C3: one CPU per process. In every state that the CPUs can reach by
  interleaving their lock-protected steps, a process is RUNNING exactly if it is
  the current process of some CPU, and no process is current on two CPUs.
\<close>

theorem one_cpu_per_process:
  assumes "reach smp_init smp_step s"
  shows "(\<forall>i < NPROC. p_state (sm_tab s ! i) = RUNNING \<longleftrightarrow>
            (\<exists>c < length (sm_cpus s). cs_proc (sm_cpus s ! c) = Some i)) \<and>
    (\<forall>c < length (sm_cpus s). \<forall>d < length (sm_cpus s). \<forall>i.
       cs_proc (sm_cpus s ! c) = Some i \<and> cs_proc (sm_cpus s ! d) = Some i \<longrightarrow> c = d)"
  using smp_invD(3,4) [OF smp_sys.reach_inv [OF assms]] by (auto simp: owner_ok_def)

theorem one_cpu_per_process_witness:
  "reach smp_init smp_step smp_first \<and> cs_proc (sm_cpus smp_first ! 0) = Some 0 \<and>
   p_state (sm_tab smp_first ! 0) = RUNNING \<and> cs_proc (sm_cpus smp_first ! 1) \<noteq> Some 0"
proof -
  have "(0::nat) < NPROC" "(0::nat) < length (sm_cpus smp_first)" "1 < length (sm_cpus smp_first)"
    using smp_first_running by simp_all
  with one_cpu_per_process [OF smp_first_reach] smp_first_running smp_first_reach show ?thesis
    by (metis zero_neq_one)
qed



end
