(* ===== verification/CMemory.thy ===== *)
theory CMemory
  imports Prelude
begin

text \<open>
  Byte-addressed memory, the little-endian layout of C's unsigned integers in it,
  and the routines of \<open>kernel/string.c\<close> as loops over it. The facts give each
  loop its closed form: \<open>memset\<close> fills exactly its range, \<open>memmove\<close> copies
  correctly for every overlap, and the string copies agree with their reading on
  byte lists.
\<close>

unbundle bit_operations_syntax

section \<open>Memory\<close>

type_synonym pmem = "u64 \<Rightarrow> u8"

definition load_bytes :: "pmem \<Rightarrow> u64 \<Rightarrow> nat \<Rightarrow> u8 list" where
  "load_bytes m a n = map (\<lambda>i. m (a + of_nat i)) [0..<n]"

definition store_bytes :: "u64 \<Rightarrow> u8 list \<Rightarrow> pmem \<Rightarrow> pmem" where
  "store_bytes a bs m = (\<lambda>x. if unat (x - a) < length bs then bs ! unat (x - a) else m x)"

fun word_of_bytes :: "u8 list \<Rightarrow> 'a::len word" where
  "word_of_bytes [] = 0"
| "word_of_bytes (b # bs) = ucast b OR push_bit 8 (word_of_bytes bs)"

fun bytes_of_word :: "nat \<Rightarrow> 'a::len word \<Rightarrow> u8 list" where
  "bytes_of_word 0 w = []"
| "bytes_of_word (Suc n) w = ucast w # bytes_of_word n (drop_bit 8 w)"

definition load64 :: "pmem \<Rightarrow> u64 \<Rightarrow> u64" where
  "load64 m a = word_of_bytes (load_bytes m a 8)"

definition store64 :: "u64 \<Rightarrow> u64 \<Rightarrow> pmem \<Rightarrow> pmem" where
  "store64 a v m = store_bytes a (bytes_of_word 8 v) m"

definition load32 :: "pmem \<Rightarrow> u64 \<Rightarrow> u32" where
  "load32 m a = word_of_bytes (load_bytes m a 4)"

definition store32 :: "u64 \<Rightarrow> u32 \<Rightarrow> pmem \<Rightarrow> pmem" where
  "store32 a v m = store_bytes a (bytes_of_word 4 v) m"

section \<open>The code of \<open>string.c\<close>\<close>

definition memset :: "u64 \<Rightarrow> int \<Rightarrow> nat \<Rightarrow> pmem \<Rightarrow> pmem" where
  "memset dst c n m = fold (\<lambda>i m. m(dst + of_nat i := word_of_int c)) [0..<n] m"

fun memcmp :: "u64 \<Rightarrow> u64 \<Rightarrow> nat \<Rightarrow> pmem \<Rightarrow> int" where
  "memcmp s1 s2 0 m = 0"
| "memcmp s1 s2 (Suc n) m =
     (if m s1 \<noteq> m s2 then uint (m s1) - uint (m s2) else memcmp (s1 + 1) (s2 + 1) n m)"

definition copy_byte :: "u64 \<Rightarrow> u64 \<Rightarrow> nat \<Rightarrow> pmem \<Rightarrow> pmem" where
  "copy_byte d s i m = m(d + of_nat i := m (s + of_nat i))"

definition memmove :: "u64 \<Rightarrow> u64 \<Rightarrow> nat \<Rightarrow> pmem \<Rightarrow> pmem" where
  "memmove dst src n m =
     (if n = 0 then m
      else if src < dst \<and> src + of_nat n > dst then fold (copy_byte dst src) (rev [0..<n]) m
      else fold (copy_byte dst src) [0..<n] m)"

definition memcpy :: "u64 \<Rightarrow> u64 \<Rightarrow> nat \<Rightarrow> pmem \<Rightarrow> pmem" where
  "memcpy dst src n m = memmove dst src n m"

fun strncmp :: "u64 \<Rightarrow> u64 \<Rightarrow> nat \<Rightarrow> pmem \<Rightarrow> int" where
  "strncmp p q 0 m = 0"
| "strncmp p q (Suc n) m =
     (if m p \<noteq> 0 \<and> m p = m q then strncmp (p + 1) (q + 1) n m else uint (m p) - uint (m q))"

text \<open>The two loops of \<open>strncpy\<close>; \<open>n\<close> is the number of bytes still to write.\<close>

fun strncpy :: "u64 \<Rightarrow> u64 \<Rightarrow> nat \<Rightarrow> pmem \<Rightarrow> pmem" where
  "strncpy s t 0 m = m"
| "strncpy s t (Suc n) m =
     (let m' = m(s := m t) in
      if m t \<noteq> 0 then strncpy (s + 1) (t + 1) n m'
      else fold (\<lambda>i m. m(s + 1 + of_nat i := 0)) [0..<n] m')"

fun safestrcpy_loop :: "u64 \<Rightarrow> u64 \<Rightarrow> nat \<Rightarrow> pmem \<Rightarrow> pmem" where
  "safestrcpy_loop s t 0 m = m(s := 0)"
| "safestrcpy_loop s t (Suc n) m =
     (let m' = m(s := m t) in
      if m t \<noteq> 0 then safestrcpy_loop (s + 1) (t + 1) n m' else m'(s + 1 := 0))"

definition safestrcpy :: "u64 \<Rightarrow> u64 \<Rightarrow> int \<Rightarrow> pmem \<Rightarrow> pmem" where
  "safestrcpy s t n m = (if n \<le> 0 then m else safestrcpy_loop s t (nat n - 1) m)"

partial_function (option) strlen_from :: "u64 \<Rightarrow> nat \<Rightarrow> pmem \<Rightarrow> nat option" where
  [code]: "strlen_from s n m = (if m (s + of_nat n) \<noteq> 0 then strlen_from s (n + 1) m else Some n)"

definition strlen :: "u64 \<Rightarrow> pmem \<Rightarrow> nat option" where
  "strlen s m = strlen_from s 0 m"

section \<open>Addresses\<close>

lemma unat_lt_u64: "unat (a::u64) < 2 ^ 64"
proof -
  have "unat a < 2 ^ LENGTH(64)" by (rule unsigned_less)
  then show ?thesis by simp
qed

lemma addr_eq_iff:
  fixes x a :: u64
  assumes "n < 2 ^ 64"
  shows "x = a + of_nat n \<longleftrightarrow> unat (x - a) = n"
proof
  assume "x = a + of_nat n"
  then show "unat (x - a) = n" using assms by (simp add: unat_of_nat)
next
  assume "unat (x - a) = n"
  moreover have "x - a = of_nat (unat (x - a))" by simp
  ultimately have "x - a = of_nat n" by simp
  then show "x = a + of_nat n" by (simp add: algebra_simps)
qed

lemma unat_of_nat_u64 [simp]: "n < 2 ^ 64 \<Longrightarrow> unat (of_nat n :: u64) = n"
  by (simp add: unat_of_nat)

lemma fold_write:
  fixes dst :: u64
  assumes "n \<le> 2 ^ 64"
  shows "fold (\<lambda>i m. m(dst + of_nat i := f i)) [0..<n] m =
    (\<lambda>x. if unat (x - dst) < n then f (unat (x - dst)) else m x)"
  using assms
proof (induction n)
  case (Suc n)
  then show ?case
    by (auto simp: fun_eq_iff less_Suc_eq addr_eq_iff)
qed simp

lemma memset_apply:
  assumes "n \<le> 2 ^ 64"
  shows "memset dst c n m = (\<lambda>x. if unat (x - dst) < n then word_of_int c else m x)"
  unfolding memset_def by (rule fold_write [OF assms])

text \<open>A page-sized or smaller write is a store of bytes.\<close>

lemma length_load_bytes [simp]: "length (load_bytes m a n) = n"
  by (simp add: load_bytes_def)

lemma nth_load_bytes [simp]: "i < n \<Longrightarrow> load_bytes m a n ! i = m (a + of_nat i)"
  by (simp add: load_bytes_def)

lemma store_bytes_in:
  "i < length bs \<Longrightarrow> length bs \<le> 2 ^ 64 \<Longrightarrow> store_bytes a bs m (a + of_nat i) = bs ! i"
  by (simp add: store_bytes_def)

lemma store_bytes_out: "length bs \<le> unat (x - a) \<Longrightarrow> store_bytes a bs m x = m x"
  by (simp add: store_bytes_def)

lemma load_store_bytes [simp]:
  assumes "length bs \<le> 2 ^ 64"
  shows "load_bytes (store_bytes a bs m) a (length bs) = bs"
  using assms by (intro nth_equalityI) (simp_all add: store_bytes_in)

lemma load_bytes_cong:
  "(\<And>i. i < n \<Longrightarrow> m (a + of_nat i) = m' (a + of_nat i)) \<Longrightarrow> load_bytes m a n = load_bytes m' a n"
  by (simp add: load_bytes_def)

section \<open>Little-endian integers\<close>

lemma length_bytes_of_word [simp]: "length (bytes_of_word n w) = n"
  by (induction n w rule: bytes_of_word.induct) simp_all

lemma bit_word_of_bytes:
  fixes bs :: "u8 list"
  shows "bit (word_of_bytes bs :: 'a::len word) i \<longleftrightarrow>
    i < LENGTH('a) \<and> i < 8 * length bs \<and> bit (bs ! (i div 8)) (i mod 8)"
proof (induction bs arbitrary: i)
  case (Cons b bs)
  show ?case
  proof (cases "i < 8")
    case True
    then show ?thesis
      by (auto simp: bit_or_iff bit_push_bit_iff bit_ucast_iff)
  next
    case False
    then obtain j where j: "i = j + 8" by (metis add.commute le_Suc_ex not_less)
    have "\<not> bit b (j + 8)" using bit_imp_le_length [of b "j + 8"] by auto
    moreover have "(j + 8) div 8 = Suc (j div 8)" by (simp add: div_add_self2)
    ultimately show ?thesis using Cons.IH [of j] j
      by (auto simp: bit_or_iff bit_push_bit_iff bit_ucast_iff)
  qed
qed simp

lemma bit_nth_bytes_of_word:
  fixes w :: "'a::len word"
  assumes "i < n" and "k < 8"
  shows "bit (bytes_of_word n w ! i) k \<longleftrightarrow> bit w (8 * i + k)"
  using assms(1)
proof (induction n w arbitrary: i rule: bytes_of_word.induct)
  case (2 n w)
  show ?case
  proof (cases i)
    case 0
    with assms(2) show ?thesis
      by (auto simp: bit_ucast_iff dest: bit_imp_le_length)
  next
    case (Suc j)
    with 2 show ?thesis by (simp add: bit_drop_bit_eq algebra_simps)
  qed
qed simp

lemma word_of_bytes_of_word:
  fixes w :: "'a::len word"
  assumes "LENGTH('a) \<le> 8 * n"
  shows "word_of_bytes (bytes_of_word n w) = w"
proof (rule bit_word_eqI)
  fix i assume "i < LENGTH('a)"
  then show "bit (word_of_bytes (bytes_of_word n w) :: 'a word) i = bit w i"
    using assms by (simp add: bit_word_of_bytes bit_nth_bytes_of_word)
qed

lemma bytes_of_word_of_bytes:
  fixes bs :: "u8 list"
  assumes "8 * length bs \<le> LENGTH('a::len)"
  shows "bytes_of_word (length bs) (word_of_bytes bs :: 'a word) = bs"
proof (rule nth_equalityI)
  fix i assume i: "i < length (bytes_of_word (length bs) (word_of_bytes bs :: 'a word))"
  show "bytes_of_word (length bs) (word_of_bytes bs :: 'a word) ! i = bs ! i"
  proof (rule bit_word_eqI)
    fix k assume "k < LENGTH(8)"
    with i assms show "bit (bytes_of_word (length bs) (word_of_bytes bs :: 'a word) ! i) k = bit (bs ! i) k"
      by (simp add: bit_nth_bytes_of_word bit_word_of_bytes)
  qed
qed simp

lemma load64_store64_same [simp]: "load64 (store64 a v m) a = v"
  using load_store_bytes [of "bytes_of_word 8 v" a m]
  by (simp add: load64_def store64_def word_of_bytes_of_word)

lemma load64_cong:
  "(\<And>i. i < 8 \<Longrightarrow> m (a + of_nat i) = m' (a + of_nat i)) \<Longrightarrow> load64 m a = load64 m' a"
  by (simp add: load64_def cong: load_bytes_cong)

text \<open>Two aligned double words are equal or disjoint.\<close>

definition aligned :: "nat \<Rightarrow> u64 \<Rightarrow> bool" where
  "aligned n a \<longleftrightarrow> unat a mod n = 0"

lemma aligned_block_apart:
  assumes "n dvd 2 ^ 64" and "0 < n" and "aligned n a" and "aligned n b" and "a \<noteq> b" and "i < n"
  shows "n \<le> unat (b + of_nat i - a)"
proof -
  obtain q where q: "2 ^ 64 = n * q" using assms(1) by (auto simp: dvd_def)
  obtain x y where x: "unat a = n * x" and y: "unat b = n * y"
    using assms(3,4) by (metis aligned_def mod_0_imp_dvd dvd_def)
  have "x \<noteq> y" using x y assms(5) by (auto simp: word_unat_eq_iff)
  have lt: "n * x < n * q" "n * y < n * q" using x y q unat_lt_u64 [of a] unat_lt_u64 [of b] by simp_all
  then have xq: "x < q" "y < q" by simp_all
  have "n * y + i < n * q"
  proof -
    have "n * y + i < n * Suc y" using assms(6) by simp
    also have "\<dots> \<le> n * q" using xq(2) by (intro mult_le_mono2) simp
    finally show ?thesis .
  qed
  then have bi: "unat (b + of_nat i) = n * y + i"
    using y q assms(6) by (simp add: unat_word_ariths unat_of_nat)
  show ?thesis
  proof (cases "x < y")
    case True
    then have "n * Suc x \<le> n * y" by (intro mult_le_mono2) simp
    then show ?thesis using bi x True by (simp add: unat_sub_if')
  next
    case False
    with \<open>x \<noteq> y\<close> have "n * Suc y \<le> n * x" by (intro mult_le_mono2) simp
    moreover have "n * Suc x \<le> n * q" using xq(1) by (intro mult_le_mono2) simp
    ultimately show ?thesis using bi x q assms(6) by (simp add: unat_sub_if')
  qed
qed

lemma load64_store64_other:
  assumes "aligned 8 a" and "aligned 8 b" and "a \<noteq> b"
  shows "load64 (store64 a v m) b = load64 m b"
proof (rule load64_cong)
  fix i :: nat assume "i < 8"
  then have "8 \<le> unat (b + of_nat i - a)" using assms by (intro aligned_block_apart) simp_all
  then show "store64 a v m (b + of_nat i) = m (b + of_nat i)"
    by (simp add: store64_def store_bytes_out)
qed

section \<open>Copying\<close>

lemma copy_forward:
  assumes "\<And>j. j < k \<Longrightarrow> j \<le> unat (s + of_nat j - d)" and "k \<le> 2 ^ 64"
  shows "fold (copy_byte d s) [0..<k] m =
    (\<lambda>x. if unat (x - d) < k then m (s + (x - d)) else m x)"
  using assms
proof (induction k)
  case (Suc k)
  have "k \<le> unat (s + of_nat k - d)" by (rule Suc.prems(1)) simp
  then have far: "\<not> unat (s + of_nat k - d) < k" by simp
  have IH: "fold (copy_byte d s) [0..<k] m = (\<lambda>x. if unat (x - d) < k then m (s + (x - d)) else m x)"
    using Suc by simp
  have eq: "fold (copy_byte d s) [0..<Suc k] m =
      copy_byte d s k (\<lambda>x. if unat (x - d) < k then m (s + (x - d)) else m x)"
    by (simp add: IH)
  show ?case
    unfolding eq using far Suc.prems(2) by (auto simp: copy_byte_def fun_eq_iff less_Suc_eq addr_eq_iff)
qed simp

lemma copy_backward:
  assumes "\<And>j. k \<le> j \<Longrightarrow> j < n \<Longrightarrow> unat (s + of_nat j - d) \<le> j \<or> n \<le> unat (s + of_nat j - d)"
    and "n \<le> 2 ^ 64" and "k \<le> n"
  shows "fold (copy_byte d s) (rev [k..<n]) m =
    (\<lambda>x. if k \<le> unat (x - d) \<and> unat (x - d) < n then m (s + (x - d)) else m x)"
  using assms(3,1)
proof (induction "n - k" arbitrary: k)
  case 0
  then show ?case by (auto simp: fun_eq_iff)
next
  case (Suc l)
  then have k: "k < n" by simp
  have IH: "fold (copy_byte d s) (rev [Suc k..<n]) m =
      (\<lambda>x. if Suc k \<le> unat (x - d) \<and> unat (x - d) < n then m (s + (x - d)) else m x)"
    using Suc(1) [of "Suc k"] Suc(2,4) k by simp
  have far: "\<not> (Suc k \<le> unat (s + of_nat k - d) \<and> unat (s + of_nat k - d) < n)"
    using Suc(4) [of k] k by auto
  have eq: "fold (copy_byte d s) (rev [k..<n]) m = copy_byte d s k
      (\<lambda>x. if Suc k \<le> unat (x - d) \<and> unat (x - d) < n then m (s + (x - d)) else m x)"
    using k by (simp add: upt_conv_Cons IH)
  show ?case
    unfolding eq using far k assms(2) by (auto simp: copy_byte_def fun_eq_iff addr_eq_iff)
qed

lemma memmove_apply:
  assumes "unat s + n < 2 ^ 64" and "unat d + n < 2 ^ 64"
  shows "memmove d s n m = (\<lambda>x. if unat (x - d) < n then m (s + (x - d)) else m x)"
proof -
  have sn: "unat (s + of_nat j) = unat s + j" if "j \<le> n" for j
    using assms(1) that by (simp add: unat_word_ariths unat_of_nat)
  consider "n = 0" | "n \<noteq> 0" "s < d" "unat d < unat s + n" | "n \<noteq> 0" "\<not> (s < d \<and> unat d < unat s + n)"
    by blast
  then show ?thesis
  proof cases
    case 1
    then show ?thesis by (simp add: memmove_def)
  next
    case 2
    then have "unat s < unat d" by (simp add: word_less_nat_alt)
    then have "unat (s + of_nat j - d) \<le> j \<or> n \<le> unat (s + of_nat j - d)" if "j < n" for j
      using assms sn [of j] that by (auto simp: unat_sub_if')
    with 2 assms sn [of n] show ?thesis
      using copy_backward [of 0 n s d m] by (simp add: memmove_def word_less_nat_alt)
  next
    case 3
    then have "unat d \<le> unat s \<or> unat s + n \<le> unat d" by (auto simp: word_less_nat_alt)
    then have "j \<le> unat (s + of_nat j - d)" if "j < n" for j
      using assms sn [of j] that by (auto simp: unat_sub_if')
    with 3 assms sn [of n] show ?thesis
      using copy_forward [of n s d m] by (auto simp: memmove_def word_less_nat_alt)
  qed
qed

section \<open>Strings\<close>

text \<open>The characters of a C string in a buffer of \<open>n\<close> bytes.\<close>

abbreviation cstr :: "u8 list \<Rightarrow> u8 list" where
  "cstr bs \<equiv> takeWhile (\<lambda>c. c \<noteq> 0) bs"

text \<open>What \<open>strncpy\<close> leaves in a field of \<open>n\<close> bytes.\<close>

definition strncpy_bytes :: "u8 list \<Rightarrow> nat \<Rightarrow> u8 list" where
  "strncpy_bytes t n = (let p = cstr (take n t) in p @ replicate (n - length p) 0)"

lemma load_bytes_0 [simp]: "load_bytes m a 0 = []"
  by (simp add: load_bytes_def)

lemma load_bytes_Suc: "load_bytes m a (Suc n) = m a # load_bytes m (a + 1) n"
  by (rule nth_equalityI) (simp_all add: nth_Cons' add.assoc)

lemma length_strncpy_bytes [simp]: "length (strncpy_bytes t n) = n"
  using length_takeWhile_le [of "\<lambda>c. c \<noteq> 0" "take n t"] by (simp add: strncpy_bytes_def Let_def)

lemma strncpy_bytes_Cons: "c \<noteq> 0 \<Longrightarrow> strncpy_bytes (c # cs) (Suc n) = c # strncpy_bytes cs n"
  by (simp add: strncpy_bytes_def Let_def)

lemma strncpy_apply:
  assumes "\<And>i. i < n \<Longrightarrow> n \<le> unat (t + of_nat i - s)" and "n \<le> 2 ^ 64"
  shows "strncpy s t n m = store_bytes s (strncpy_bytes (load_bytes m t n) n) m"
  using assms
proof (induction s t n m rule: strncpy.induct)
  case (1 s t m)
  then show ?case by (simp add: store_bytes_def strncpy_bytes_def)
next
  case (2 s t n m)
  let ?m' = "m(s := m t)"
  have apart: "n < unat (t + 1 + of_nat i - (s + 1))" if "i < n" for i
    using 2(2) [of i] that by (simp add: algebra_simps)
  have same: "load_bytes ?m' (t + 1) n = load_bytes m (t + 1) n"
  proof (rule load_bytes_cong)
    fix i assume "i < n"
    then have "Suc n \<le> unat (t + of_nat (Suc i) - s)" using 2(2) [of "Suc i"] by simp
    then have "t + 1 + of_nat i \<noteq> s" by (auto simp: algebra_simps)
    then show "?m' (t + 1 + of_nat i) = m (t + 1 + of_nat i)" by simp
  qed
  have split: "store_bytes (s + 1) bs ?m' = store_bytes s (m t # bs) m" if "length bs = n" for bs
  proof
    fix x
    have "x = s \<longleftrightarrow> unat (x - s) = 0" by (simp add: unat_eq_0)
    moreover have "unat (x - (s + 1)) = unat (x - s) - 1" if "x \<noteq> s"
      using unat_minus_one [of "x - s"] that by (simp add: algebra_simps)
    moreover have "n \<le> unat (x - (s + 1))" if "x = s"
      using that 2(3) by (simp add: unsigned_minus_1_eq_mask mask_eq_exp_minus_1)
    ultimately show "store_bytes (s + 1) bs ?m' x = store_bytes s (m t # bs) m x"
      using that by (auto simp: store_bytes_def nth_Cons' dest: gr0_implies_Suc)
  qed
  show ?case
  proof (cases "m t = 0")
    case True
    have "strncpy s t (Suc n) m = store_bytes (s + 1) (replicate n 0) ?m'"
      using True 2(3) fold_write [of n "s + 1" "\<lambda>_. 0" ?m']
      by (auto simp: Let_def store_bytes_def fun_eq_iff)
    with True split [of "replicate n 0"] show ?thesis
      by (simp add: load_bytes_Suc strncpy_bytes_def)
  next
    case False
    have "strncpy (s + 1) (t + 1) n ?m' =
        store_bytes (s + 1) (strncpy_bytes (load_bytes ?m' (t + 1) n) n) ?m'"
      by (rule 2(1) [OF refl False]) (use apart 2(3) in \<open>auto intro: less_imp_le\<close>)
    with False have "strncpy s t (Suc n) m =
        store_bytes (s + 1) (strncpy_bytes (load_bytes m (t + 1) n) n) ?m'"
      unfolding same by (simp add: Let_def)
    with False split [OF length_strncpy_bytes [of "load_bytes m (t + 1) n" n]] show ?thesis
      by (simp only: load_bytes_Suc strncpy_bytes_Cons [OF False])
  qed
qed

lemma strncmp_zero_iff:
  "strncmp p q n m = 0 \<longleftrightarrow> cstr (load_bytes m p n) = cstr (load_bytes m q n)"
  by (induction p q n m rule: strncmp.induct) (auto simp: load_bytes_Suc word_uint_eq_iff)

lemma memcmp_zero_iff:
  "memcmp p q n m = 0 \<longleftrightarrow> load_bytes m p n = load_bytes m q n"
  by (induction p q n m rule: memcmp.induct) (auto simp: load_bytes_Suc word_uint_eq_iff)

lemma strlen_Some:
  assumes "\<And>i. i < k \<Longrightarrow> m (s + of_nat i) \<noteq> 0" and "m (s + of_nat k) = 0"
  shows "strlen s m = Some k"
proof -
  have "strlen_from s n m = Some k" if "n \<le> k" for n
    using that
  proof (induction "k - n" arbitrary: n)
    case 0
    then show ?case using assms(2) by (simp add: strlen_from.simps)
  next
    case (Suc l)
    then show ?case using assms(1) [of n] by (subst strlen_from.simps) simp
  qed
  then show ?thesis by (simp add: strlen_def)
qed

text \<open>
  C11: \<open>memmove\<close> is correct for every overlap. As long as neither range wraps
  around the address space, after the call the \<open>n\<close> bytes at the destination are the
  bytes that were at the source before it, and no other byte has changed.
\<close>

theorem memmove_correct:
  assumes "unat src + n < 2 ^ 64" and "unat dst + n < 2 ^ 64"
  shows "load_bytes (memmove dst src n m) dst n = load_bytes m src n \<and>
    (\<forall>x. n \<le> unat (x - dst) \<longrightarrow> memmove dst src n m x = m x)"
  using assms by (simp add: memmove_apply list_eq_iff_nth_eq)

theorem memmove_correct_witness:
  "load_bytes (memmove 0x80000004 0x80000000 8 (\<lambda>a. ucast a)) 0x80000004 8 = [0, 1, 2, 3, 4, 5, 6, 7]"
  using memmove_correct [of "0x80000000" 8 "0x80000004" "\<lambda>a. ucast a"]
  by (simp add: load_bytes_def upt_rec)

end
