(* ===== verification/Riscv.thy ===== *)
theory Riscv
  imports CMemory
begin

text \<open>
  The paging macros of \<open>kernel/riscv.h\<close> and the memory layout of
  \<open>kernel/memlayout.h\<close>, with the arithmetic facts the memory code relies on:
  rounding to pages, packing an address into a page-table entry, and the split of a
  virtual address into its three 9-bit indices and a page offset.
\<close>

unbundle bit_operations_syntax

section \<open>The macros\<close>

definition PGSIZE :: u64 where "PGSIZE = 4096"
definition PGSHIFT :: nat where "PGSHIFT = 12"

definition PGROUNDUP :: "u64 \<Rightarrow> u64" where
  "PGROUNDUP sz = (sz + PGSIZE - 1) AND NOT (PGSIZE - 1)"

definition PGROUNDDOWN :: "u64 \<Rightarrow> u64" where
  "PGROUNDDOWN a = a AND NOT (PGSIZE - 1)"

definition PTE_V :: u64 where "PTE_V = push_bit 0 1"
definition PTE_R :: u64 where "PTE_R = push_bit 1 1"
definition PTE_W :: u64 where "PTE_W = push_bit 2 1"
definition PTE_X :: u64 where "PTE_X = push_bit 3 1"
definition PTE_U :: u64 where "PTE_U = push_bit 4 1"

definition PA2PTE :: "u64 \<Rightarrow> u64" where "PA2PTE pa = push_bit 10 (drop_bit 12 pa)"
definition PTE2PA :: "u64 \<Rightarrow> u64" where "PTE2PA pte = push_bit 12 (drop_bit 10 pte)"
definition PTE_FLAGS :: "u64 \<Rightarrow> u64" where "PTE_FLAGS pte = pte AND 0x3FF"

definition PXMASK :: u64 where "PXMASK = 0x1FF"
definition PXSHIFT :: "nat \<Rightarrow> nat" where "PXSHIFT level = PGSHIFT + 9 * level"
definition PX :: "nat \<Rightarrow> u64 \<Rightarrow> u64" where "PX level va = drop_bit (PXSHIFT level) va AND PXMASK"
definition MAXVA :: u64 where "MAXVA = push_bit (9 + 9 + 9 + 12 - 1) 1"

definition KERNBASE :: u64 where "KERNBASE = 0x80000000"
definition PHYSTOP :: u64 where "PHYSTOP = KERNBASE + 128 * 1024 * 1024"
definition TRAMPOLINE :: u64 where "TRAMPOLINE = MAXVA - PGSIZE"
definition KSTACK :: "nat \<Rightarrow> u64" where "KSTACK p = TRAMPOLINE - (of_nat p + 1) * 2 * PGSIZE"
definition TRAPFRAME :: u64 where "TRAPFRAME = TRAMPOLINE - PGSIZE"
definition UART0 :: u64 where "UART0 = 0x10000000"
definition VIRTIO0 :: u64 where "VIRTIO0 = 0x10001000"
definition PLIC :: u64 where "PLIC = 0x0c000000"

section \<open>Rounding\<close>

lemma PGROUNDDOWN_shift: "PGROUNDDOWN a = push_bit 12 (drop_bit 12 a)"
proof -
  have m: "PGSIZE - 1 = mask 12" by (simp add: PGSIZE_def mask_eq_exp_minus_1)
  show ?thesis
    unfolding PGROUNDDOWN_def m
    by (rule bit_word_eqI) (auto simp: bit_and_iff bit_not_iff bit_mask_iff bit_push_bit_iff bit_drop_bit_eq)
qed

lemma unat_PGROUNDDOWN: "unat (PGROUNDDOWN a) = unat a div 4096 * 4096"
proof -
  have "unat a div 4096 * 4096 < 2 ^ 64"
    using unat_lt_u64 [of a] by (metis div_times_less_eq_dividend le_less_trans)
  then show ?thesis
    unfolding PGROUNDDOWN_shift unsigned_push_bit_eq unsigned_drop_bit_eq
    by (simp add: push_bit_eq_mult drop_bit_eq_div take_bit_eq_mod)
qed

lemma unat_PGROUNDUP:
  assumes "unat a + 4095 < 2 ^ 64"
  shows "unat (PGROUNDUP a) = (unat a + 4095) div 4096 * 4096"
proof -
  have "PGROUNDUP a = PGROUNDDOWN (a + 4095)" by (simp add: PGROUNDUP_def PGROUNDDOWN_def PGSIZE_def add.commute)
  then show ?thesis using assms by (simp add: unat_PGROUNDDOWN unat_word_ariths)
qed

lemma aligned_PGROUNDDOWN [simp]: "aligned 4096 (PGROUNDDOWN a)"
  by (simp add: aligned_def unat_PGROUNDDOWN)

lemma PGROUNDDOWN_le: "unat (PGROUNDDOWN a) \<le> unat a"
  by (simp add: unat_PGROUNDDOWN)

lemma PGROUNDDOWN_offset: "unat (a - PGROUNDDOWN a) = unat a mod 4096"
  using PGROUNDDOWN_le [of a] by (simp add: unat_sub_if' unat_PGROUNDDOWN minus_div_mult_eq_mod)

lemma PGROUNDDOWN_aligned [simp]: "aligned 4096 a \<Longrightarrow> PGROUNDDOWN a = a"
  by (simp add: word_unat_eq_iff unat_PGROUNDDOWN aligned_def mod_eq_0_iff_dvd dvd_div_mult_self)

section \<open>Page-table entries\<close>

lemma bit_below:
  fixes x :: u64
  assumes "unat x < 2 ^ k" and "bit x n"
  shows "n < k"
proof -
  have "take_bit k (unat x) = unat x" using assms(1) by (simp add: take_bit_nat_eq_self)
  moreover have "bit (unat x) n" using assms(2) by (auto simp: bit_unsigned_iff dest: bit_imp_le_length)
  ultimately show ?thesis by (metis bit_take_bit_iff)
qed

lemma bit_aligned:
  fixes x :: u64
  assumes "aligned (2 ^ k) x" and "bit x n"
  shows "k \<le> n"
proof -
  have "take_bit k (unat x) = 0" using assms(1) by (simp add: aligned_def take_bit_eq_mod)
  moreover have "bit (unat x) n" using assms(2) by (auto simp: bit_unsigned_iff dest: bit_imp_le_length)
  ultimately show ?thesis by (metis bit_0_eq bit_take_bit_iff bot_apply bot_bool_def not_less)
qed

lemmas bit_ops = bit_and_iff bit_or_iff bit_not_iff bit_mask_iff bit_push_bit_iff bit_drop_bit_eq

lemma PTE2PA_flags:
  assumes "aligned 4096 pa" and "unat pa < 2 ^ 56" and "unat flags < 2 ^ 10"
  shows "PTE2PA (PA2PTE pa OR flags) = pa" and "PTE_FLAGS (PA2PTE pa OR flags) = flags"
proof -
  have m: "(0x3FF::u64) = mask 10" by (simp add: mask_eq_exp_minus_1)
  have pa: "12 \<le> n" "n < 56" if "bit pa n" for n
    using bit_aligned [of 12 pa n] bit_below [OF assms(2) that] assms(1) that by simp_all
  have fl: "n < 10" if "bit flags n" for n by (rule bit_below [OF assms(3) that])
  show "PTE2PA (PA2PTE pa OR flags) = pa"
  proof (rule bit_word_eqI)
    fix n assume "n < LENGTH(64)"
    then show "bit (PTE2PA (PA2PTE pa OR flags)) n = bit pa n"
      using pa [of n] fl [of "n - 12 + 10"] by (auto simp: PTE2PA_def PA2PTE_def bit_ops)
  qed
  show "PTE_FLAGS (PA2PTE pa OR flags) = flags"
    unfolding PTE_FLAGS_def m
  proof (rule bit_word_eqI)
    fix n assume "n < LENGTH(64)"
    then show "bit ((PA2PTE pa OR flags) AND mask 10) n = bit flags n"
      using fl [of n] by (auto simp: PA2PTE_def bit_ops)
  qed
qed

section \<open>Virtual addresses\<close>

lemma unat_PX: "unat (PX level va) = unat va div 2 ^ (12 + 9 * level) mod 512"
proof -
  have "PXMASK = mask 9" by (simp add: PXMASK_def mask_eq_exp_minus_1)
  then have "PX level va = take_bit 9 (drop_bit (12 + 9 * level) va)"
    by (simp add: PX_def PXSHIFT_def PGSHIFT_def take_bit_eq_mask)
  then have "unat (PX level va) = take_bit 9 (drop_bit (12 + 9 * level) (take_bit LENGTH(64) (unat va)))"
    by (simp only: unsigned_take_bit_eq unsigned_drop_bit_eq)
  then show ?thesis using unat_lt_u64 [of va]
    by (simp add: take_bit_eq_mod drop_bit_eq_div)
qed

lemma unat_MAXVA: "unat MAXVA = 2 ^ 38"
  by (simp add: MAXVA_def)

text \<open>Below \<open>MAXVA\<close>, the three indices determine the page.\<close>

lemma PX_inj:
  assumes "va < MAXVA" and "vb < MAXVA" and "aligned 4096 va" and "aligned 4096 vb"
    and "PX 2 va = PX 2 vb" and "PX 1 va = PX 1 vb" and "PX 0 va = PX 0 vb"
  shows "va = vb"
proof -
  have split: "unat v = ((unat v div 1073741824 mod 512) * 1073741824 + (unat v div 2097152 mod 512) * 2097152
      + (unat v div 4096 mod 512) * 4096)" if v: "v < MAXVA" and al: "aligned 4096 v" for v
  proof -
    have lt: "unat v < 2 ^ 38" using v by (simp add: word_less_nat_alt unat_MAXVA)
    obtain p where p: "unat v = 4096 * p" using al by (auto simp: aligned_def mod_eq_0_iff_dvd dvd_def)
    have e: "unat v div 4096 = p" "unat v div 2097152 = p div 512" "unat v div 1073741824 = p div 512 div 512"
      using p by (simp_all add: div_mult2_eq [of _ 4096 512, simplified, symmetric] div_mult2_eq)
    define q r where qr: "q = p div 512" "r = q div 512"
    have "r < 512" using lt p by (simp add: qr div_mult2_eq [symmetric] less_mult_imp_div_less)
    then have "r mod 512 = r" by simp
    moreover have "p = q * 512 + p mod 512" "q = r * 512 + q mod 512" by (simp_all add: qr)
    ultimately have "p = (r mod 512) * 512 * 512 + (q mod 512) * 512 + p mod 512" by linarith
    then have "p = (p div 512 div 512 mod 512) * 512 * 512 + (p div 512 mod 512) * 512 + p mod 512"
      unfolding qr .
    then show ?thesis unfolding e using p by linarith
  qed
  have "unat va div 1073741824 mod 512 = unat vb div 1073741824 mod 512"
    "unat va div 2097152 mod 512 = unat vb div 2097152 mod 512"
    "unat va div 4096 mod 512 = unat vb div 4096 mod 512"
    using assms(5-7) unat_PX [of 2 va] unat_PX [of 2 vb] unat_PX [of 1 va] unat_PX [of 1 vb]
      unat_PX [of 0 va] unat_PX [of 0 vb] by simp_all
  with split [OF assms(1,3)] split [OF assms(2,4)] have "unat va = unat vb" by simp
  then show ?thesis by (simp add: word_unat_eq_iff)
qed

end
