(* ===== verification/Kalloc.thy ===== *)
theory Kalloc
  imports Riscv
begin

text \<open>
  The physical page allocator of \<open>kernel/kalloc.c\<close>. The free list is threaded
  through the free pages themselves, so the state is the physical memory and the
  head of the list; \<open>km_end\<close> is the linker symbol \<open>end\<close>. The list is abstracted
  to the set of free pages, and the allocator is shown to implement a pool of pages:
  a locale states the contract and carries the client's view that no page is handed
  out twice and none is lost.
\<close>

section \<open>The code\<close>

record kmem =
  km_mem :: pmem
  km_freelist :: u64
  km_end :: u64

definition kfree :: "u64 \<Rightarrow> ('z kmem_scheme, unit) kop" where
  "kfree pa s =
     (if pa mod PGSIZE \<noteq> 0 \<or> pa < km_end s \<or> pa \<ge> PHYSTOP then Panic ''kfree''
      else let m = memset pa 1 4096 (km_mem s)
           in Ret () (s\<lparr>km_mem := store64 pa (km_freelist s) m, km_freelist := pa\<rparr>))"

definition kalloc :: "('z kmem_scheme, u64) kop" where
  "kalloc s =
     (let r = km_freelist s in
      if r \<noteq> 0
      then Ret r (s\<lparr>km_freelist := load64 (km_mem s) r, km_mem := memset r 5 4096 (km_mem s)\<rparr>)
      else Ret 0 s)"

text \<open>
  The loop of \<open>freerange\<close>. A pointer that runs past the end of the address space is
  undefined in C, which is the outcome \<^const>\<open>Fault\<close>.
\<close>

function freerange_loop :: "u64 \<Rightarrow> u64 \<Rightarrow> ('z kmem_scheme, unit) kop" where
  "freerange_loop p pa_end s =
     (if p + PGSIZE < p then Fault
      else if p + PGSIZE \<le> pa_end then
        (case kfree p s of
           Ret _ s' \<Rightarrow> freerange_loop (p + PGSIZE) pa_end s'
         | Panic msg \<Rightarrow> Panic msg | Sleeps s' \<Rightarrow> Sleeps s' | Fault \<Rightarrow> Fault)
      else Ret () s)"
  by pat_completeness auto
termination
proof (relation "measure (\<lambda>(p, e, s). unat e - unat p)")
  fix p e :: u64 and s s' :: "'z kmem_scheme" and u :: unit
  assume le: "\<not> p + PGSIZE < p" "p + PGSIZE \<le> e"
  have "p + PGSIZE \<noteq> p" by (simp add: PGSIZE_def)
  with le(1) have "p < p + PGSIZE" by (simp add: not_less order_less_le)
  with le(2) have "unat p < unat (p + PGSIZE)" "unat (p + PGSIZE) \<le> unat e"
    by (simp_all add: word_le_nat_alt word_less_nat_alt)
  then show "((p + PGSIZE, e, s'), p, e, s) \<in> measure (\<lambda>(p, e, s). unat e - unat p)" by auto
qed auto

declare freerange_loop.simps [simp del]

definition freerange :: "u64 \<Rightarrow> u64 \<Rightarrow> ('z kmem_scheme, unit) kop" where
  "freerange pa_start pa_end s = freerange_loop (PGROUNDUP pa_start) pa_end s"

definition kinit :: "('z kmem_scheme, unit) kop" where
  "kinit s = freerange (km_end s) PHYSTOP s"

section \<open>The free list\<close>

fun flist :: "pmem \<Rightarrow> u64 \<Rightarrow> u64 list \<Rightarrow> bool" where
  "flist m p [] \<longleftrightarrow> p = 0"
| "flist m p (x # xs) \<longleftrightarrow> p = x \<and> x \<noteq> 0 \<and> flist m (load64 m x) xs"

definition kpage :: "'z kmem_scheme \<Rightarrow> u64 \<Rightarrow> bool" where
  "kpage s a \<longleftrightarrow> aligned 4096 a \<and> km_end s \<le> a \<and> a < PHYSTOP"

definition kmem_list :: "'z kmem_scheme \<Rightarrow> u64 list \<Rightarrow> bool" where
  "kmem_list s xs \<longleftrightarrow> flist (km_mem s) (km_freelist s) xs \<and> distinct xs \<and>
     (\<forall>x \<in> set xs. kpage s x) \<and> km_end s \<noteq> 0"

text \<open>Memory that differs from \<open>m\<close> at most in the page at \<open>a\<close>.\<close>

definition same_outside :: "u64 \<Rightarrow> pmem \<Rightarrow> pmem \<Rightarrow> bool" where
  "same_outside a m m' \<longleftrightarrow> (\<forall>x. 4096 \<le> unat (x - a) \<longrightarrow> m' x = m x)"

lemma kpage_mod: "aligned 4096 a \<longleftrightarrow> a mod PGSIZE = 0"
  by (simp add: aligned_def PGSIZE_def word_unat_eq_iff unat_mod_distrib)

lemma same_outside_memset: "same_outside a m (memset a c 4096 m)"
  by (simp add: same_outside_def memset_apply)

lemma same_outside_store64:
  assumes "same_outside a m m'"
  shows "same_outside a m (store64 a v m')"
  using assms by (simp add: same_outside_def store64_def store_bytes_out)

lemma load64_outside:
  assumes "same_outside a m m'" and "aligned 4096 a" and "aligned 4096 b" and "a \<noteq> b"
  shows "load64 m' b = load64 m b"
proof (rule load64_cong)
  fix i :: nat assume "i < 8"
  then have "4096 \<le> unat (b + of_nat i - a)"
    using assms(2-4) by (intro aligned_block_apart) simp_all
  with assms(1) show "m' (b + of_nat i) = m (b + of_nat i)" by (simp add: same_outside_def)
qed

lemma flist_outside:
  assumes "flist m p xs" and "same_outside a m m'" and "aligned 4096 a"
    and "\<forall>x \<in> set xs. aligned 4096 x" and "a \<notin> set xs"
  shows "flist m' p xs"
  using assms(1,4,5)
proof (induction xs arbitrary: p)
  case (Cons x xs)
  then have "load64 m' x = load64 m x"
    by (intro load64_outside [OF assms(2,3)]) auto
  with Cons show ?case by simp
qed simp

lemma kalloc_list:
  assumes "kmem_list s (x # xs)"
  shows "\<exists>s'. kalloc s = Ret x s' \<and> kmem_list s' xs \<and> km_end s' = km_end s \<and>
    same_outside x (km_mem s) (km_mem s') \<and> (\<forall>y. unat (y - x) < 4096 \<longrightarrow> km_mem s' y = 5)"
proof -
  from assms have x: "km_freelist s = x" "x \<noteq> 0" "aligned 4096 x"
    and xs: "flist (km_mem s) (load64 (km_mem s) x) xs" "\<forall>y \<in> set xs. aligned 4096 y" "x \<notin> set xs"
    by (auto simp: kmem_list_def kpage_def)
  have "flist (memset x 5 4096 (km_mem s)) (load64 (km_mem s) x) xs"
    by (rule flist_outside [OF xs(1) same_outside_memset x(3) xs(2,3)])
  with assms x show ?thesis
    by (auto simp: kalloc_def Let_def kmem_list_def kpage_def same_outside_def memset_apply)
qed

lemma kalloc_empty: "kmem_list s [] \<Longrightarrow> kalloc s = Ret 0 s"
  by (simp add: kmem_list_def kalloc_def)

lemma kfree_list:
  assumes "kmem_list s xs" and "kpage s pa" and "pa \<notin> set xs"
  shows "\<exists>s'. kfree pa s = Ret () s' \<and> kmem_list s' (pa # xs) \<and> km_end s' = km_end s \<and>
    same_outside pa (km_mem s) (km_mem s')"
proof -
  let ?m = "store64 pa (km_freelist s) (memset pa 1 4096 (km_mem s))"
  have same: "same_outside pa (km_mem s) ?m"
    by (rule same_outside_store64 [OF same_outside_memset])
  from assms have al: "aligned 4096 pa" "\<forall>x \<in> set xs. aligned 4096 x" "pa \<noteq> 0"
    by (auto simp: kmem_list_def kpage_def)
  have "flist ?m (km_freelist s) xs"
    by (rule flist_outside [OF _ same al(1,2) assms(3)]) (use assms(1) in \<open>simp add: kmem_list_def\<close>)
  with assms al same show ?thesis
    by (auto simp: kfree_def Let_def kmem_list_def kpage_def kpage_mod [symmetric])
qed

lemma kfree_panic: "\<not> kpage s pa \<Longrightarrow> kfree pa s = Panic ''kfree''"
proof -
  assume "\<not> kpage s pa"
  then have "pa mod PGSIZE \<noteq> 0 \<or> pa < km_end s \<or> pa \<ge> PHYSTOP"
    unfolding kpage_def kpage_mod by (meson not_le)
  then show ?thesis unfolding kfree_def by (rule if_P)
qed

section \<open>The contract\<close>

text \<open>
  What the rest of the kernel relies on: a pool of pages. \<open>pool s U F\<close> says that
  of the pages \<open>U\<close> the allocator manages, the pages \<open>F\<close> are free. A client
  calls the two operations in any order and frees only pages it was given; it is
  the function \<open>client_run\<close>, with the pages it holds as a list.
\<close>

datatype pgop = DoAlloc | DoFree nat

fun client_run :: "('s, u64) kop \<Rightarrow> (u64 \<Rightarrow> ('s, unit) kop) \<Rightarrow> pgop list \<Rightarrow> u64 list \<Rightarrow>
    ('s, u64 list) kop" where
  "client_run alloc free [] held s = Ret held s"
| "client_run alloc free (DoAlloc # ops) held s =
     kbind alloc (\<lambda>x. client_run alloc free ops (if x = 0 then held else x # held)) s"
| "client_run alloc free (DoFree i # ops) held s =
     (if i < length held
      then kseq (free (held ! i)) (client_run alloc free ops (remove1 (held ! i) held)) s
      else client_run alloc free ops held s)"

locale page_pool =
  fixes alloc :: "('s, u64) kop"
    and free :: "u64 \<Rightarrow> ('s, unit) kop"
    and pool :: "'s \<Rightarrow> u64 set \<Rightarrow> u64 set \<Rightarrow> bool"
  assumes pool_sub: "pool s U F \<Longrightarrow> F \<subseteq> U \<and> 0 \<notin> U"
    and alloc_some: "pool s U F \<Longrightarrow> F \<noteq> {} \<Longrightarrow> \<exists>x s'. x \<in> F \<and> alloc s = Ret x s' \<and> pool s' U (F - {x})"
    and alloc_none: "pool s U {} \<Longrightarrow> alloc s = Ret 0 s"
    and free_page: "pool s U F \<Longrightarrow> x \<in> U \<Longrightarrow> x \<notin> F \<Longrightarrow>
      \<exists>s'. free x s = Ret () s' \<and> pool s' U (insert x F)"
begin

lemma client_run_ok:
  assumes "pool s U F" and "distinct held" and "set held \<inter> F = {}" and "set held \<union> F = U"
  shows "\<exists>held' s' F'. client_run alloc free ops held s = Ret held' s' \<and> pool s' U F' \<and>
    distinct held' \<and> set held' \<inter> F' = {} \<and> set held' \<union> F' = U"
  using assms
proof (induction ops arbitrary: held s F)
  case Nil
  then show ?case by auto
next
  case (Cons op ops)
  show ?case
  proof (cases op)
    case DoAlloc
    show ?thesis
    proof (cases "F = {}")
      case True
      with Cons.prems(1) have "alloc s = Ret 0 s" by (auto intro: alloc_none)
      with Cons.IH [OF Cons.prems] show ?thesis by (simp add: DoAlloc)
    next
      case False
      with alloc_some [OF Cons.prems(1)] obtain x s' where
        x: "x \<in> F" "alloc s = Ret x s'" "pool s' U (F - {x})" by blast
      have "x \<noteq> 0" using pool_sub [OF Cons.prems(1)] x(1) by auto
      moreover have "distinct (x # held)" "set (x # held) \<inter> (F - {x}) = {}" "set (x # held) \<union> (F - {x}) = U"
        using Cons.prems(2-4) x(1) by auto
      ultimately show ?thesis using Cons.IH [OF x(3)] x(2) by (simp add: DoAlloc)
    qed
  next
    case (DoFree i)
    show ?thesis
    proof (cases "i < length held")
      case True
      let ?x = "held ! i"
      have x: "?x \<in> set held" using True by simp
      with Cons.prems(3,4) have "?x \<in> U" "?x \<notin> F" by auto
      with free_page [OF Cons.prems(1)] obtain s' where
        s': "free ?x s = Ret () s'" "pool s' U (insert ?x F)" by blast
      have "distinct (remove1 ?x held)" "set (remove1 ?x held) \<inter> insert ?x F = {}"
        "set (remove1 ?x held) \<union> insert ?x F = U"
        using Cons.prems(2-4) x by (auto simp: set_remove1_eq)
      from Cons.IH [OF s'(2) this] s'(1) True show ?thesis by (simp add: DoFree kseq_def)
    next
      case False
      with Cons.IH [OF Cons.prems] show ?thesis by (simp add: DoFree)
    qed
  qed
qed

end

definition kmem_pool :: "'z kmem_scheme \<Rightarrow> u64 set \<Rightarrow> u64 set \<Rightarrow> bool" where
  "kmem_pool s U F \<longleftrightarrow> (\<exists>xs. kmem_list s xs \<and> set xs = F) \<and> F \<subseteq> U \<and> (\<forall>x \<in> U. kpage s x)"

interpretation kpool: page_pool kalloc kfree kmem_pool
proof
  fix s :: "'z kmem_scheme" and U F :: "u64 set" and x :: u64
  assume pool: "kmem_pool s U F"
  then obtain xs where xs: "kmem_list s xs" "set xs = F" and U: "F \<subseteq> U" "\<forall>x \<in> U. kpage s x"
    by (auto simp: kmem_pool_def)
  show "F \<subseteq> U \<and> 0 \<notin> U" using xs(1) U by (auto simp: kmem_list_def kpage_def)
  show "\<exists>x s'. x \<in> F \<and> kalloc s = Ret x s' \<and> kmem_pool s' U (F - {x})" if "F \<noteq> {}"
  proof -
    from that xs obtain y ys where ys: "xs = y # ys" by (cases xs) auto
    with xs kalloc_list [of s y ys] obtain s' where
      s': "kalloc s = Ret y s'" "kmem_list s' ys" "km_end s' = km_end s" by blast
    have "set ys = F - {y}" using xs ys by (auto simp: kmem_list_def)
    with s' xs ys U show ?thesis
      by (intro exI [of _ y] exI [of _ s']) (auto simp: kmem_pool_def kpage_def)
  qed
  show "\<exists>s'. kfree x s = Ret () s' \<and> kmem_pool s' U (insert x F)" if "x \<in> U" "x \<notin> F"
  proof -
    from that xs U kfree_list [OF xs(1), of x] obtain s' where
      s': "kfree x s = Ret () s'" "kmem_list s' (x # xs)" "km_end s' = km_end s" by blast
    with that xs U show ?thesis
      by (intro exI [of _ s']) (auto simp: kmem_pool_def kpage_def intro!: exI [of _ "x # xs"])
  qed
next
  fix s :: "'z kmem_scheme" and U :: "u64 set"
  assume "kmem_pool s U {}"
  then show "kalloc s = Ret 0 s" by (auto simp: kmem_pool_def kalloc_empty)
qed

section \<open>Initialisation\<close>

lemma PHYSTOP_unat: "unat PHYSTOP = 0x88000000"
  by (simp add: PHYSTOP_def KERNBASE_def)

lemma page_next:
  assumes "aligned 4096 p" and "p \<le> PHYSTOP"
  shows "unat (p + PGSIZE) = unat p + 4096" and "aligned 4096 (p + PGSIZE)" and "\<not> p + PGSIZE < p"
proof -
  have "unat p \<le> 0x88000000" using assms(2) by (simp add: word_le_nat_alt PHYSTOP_unat)
  then show nx: "unat (p + PGSIZE) = unat p + 4096" by (simp add: PGSIZE_def unat_word_ariths)
  then show "aligned 4096 (p + PGSIZE)" "\<not> p + PGSIZE < p"
    using assms(1) by (simp_all add: aligned_def word_less_nat_alt)
qed

lemma dvd_gap: "n dvd a \<Longrightarrow> n dvd b \<Longrightarrow> a \<le> b \<Longrightarrow> b \<noteq> a \<Longrightarrow> a + n \<le> b" for a b :: nat
  using dvd_imp_le [of n "b - a"] by (auto simp: dvd_diff_nat)

lemma freerange_loop_list:
  assumes "kmem_list s xs" and "aligned 4096 p" and "km_end s \<le> p" and "p \<le> PHYSTOP" and "e \<le> PHYSTOP"
    and "\<forall>x \<in> set xs. x < p"
  shows "\<exists>s' ys. freerange_loop p e s = Ret () s' \<and> km_end s' = km_end s \<and> kmem_list s' ys \<and>
    set ys = set xs \<union> {a. aligned 4096 a \<and> p \<le> a \<and> unat a + 4096 \<le> unat e}"
  using assms
proof (induction p e s arbitrary: xs rule: freerange_loop.induct)
  case (1 p e s)
  note pn = page_next [OF 1(3,5)]
  show ?case
  proof (cases "p + PGSIZE \<le> e")
    case True
    then have lt: "unat p + 4096 \<le> unat e" by (simp add: word_le_nat_alt pn(1))
    have "unat p < unat PHYSTOP" using lt 1(6) by (simp add: word_le_nat_alt)
    then have page: "kpage s p" using 1(3,4) by (simp add: kpage_def word_less_nat_alt)
    from kfree_list [OF 1(2) page] 1(7) obtain s' where
      s': "kfree p s = Ret () s'" "kmem_list s' (p # xs)" "km_end s' = km_end s" by auto
    have "p + PGSIZE \<le> PHYSTOP" using True 1(6) by (rule order_trans)
    moreover have "km_end s' \<le> p + PGSIZE" using s'(3) 1(4) pn(1) by (simp add: word_le_nat_alt)
    moreover have "\<forall>x \<in> set (p # xs). x < p + PGSIZE"
      using 1(7) pn(1) by (auto simp: word_less_nat_alt)
    ultimately obtain s'' ys where r: "freerange_loop (p + PGSIZE) e s' = Ret () s''"
      "km_end s'' = km_end s'" "kmem_list s'' ys"
      "set ys = set (p # xs) \<union> {a. aligned 4096 a \<and> p + PGSIZE \<le> a \<and> unat a + 4096 \<le> unat e}"
      using 1(1) [OF pn(3) True s'(1) s'(2) pn(2) _ _ 1(6)] by blast
    have "{a. aligned 4096 a \<and> p \<le> a \<and> unat a + 4096 \<le> unat e} =
        insert p {a. aligned 4096 a \<and> p + PGSIZE \<le> a \<and> unat a + 4096 \<le> unat e}"
      using pn(1) 1(3) lt by (auto simp: word_le_nat_alt aligned_def word_unat_eq_iff intro: dvd_gap)
    with r s' True pn(3) show ?thesis by (auto simp: freerange_loop.simps [of p])
  next
    case False
    then have "{a. aligned 4096 a \<and> p \<le> a \<and> unat a + 4096 \<le> unat e} = {}"
      by (auto simp: word_le_nat_alt pn(1))
    with False pn(3) 1(2) show ?thesis by (auto simp: freerange_loop.simps [of p])
  qed
qed

definition kernel_pages :: "u64 \<Rightarrow> u64 set" where
  "kernel_pages e = {a. aligned 4096 a \<and> e \<le> a \<and> a < PHYSTOP}"

lemma round_up_le: "x \<le> (x + 4095) div 4096 * 4096" for x :: nat
proof -
  have "x + 4095 = (x + 4095) div 4096 * 4096 + (x + 4095) mod 4096" by simp
  moreover have "(x + 4095) mod 4096 \<le> 4095" by simp
  ultimately show ?thesis by linarith
qed

lemma round_up_le_iff: "(x + 4095) div 4096 * 4096 \<le> 4096 * q \<longleftrightarrow> x \<le> 4096 * q" for x q :: nat
proof
  assume "x \<le> 4096 * q"
  then have "(x + 4095) div 4096 \<le> (4096 * q + 4095) div 4096" by (intro div_le_mono) simp
  then show "(x + 4095) div 4096 * 4096 \<le> 4096 * q" by simp
qed (use round_up_le [of x] in linarith)

lemma kinit_pool:
  assumes "0 < km_end s" and "km_end s \<le> PHYSTOP" and "km_freelist s = 0"
  shows "\<exists>s'. kinit s = Ret () s' \<and> kmem_pool s' (kernel_pages (km_end s)) (kernel_pages (km_end s))"
proof -
  let ?p = "PGROUNDUP (km_end s)"
  have e: "unat (km_end s) \<le> 0x88000000" using assms(2) by (simp add: word_le_nat_alt PHYSTOP_unat)
  then have p: "unat ?p = (unat (km_end s) + 4095) div 4096 * 4096" by (intro unat_PGROUNDUP) simp
  have "kmem_list s []" using assms(1,3) by (auto simp: kmem_list_def)
  moreover have "aligned 4096 ?p" using p by (simp add: aligned_def)
  moreover have "km_end s \<le> ?p" unfolding word_le_nat_alt p
    by (rule round_up_le)
  moreover have "?p \<le> PHYSTOP"
  proof -
    have "(unat (km_end s) + 4095) div 4096 \<le> (0x88000000 + 4095) div 4096" using e by (intro div_le_mono) simp
    then show ?thesis unfolding word_le_nat_alt p PHYSTOP_unat by simp
  qed
  ultimately obtain s' ys where s': "freerange_loop ?p PHYSTOP s = Ret () s'" "km_end s' = km_end s"
    "kmem_list s' ys" "set ys = {a. aligned 4096 a \<and> ?p \<le> a \<and> unat a + 4096 \<le> unat PHYSTOP}"
    using freerange_loop_list [of s "[]" ?p PHYSTOP] by auto
  have "?p \<le> a \<and> unat a + 4096 \<le> unat PHYSTOP \<longleftrightarrow> km_end s \<le> a \<and> a < PHYSTOP" if "aligned 4096 a" for a
  proof -
    obtain q where q: "unat a = 4096 * q" using \<open>aligned 4096 a\<close>
      by (auto simp: aligned_def mod_eq_0_iff_dvd dvd_def)
    have "?p \<le> a \<longleftrightarrow> km_end s \<le> a"
      unfolding word_le_nat_alt p q by (rule round_up_le_iff)
    moreover have "unat a + 4096 \<le> unat PHYSTOP \<longleftrightarrow> a < PHYSTOP"
      unfolding word_less_nat_alt PHYSTOP_unat q by auto
    ultimately show ?thesis by blast
  qed
  then have "set ys = kernel_pages (km_end s)" unfolding s'(4) kernel_pages_def by blast
  with s' show ?thesis
    by (auto simp: kinit_def freerange_def kmem_pool_def kernel_pages_def kpage_def)
qed

text \<open>
  C12: the page allocator. After \<open>kinit\<close>, a client that allocates and frees in
  any order, freeing only what it holds, never causes a panic. The pages it holds
  are always distinct, all of them are page-aligned and between \<open>end\<close> and
  \<open>PHYSTOP\<close>, and the free list consists of exactly the other pages: nothing is
  handed out twice and nothing is lost.
\<close>

theorem allocator_correct:
  assumes "0 < km_end s" and "km_end s \<le> PHYSTOP" and "km_freelist s = 0"
  shows "\<exists>held s'. kseq kinit (client_run kalloc kfree ops []) s = Ret held s' \<and> distinct held \<and>
    set held \<subseteq> kernel_pages (km_end s) \<and>
    kmem_pool s' (kernel_pages (km_end s)) (kernel_pages (km_end s) - set held)"
proof -
  let ?U = "kernel_pages (km_end s)"
  obtain s1 where s1: "kinit s = Ret () s1" "kmem_pool s1 ?U ?U" using kinit_pool [OF assms] by blast
  from kpool.client_run_ok [OF s1(2), of "[]" ops] obtain held s' F where
    r: "client_run kalloc kfree ops [] s1 = Ret held s'" "kmem_pool s' ?U F" "distinct held"
      "set held \<inter> F = {}" "set held \<union> F = ?U" by auto
  then have "F = ?U - set held" by auto
  with s1 r show ?thesis by (auto simp: kseq_def)
qed

theorem allocator_correct_witness:
  "\<exists>held s'. kseq kinit (client_run kalloc kfree [DoAlloc, DoAlloc, DoFree 1, DoAlloc] [])
      \<lparr>km_mem = \<lambda>_. 0, km_freelist = 0, km_end = 0x80020000\<rparr> = Ret held s' \<and> distinct held \<and>
    set held \<subseteq> kernel_pages 0x80020000"
  using allocator_correct [of "\<lparr>km_mem = \<lambda>_. 0, km_freelist = 0, km_end = 0x80020000\<rparr>"
      "[DoAlloc, DoAlloc, DoFree 1, DoAlloc]"]
  by (auto simp: PHYSTOP_def KERNBASE_def)

end
