(* ===== verification/Vm.thy ===== *)
theory Vm
  imports Kalloc
begin

text \<open>
  Virtual memory, \<open>kernel/vm.c\<close>: the three-level page tables, which live in the
  physical memory of theory \<open>Kalloc\<close>, and the copies between kernel and user space.
  A page table is the address of its root page; a null return is 0. The buffer on
  the kernel side of \<open>copyout\<close>, \<open>copyin\<close> and \<open>copyinstr\<close> is a list of
  bytes: the bytes to be copied out, or the bytes that were written to the
  destination before the call returned.
\<close>

unbundle bit_operations_syntax

section \<open>The code\<close>

definition pte_at :: "u64 \<Rightarrow> u64 \<Rightarrow> u64" where
  "pte_at pagetable i = pagetable + 8 * i"

definition load_pte :: "u64 \<Rightarrow> ('z kmem_scheme, u64) kop" where
  "load_pte pte = kget (\<lambda>s. load64 (km_mem s) pte)"

definition store_pte :: "u64 \<Rightarrow> u64 \<Rightarrow> ('z kmem_scheme, unit) kop" where
  "store_pte pte v = kmod (\<lambda>s. s\<lparr>km_mem := store64 pte v (km_mem s)\<rparr>)"

definition zero_page :: "u64 \<Rightarrow> ('z kmem_scheme, unit) kop" where
  "zero_page a = kmod (\<lambda>s. s\<lparr>km_mem := memset a 0 4096 (km_mem s)\<rparr>)"

text \<open>The loop of \<open>walk\<close>, with the level counting down to 0.\<close>

primrec walk_loop :: "nat \<Rightarrow> u64 \<Rightarrow> u64 \<Rightarrow> bool \<Rightarrow> ('z kmem_scheme, u64) kop" where
  "walk_loop 0 pagetable va alloc = kret (pte_at pagetable (PX 0 va))"
| "walk_loop (Suc l) pagetable va alloc =
     (let pte = pte_at pagetable (PX (Suc l) va) in
      kbind (load_pte pte) (\<lambda>v.
        if v AND PTE_V \<noteq> 0 then walk_loop l (PTE2PA v) va alloc
        else if \<not> alloc then kret 0
        else kbind kalloc (\<lambda>page.
          if page = 0 then kret 0
          else kseq (zero_page page)
                 (kseq (store_pte pte (PA2PTE page OR PTE_V)) (walk_loop l page va alloc)))))"

definition walk :: "u64 \<Rightarrow> u64 \<Rightarrow> bool \<Rightarrow> ('z kmem_scheme, u64) kop" where
  "walk pagetable va alloc =
     (if va \<ge> MAXVA then kpanic ''walk'' else walk_loop 2 pagetable va alloc)"

definition walkaddr :: "u64 \<Rightarrow> u64 \<Rightarrow> ('z kmem_scheme, u64) kop" where
  "walkaddr pagetable va =
     (if va \<ge> MAXVA then kret 0
      else kbind (walk pagetable va False) (\<lambda>pte.
        if pte = 0 then kret 0
        else kbind (load_pte pte) (\<lambda>v.
          if v AND PTE_V = 0 then kret 0
          else if v AND PTE_U = 0 then kret 0
          else kret (PTE2PA v))))"

text \<open>
  The loop of \<open>mappages\<close>. The first argument bounds the number of iterations by the
  number of pages; the loop leaves at \<open>a == last\<close>, which is the last of them.
\<close>

primrec mappages_loop :: "nat \<Rightarrow> u64 \<Rightarrow> u64 \<Rightarrow> u64 \<Rightarrow> u64 \<Rightarrow> u64 \<Rightarrow> ('z kmem_scheme, int) kop" where
  "mappages_loop 0 pagetable a last_a pa perm = (\<lambda>s. Fault)"
| "mappages_loop (Suc n) pagetable a last_a pa perm =
     kbind (walk pagetable a True) (\<lambda>pte.
       if pte = 0 then kret (-1)
       else kbind (load_pte pte) (\<lambda>v.
         if v AND PTE_V \<noteq> 0 then kpanic ''mappages: remap''
         else kseq (store_pte pte (PA2PTE pa OR perm OR PTE_V))
           (if a = last_a then kret 0
            else mappages_loop n pagetable (a + PGSIZE) last_a (pa + PGSIZE) perm)))"

definition mappages :: "u64 \<Rightarrow> u64 \<Rightarrow> u64 \<Rightarrow> u64 \<Rightarrow> u64 \<Rightarrow> ('z kmem_scheme, int) kop" where
  "mappages pagetable va sz pa perm =
     (if va mod PGSIZE \<noteq> 0 then kpanic ''mappages: va not aligned''
      else if sz mod PGSIZE \<noteq> 0 then kpanic ''mappages: size not aligned''
      else if sz = 0 then kpanic ''mappages: size''
      else mappages_loop (unat sz div 4096) pagetable va (va + sz - PGSIZE) pa perm)"

definition uvmcreate :: "('z kmem_scheme, u64) kop" where
  "uvmcreate =
     kbind kalloc (\<lambda>pagetable.
       if pagetable = 0 then kret 0 else kseq (zero_page pagetable) (kret pagetable))"

text \<open>
  The loop of \<open>uvmunmap\<close>; the first argument bounds the iterations by \<open>npages\<close>.
\<close>

primrec uvmunmap_loop :: "nat \<Rightarrow> u64 \<Rightarrow> u64 \<Rightarrow> u64 \<Rightarrow> bool \<Rightarrow> ('z kmem_scheme, unit) kop" where
  "uvmunmap_loop 0 pagetable a e do_free = (if a < e then (\<lambda>s. Fault) else kret ())"
| "uvmunmap_loop (Suc n) pagetable a e do_free =
     (if a < e then
        kseq
          (kbind (walk pagetable a False) (\<lambda>pte.
             if pte = 0 then kret ()
             else kbind (load_pte pte) (\<lambda>v.
               if v AND PTE_V = 0 then kret ()
               else kseq (if do_free then kfree (PTE2PA v) else kret ()) (store_pte pte 0))))
          (uvmunmap_loop n pagetable (a + PGSIZE) e do_free)
      else kret ())"

definition uvmunmap :: "u64 \<Rightarrow> u64 \<Rightarrow> u64 \<Rightarrow> bool \<Rightarrow> ('z kmem_scheme, unit) kop" where
  "uvmunmap pagetable va npages do_free =
     (if va mod PGSIZE \<noteq> 0 then kpanic ''uvmunmap: not aligned''
      else uvmunmap_loop (unat npages) pagetable va (va + npages * PGSIZE) do_free)"

definition uvmdealloc :: "u64 \<Rightarrow> u64 \<Rightarrow> u64 \<Rightarrow> ('z kmem_scheme, u64) kop" where
  "uvmdealloc pagetable oldsz newsz =
     (if newsz \<ge> oldsz then kret oldsz
      else if PGROUNDUP newsz < PGROUNDUP oldsz then
        let npages = scast (ucast ((PGROUNDUP oldsz - PGROUNDUP newsz) div PGSIZE) :: u32)
        in kseq (uvmunmap pagetable (PGROUNDUP newsz) npages True) (kret newsz)
      else kret newsz)"

primrec uvmalloc_loop :: "nat \<Rightarrow> u64 \<Rightarrow> u64 \<Rightarrow> u64 \<Rightarrow> u64 \<Rightarrow> u64 \<Rightarrow> ('z kmem_scheme, u64) kop" where
  "uvmalloc_loop 0 pagetable a oldsz newsz xperm = (if a < newsz then (\<lambda>s. Fault) else kret newsz)"
| "uvmalloc_loop (Suc n) pagetable a oldsz newsz xperm =
     (if a < newsz then
        kbind kalloc (\<lambda>page.
          if page = 0 then kbind (uvmdealloc pagetable a oldsz) (\<lambda>_. kret 0)
          else kseq (zero_page page)
            (kbind (mappages pagetable a PGSIZE page (PTE_R OR PTE_U OR xperm)) (\<lambda>r.
               if r \<noteq> 0
               then kseq (kfree page) (kbind (uvmdealloc pagetable a oldsz) (\<lambda>_. kret 0))
               else uvmalloc_loop n pagetable (a + PGSIZE) oldsz newsz xperm)))
      else kret newsz)"

definition uvmalloc :: "u64 \<Rightarrow> u64 \<Rightarrow> u64 \<Rightarrow> u64 \<Rightarrow> ('z kmem_scheme, u64) kop" where
  "uvmalloc pagetable oldsz newsz xperm =
     (if newsz < oldsz then kret oldsz
      else let oldsz' = PGROUNDUP oldsz
           in uvmalloc_loop ((unat newsz - unat oldsz') div 4096 + 1) pagetable oldsz' oldsz' newsz xperm)"

text \<open>
  \<open>freewalk\<close> recurses into the tables a table refers to; the first argument bounds
  the depth, which is 3 for the tables that \<open>walk\<close> builds.
\<close>

primrec freewalk :: "nat \<Rightarrow> u64 \<Rightarrow> ('z kmem_scheme, unit) kop" where
  "freewalk 0 pagetable = (\<lambda>s. Fault)"
| "freewalk (Suc depth) pagetable =
     kseq
       (kfor [0..<512] (\<lambda>i.
          kbind (load_pte (pte_at pagetable (of_nat i))) (\<lambda>pte.
            if pte AND PTE_V \<noteq> 0 \<and> pte AND (PTE_R OR PTE_W OR PTE_X) = 0 then
              kseq (freewalk depth (PTE2PA pte)) (store_pte (pte_at pagetable (of_nat i)) 0)
            else if pte AND PTE_V \<noteq> 0 then kpanic ''freewalk: leaf''
            else kret ())))
       (kfree pagetable)"

definition uvmfree :: "u64 \<Rightarrow> u64 \<Rightarrow> ('z kmem_scheme, unit) kop" where
  "uvmfree pagetable sz =
     kseq (if sz > 0 then uvmunmap pagetable 0 (PGROUNDUP sz div PGSIZE) True else kret ())
       (freewalk 3 pagetable)"

definition copy_page :: "u64 \<Rightarrow> u64 \<Rightarrow> ('z kmem_scheme, unit) kop" where
  "copy_page dst src = kmod (\<lambda>s. s\<lparr>km_mem := memmove dst src 4096 (km_mem s)\<rparr>)"

primrec uvmcopy_loop :: "nat \<Rightarrow> u64 \<Rightarrow> u64 \<Rightarrow> u64 \<Rightarrow> u64 \<Rightarrow> ('z kmem_scheme, int) kop" where
  "uvmcopy_loop 0 old new i sz = (if i < sz then (\<lambda>s. Fault) else kret 0)"
| "uvmcopy_loop (Suc n) old new i sz =
     (if i < sz then
        kbind (walk old i False) (\<lambda>pte.
          if pte = 0 then uvmcopy_loop n old new (i + PGSIZE) sz
          else kbind (load_pte pte) (\<lambda>v.
            if v AND PTE_V = 0 then uvmcopy_loop n old new (i + PGSIZE) sz
            else kbind kalloc (\<lambda>page.
              if page = 0 then kseq (uvmunmap new 0 (i div PGSIZE) True) (kret (-1))
              else kseq (copy_page page (PTE2PA v))
                (kbind (mappages new i PGSIZE page (PTE_FLAGS v)) (\<lambda>r.
                   if r \<noteq> 0
                   then kseq (kfree page) (kseq (uvmunmap new 0 (i div PGSIZE) True) (kret (-1)))
                   else uvmcopy_loop n old new (i + PGSIZE) sz)))))
      else kret 0)"

definition uvmcopy :: "u64 \<Rightarrow> u64 \<Rightarrow> u64 \<Rightarrow> ('z kmem_scheme, int) kop" where
  "uvmcopy old new sz = uvmcopy_loop (unat sz div 4096 + 1) old new 0 sz"

definition uvmclear :: "u64 \<Rightarrow> u64 \<Rightarrow> ('z kmem_scheme, unit) kop" where
  "uvmclear pagetable va =
     kbind (walk pagetable va False) (\<lambda>pte.
       if pte = 0 then kpanic ''uvmclear''
       else kbind (load_pte pte) (\<lambda>v. store_pte pte (v AND NOT PTE_U)))"

definition ismapped :: "u64 \<Rightarrow> u64 \<Rightarrow> ('z kmem_scheme, int) kop" where
  "ismapped pagetable va =
     kbind (walk pagetable va False) (\<lambda>pte.
       if pte = 0 then kret 0
       else kbind (load_pte pte) (\<lambda>v. if v AND PTE_V \<noteq> 0 then kret 1 else kret 0))"

definition vmfault :: "u64 \<Rightarrow> u64 \<Rightarrow> u64 \<Rightarrow> ('z kmem_scheme, u64) kop" where
  "vmfault pagetable psz va =
     (if va \<ge> psz then kret 0
      else let va0 = PGROUNDDOWN va in
        kbind (ismapped pagetable va0) (\<lambda>r.
          if r \<noteq> 0 then kret 0
          else kbind kalloc (\<lambda>page.
            if page = 0 then kret 0
            else kseq (zero_page page)
              (kbind (mappages pagetable va0 PGSIZE page (PTE_W OR PTE_U OR PTE_R)) (\<lambda>r.
                 if r \<noteq> 0 then kseq (kfree page) (kret 0) else kret page)))))"

text \<open>The user page at \<open>va0\<close>, faulted in if it was allocated lazily; 0 if there is none.\<close>

definition user_page :: "u64 \<Rightarrow> u64 \<Rightarrow> u64 \<Rightarrow> ('z kmem_scheme, u64) kop" where
  "user_page pagetable psz va0 =
     kbind (walkaddr pagetable va0) (\<lambda>pa0. if pa0 = 0 then vmfault pagetable psz va0 else kret pa0)"

definition write_bytes :: "u64 \<Rightarrow> u8 list \<Rightarrow> ('z kmem_scheme, unit) kop" where
  "write_bytes a bs = kmod (\<lambda>s. s\<lparr>km_mem := store_bytes a bs (km_mem s)\<rparr>)"

text \<open>
  The copy loops. Every iteration but the first starts on a page boundary, so the
  bytes left bound the number of iterations.
\<close>

primrec copyout_loop :: "nat \<Rightarrow> u64 \<Rightarrow> u64 \<Rightarrow> u64 \<Rightarrow> u8 list \<Rightarrow> ('z kmem_scheme, int) kop" where
  "copyout_loop 0 pagetable psz dstva src = (if src \<noteq> [] then (\<lambda>s. Fault) else kret 0)"
| "copyout_loop (Suc k) pagetable psz dstva src =
     (if src = [] then kret 0
      else let va0 = PGROUNDDOWN dstva in
        if va0 \<ge> MAXVA then kret (-1)
        else kbind (user_page pagetable psz va0) (\<lambda>pa0.
          if pa0 = 0 then kret (-1)
          else kbind (walk pagetable va0 False) (\<lambda>pte.
            if pte = 0 then (\<lambda>s. Fault)
            else kbind (load_pte pte) (\<lambda>v.
              if v AND PTE_W = 0 then kret (-1)
              else let n = min (unat (PGSIZE - (dstva - va0))) (length src) in
                kseq (write_bytes (pa0 + (dstva - va0)) (take n src))
                  (copyout_loop k pagetable psz (va0 + PGSIZE) (drop n src))))))"

definition copyout :: "u64 \<Rightarrow> u64 \<Rightarrow> u64 \<Rightarrow> u8 list \<Rightarrow> ('z kmem_scheme, int) kop" where
  "copyout pagetable psz dstva src = copyout_loop (length src) pagetable psz dstva src"

primrec copyin_loop :: "nat \<Rightarrow> u64 \<Rightarrow> u64 \<Rightarrow> u64 \<Rightarrow> nat \<Rightarrow> u8 list \<Rightarrow> ('z kmem_scheme, int \<times> u8 list) kop" where
  "copyin_loop 0 pagetable psz srcva len dst = (if len > 0 then (\<lambda>s. Fault) else kret (0, dst))"
| "copyin_loop (Suc k) pagetable psz srcva len dst =
     (if len = 0 then kret (0, dst)
      else let va0 = PGROUNDDOWN srcva in
        kbind (user_page pagetable psz va0) (\<lambda>pa0.
          if pa0 = 0 then kret (-1, dst)
          else let n = min (unat (PGSIZE - (srcva - va0))) len in
            kbind (kget (\<lambda>s. load_bytes (km_mem s) (pa0 + (srcva - va0)) n)) (\<lambda>bs.
              copyin_loop k pagetable psz (va0 + PGSIZE) (len - n) (dst @ bs))))"

definition copyin :: "u64 \<Rightarrow> u64 \<Rightarrow> u64 \<Rightarrow> nat \<Rightarrow> ('z kmem_scheme, int \<times> u8 list) kop" where
  "copyin pagetable psz srcva len = copyin_loop len pagetable psz srcva len []"

primrec copyinstr_loop :: "nat \<Rightarrow> u64 \<Rightarrow> u64 \<Rightarrow> u64 \<Rightarrow> nat \<Rightarrow> u8 list \<Rightarrow> ('z kmem_scheme, int \<times> u8 list) kop" where
  "copyinstr_loop 0 pagetable psz srcva mx dst = (if mx > 0 then (\<lambda>s. Fault) else kret (-1, dst))"
| "copyinstr_loop (Suc k) pagetable psz srcva mx dst =
     (if mx = 0 then kret (-1, dst)
      else let va0 = PGROUNDDOWN srcva in
        kbind (user_page pagetable psz va0) (\<lambda>pa0.
          if pa0 = 0 then kret (-1, dst)
          else let n = min (unat (PGSIZE - (srcva - va0))) mx in
            kbind (kget (\<lambda>s. load_bytes (km_mem s) (pa0 + (srcva - va0)) n)) (\<lambda>bs.
              if 0 \<in> set bs then kret (0, dst @ cstr bs @ [0])
              else copyinstr_loop k pagetable psz (va0 + PGSIZE) (mx - n) (dst @ bs))))"

definition copyinstr :: "u64 \<Rightarrow> u64 \<Rightarrow> u64 \<Rightarrow> nat \<Rightarrow> ('z kmem_scheme, int \<times> u8 list) kop" where
  "copyinstr pagetable psz srcva mx = copyinstr_loop mx pagetable psz srcva mx []"

section \<open>The kernel page table\<close>

definition kvmmap :: "u64 \<Rightarrow> u64 \<Rightarrow> u64 \<Rightarrow> u64 \<Rightarrow> u64 \<Rightarrow> ('z kmem_scheme, unit) kop" where
  "kvmmap kpgtbl va pa sz perm =
     kbind (mappages kpgtbl va sz pa perm) (\<lambda>r. if r \<noteq> 0 then kpanic ''kvmmap'' else kret ())"

definition proc_mapstacks :: "nat \<Rightarrow> u64 \<Rightarrow> ('z kmem_scheme, unit) kop" where
  "proc_mapstacks nproc kpgtbl =
     kfor [0..<nproc] (\<lambda>p.
       kbind kalloc (\<lambda>pa.
         if pa = 0 then kpanic ''kalloc''
         else kvmmap kpgtbl (KSTACK p) pa PGSIZE (PTE_R OR PTE_W)))"

text \<open>\<open>etext\<close> and \<open>trampoline\<close> are symbols of the linker script and of \<open>trampoline.S\<close>.\<close>

definition kvmmake :: "nat \<Rightarrow> u64 \<Rightarrow> u64 \<Rightarrow> ('z kmem_scheme, u64) kop" where
  "kvmmake nproc etext trampoline =
     kbind kalloc (\<lambda>kpgtbl.
       if kpgtbl = 0 then (\<lambda>s. Fault) else
       kseq (zero_page kpgtbl)
       (kseq (kvmmap kpgtbl UART0 UART0 PGSIZE (PTE_R OR PTE_W))
       (kseq (kvmmap kpgtbl VIRTIO0 VIRTIO0 PGSIZE (PTE_R OR PTE_W))
       (kseq (kvmmap kpgtbl PLIC PLIC 0x4000000 (PTE_R OR PTE_W))
       (kseq (kvmmap kpgtbl KERNBASE KERNBASE (etext - KERNBASE) (PTE_R OR PTE_X))
       (kseq (kvmmap kpgtbl etext etext (PHYSTOP - etext) (PTE_R OR PTE_W))
       (kseq (kvmmap kpgtbl TRAMPOLINE trampoline PGSIZE (PTE_R OR PTE_X))
       (kseq (proc_mapstacks nproc kpgtbl) (kret kpgtbl)))))))))"

section \<open>What the memory operations touch\<close>

text \<open>
  The operations of \<open>kalloc.c\<close> and \<open>vm.c\<close> change physical memory and the free
  list only, and they never sleep. Theories that extend the state use this to carry
  their own fields across them.
\<close>

definition mem_only :: "('z kmem_scheme, 'a) kop \<Rightarrow> bool" where
  "mem_only f \<longleftrightarrow> (\<forall>s. (\<forall>a t. f s = Ret a t \<longrightarrow> (\<exists>m fl. t = s\<lparr>km_mem := m, km_freelist := fl\<rparr>)) \<and>
     (\<forall>t. f s \<noteq> Sleeps t))"

named_theorems mem_intros \<open>operations that touch memory only\<close>

lemma mem_onlyD:
  assumes "mem_only f" and "f s = Ret a t"
  obtains m fl where "t = s\<lparr>km_mem := m, km_freelist := fl\<rparr>"
  using assms unfolding mem_only_def by blast

lemma mem_only_no_sleep: "mem_only f \<Longrightarrow> f s \<noteq> Sleeps t"
  by (simp add: mem_only_def)

lemma mem_id: "\<exists>m fl. s = s\<lparr>km_mem := m, km_freelist := fl\<rparr>" for s :: "'z kmem_scheme"
  by (rule exI [of _ "km_mem s"], rule exI [of _ "km_freelist s"]) simp

lemma mem_only_basic [mem_intros]:
  "mem_only (kret a)" "mem_only (kpanic m)" "mem_only (kget g)" "mem_only (\<lambda>s. Fault)"
  by (auto simp: mem_only_def mem_id)

lemma mem_only_bind [mem_intros]:
  assumes "mem_only f" and "\<And>a. mem_only (g a)"
  shows "mem_only (kbind f g)"
  unfolding mem_only_def
proof (intro allI conjI impI notI)
  fix s b u assume "kbind f g s = Ret b u"
  then obtain a t where f: "f s = Ret a t" and g: "g a t = Ret b u" by (rule kbind_RetD)
  obtain m fl where "t = s\<lparr>km_mem := m, km_freelist := fl\<rparr>" by (rule mem_onlyD [OF assms(1) f])
  moreover obtain m' fl' where "u = t\<lparr>km_mem := m', km_freelist := fl'\<rparr>" by (rule mem_onlyD [OF assms(2) g])
  ultimately show "\<exists>m fl. u = s\<lparr>km_mem := m, km_freelist := fl\<rparr>" by auto
next
  fix s t assume "kbind f g s = Sleeps t"
  then show False
    using mem_only_no_sleep [OF assms(1)] mem_only_no_sleep [OF assms(2)]
    by (auto simp: kbind_def split: outcome.splits)
qed

lemma mem_only_seq [mem_intros]: "mem_only f \<Longrightarrow> mem_only g \<Longrightarrow> mem_only (kseq f g)"
  unfolding kseq_def by (rule mem_only_bind)

lemma mem_only_if [mem_intros]: "mem_only f \<Longrightarrow> mem_only g \<Longrightarrow> mem_only (if b then f else g)"
  by simp

lemma mem_only_kfor [mem_intros]: "(\<And>x. mem_only (f x)) \<Longrightarrow> mem_only (kfor xs f)"
  by (induction xs) (simp_all add: mem_intros)

lemma mem_only_prims [mem_intros]:
  "mem_only kalloc" "mem_only (kfree pa)" "mem_only (load_pte p)" "mem_only (store_pte p v)"
  "mem_only (zero_page a)" "mem_only (copy_page d c)" "mem_only (write_bytes a bs)"
proof -
  have upd2: "\<exists>m fl. s\<lparr>km_mem := x, km_freelist := y\<rparr> = s\<lparr>km_mem := m, km_freelist := fl\<rparr>"
    for s :: "'z kmem_scheme" and x y by blast
  have comm: "s\<lparr>km_freelist := y, km_mem := x\<rparr> = s\<lparr>km_mem := x, km_freelist := y\<rparr>"
    for s :: "'z kmem_scheme" and x y by simp
  show "mem_only kalloc" "mem_only (kfree pa)"
    by (auto simp: mem_only_def kalloc_def kfree_def Let_def mem_id upd2 comm split: if_splits)
  show "mem_only (load_pte p)" by (simp add: load_pte_def mem_intros)
  have upd: "mem_only (kmod (\<lambda>s. s\<lparr>km_mem := g (km_mem s)\<rparr>))" for g
  proof -
    have "\<exists>m fl. s\<lparr>km_mem := g (km_mem s)\<rparr> = s\<lparr>km_mem := m, km_freelist := fl\<rparr>" for s :: "'z kmem_scheme"
      by (rule exI [of _ "g (km_mem s)"], rule exI [of _ "km_freelist s"]) simp
    then show ?thesis by (auto simp: mem_only_def)
  qed
  show "mem_only (store_pte p v)" "mem_only (zero_page a)" "mem_only (copy_page d c)" "mem_only (write_bytes a bs)"
    unfolding store_pte_def zero_page_def copy_page_def write_bytes_def by (rule upd)+
qed

lemma mem_only_walk_loop: "mem_only (walk_loop l pt va alloc)"
  by (induction l arbitrary: pt) (simp_all add: mem_intros Let_def)

lemma mem_only_walk [mem_intros]: "mem_only (walk pt va alloc)"
  by (simp add: walk_def mem_intros mem_only_walk_loop)

lemma mem_only_walkaddr [mem_intros]: "mem_only (walkaddr pt va)"
  by (simp add: walkaddr_def mem_intros)

lemma mem_only_mappages_loop: "mem_only (mappages_loop n pt a l pa perm)"
  by (induction n arbitrary: a pa) (simp_all add: mem_intros)

lemma mem_only_mappages [mem_intros]: "mem_only (mappages pt va sz pa perm)"
  by (simp add: mappages_def mem_intros mem_only_mappages_loop)

lemma mem_only_vmfault [mem_intros]: "mem_only (vmfault pt psz va)"
  by (simp add: vmfault_def ismapped_def mem_intros Let_def)

lemma mem_only_user_page [mem_intros]: "mem_only (user_page pt psz va)"
  by (simp add: user_page_def mem_intros)

lemma mem_only_copyout_loop: "mem_only (copyout_loop k pt psz dst src)"
  by (induction k arbitrary: dst src) (simp_all add: mem_intros Let_def)

lemma mem_only_copyin_loop: "mem_only (copyin_loop k pt psz src len dst)"
  by (induction k arbitrary: src len dst) (simp_all add: mem_intros Let_def)

lemma mem_only_copyinstr_loop: "mem_only (copyinstr_loop k pt psz src mx dst)"
  by (induction k arbitrary: src mx dst) (simp_all add: mem_intros Let_def)

lemma mem_only_copies [mem_intros]:
  "mem_only (copyout pt psz dst src)" "mem_only (copyin pt psz a len)" "mem_only (copyinstr pt psz a mx)"
  by (simp_all add: copyout_def copyin_def copyinstr_def mem_only_copyout_loop mem_only_copyin_loop
      mem_only_copyinstr_loop)

lemma mem_only_uvmcreate [mem_intros]: "mem_only uvmcreate"
  by (simp add: uvmcreate_def mem_intros)

lemma mem_only_uvmunmap_loop: "mem_only (uvmunmap_loop k pt a e df)"
  by (induction k arbitrary: a) (simp_all add: mem_intros)

lemma mem_only_uvmunmap [mem_intros]: "mem_only (uvmunmap pt va n df)"
  by (simp add: uvmunmap_def mem_intros mem_only_uvmunmap_loop)

lemma mem_only_uvmdealloc [mem_intros]: "mem_only (uvmdealloc pt osz nsz)"
  by (simp add: uvmdealloc_def mem_intros Let_def)

lemma mem_only_uvmalloc_loop: "mem_only (uvmalloc_loop k pt a osz nsz x)"
  by (induction k arbitrary: a) (simp_all add: mem_intros)

lemma mem_only_uvmalloc [mem_intros]: "mem_only (uvmalloc pt osz nsz x)"
  by (simp add: uvmalloc_def mem_intros Let_def mem_only_uvmalloc_loop del: uvmalloc_loop.simps)

lemma mem_only_freewalk [mem_intros]: "mem_only (freewalk d pt)"
proof (induction d arbitrary: pt)
  case (Suc d)
  show ?case unfolding freewalk.simps
    by (intro mem_only_seq mem_only_kfor mem_only_bind mem_only_if mem_only_basic mem_only_prims Suc)
qed (simp add: mem_intros)

lemma mem_only_uvmfree [mem_intros]: "mem_only (uvmfree pt sz)"
  by (simp add: uvmfree_def mem_intros del: freewalk.simps)

lemma mem_only_uvmcopy_loop: "mem_only (uvmcopy_loop k old new i sz)"
  by (induction k arbitrary: i) (simp_all add: mem_intros)

lemma mem_only_uvmcopy [mem_intros]: "mem_only (uvmcopy old new sz)" "mem_only (uvmclear pt va)"
  by (simp_all add: uvmcopy_def uvmclear_def mem_intros mem_only_uvmcopy_loop del: uvmcopy_loop.simps)

end
