(* ===== verification/PageTable.thy ===== *)
theory PageTable
  imports Vm
begin

text \<open>
  Facts on \<open>walk\<close>, \<open>walkaddr\<close>, \<open>mappages\<close> and \<open>vmfault\<close>. A page table is
  read as a tree of pages indexed by paths of at most two 9-bit indices; the
  invariant says that all its pages are distinct and that none of them is free. Under
  it, \<open>leaf\<close> is the page-table entry of a virtual address, and the operations
  change the entries they are meant to change and no other.
\<close>

unbundle bit_operations_syntax

section \<open>The tree of a page table\<close>

definition entry :: "pmem \<Rightarrow> u64 \<Rightarrow> u64 \<Rightarrow> u64" where
  "entry m a i = load64 m (pte_at a i)"

fun pt_node :: "pmem \<Rightarrow> u64 \<Rightarrow> u64 list \<Rightarrow> u64 option" where
  "pt_node m a [] = Some a"
| "pt_node m a (i # is) =
     (if entry m a i AND PTE_V \<noteq> 0 then pt_node m (PTE2PA (entry m a i)) is else None)"

definition path :: "u64 list \<Rightarrow> bool" where
  "path p \<longleftrightarrow> length p \<le> 2 \<and> (\<forall>i \<in> set p. i < 512)"

definition pt_ok :: "pmem \<Rightarrow> u64 \<Rightarrow> u64 set \<Rightarrow> bool" where
  "pt_ok m pt F \<longleftrightarrow>
     (\<forall>p a. path p \<longrightarrow> pt_node m pt p = Some a \<longrightarrow> aligned 4096 a \<and> a \<noteq> 0 \<and> a \<notin> F) \<and>
     (\<forall>p q a. path p \<longrightarrow> path q \<longrightarrow> pt_node m pt p = Some a \<longrightarrow> pt_node m pt q = Some a \<longrightarrow> p = q)"

definition leaf :: "pmem \<Rightarrow> u64 \<Rightarrow> u64 \<Rightarrow> u64" where
  "leaf m pt va =
     (case pt_node m pt [PX 2 va, PX 1 va] of None \<Rightarrow> 0 | Some a \<Rightarrow> entry m a (PX 0 va))"

definition page_same :: "u64 \<Rightarrow> pmem \<Rightarrow> pmem \<Rightarrow> bool" where
  "page_same b m m' \<longleftrightarrow> (\<forall>x. unat (x - b) < 4096 \<longrightarrow> m' x = m x)"

lemma pt_okD:
  assumes "pt_ok m pt F" and "path p" and "pt_node m pt p = Some a"
  shows "aligned 4096 a" and "a \<noteq> 0" and "a \<notin> F"
    and "path q \<Longrightarrow> pt_node m pt q = Some a \<Longrightarrow> p = q"
  using assms unfolding pt_ok_def by blast+

lemma PX_less [simp]: "PX l va < 512"
proof -
  have "unat (PX l va) < 512" by (simp add: unat_PX)
  then show ?thesis by (simp add: word_less_nat_alt)
qed

lemma path_PX [simp]: "path [PX 2 va, PX 1 va]" "path [PX 2 va]" "path []"
  by (simp_all add: path_def)

lemma pt_node_append:
  "pt_node m a (p @ q) = (case pt_node m a p of None \<Rightarrow> None | Some b \<Rightarrow> pt_node m b q)"
  by (induction m a p rule: pt_node.induct) simp_all

section \<open>Entries in memory\<close>

lemma pte_offset:
  assumes "aligned 4096 a" and "i < 512"
  shows "unat (pte_at a i) = unat a + 8 * unat i" and "aligned 8 (pte_at a i)"
proof -
  have i: "unat i < 512" using assms(2) by (simp add: word_less_nat_alt)
  obtain q where q: "unat a = 4096 * q" using assms(1) by (auto simp: aligned_def)
  then have "q < 2 ^ 52" using unat_lt_u64 [of a] by simp
  then have "unat a + 8 * unat i < 2 ^ 64" using q i by simp
  then show eq: "unat (pte_at a i) = unat a + 8 * unat i"
    by (simp add: pte_at_def unat_word_ariths)
  then show "aligned 8 (pte_at a i)" using q by (simp add: aligned_def)
qed

lemma pte_at_inj:
  assumes "aligned 4096 a" and "aligned 4096 b" and "i < 512" and "j < 512" and "pte_at a i = pte_at b j"
  shows "a = b" and "i = j"
proof -
  have ij: "unat i < 512" "unat j < 512" using assms(3,4) by (simp_all add: word_less_nat_alt)
  obtain p q where pq: "unat a = 4096 * p" "unat b = 4096 * q"
    using assms(1,2) by (auto simp: aligned_def elim!: dvdE)
  have eq: "4096 * p + 8 * unat i = 4096 * q + 8 * unat j"
    using pte_offset(1) [OF assms(1,3)] pte_offset(1) [OF assms(2,4)] assms(5) pq by simp
  then have "512 * p + unat i = 512 * q + unat j" by linarith
  then have "(512 * p + unat i) div 512 = (512 * q + unat j) div 512" by simp
  then have "p = q" using ij by simp
  with eq pq show "a = b" "i = j" by (simp_all add: word_unat_eq_iff)
qed

lemma entry_store:
  assumes "aligned 4096 a" and "aligned 4096 b" and "i < 512" and "j < 512"
  shows "entry (store64 (pte_at a i) v m) b j = (if a = b \<and> i = j then v else entry m b j)"
proof (cases "a = b \<and> i = j")
  case False
  then have "pte_at a i \<noteq> pte_at b j" using pte_at_inj [OF assms] by blast
  then show ?thesis using False pte_offset(2) [OF assms(1,3)] pte_offset(2) [OF assms(2,4)]
    by (auto simp: entry_def load64_store64_other)
qed (simp add: entry_def)

lemma entry_byte_offset:
  assumes "aligned 4096 b" and "j < 512" and "k < 8"
  shows "unat (pte_at b j + of_nat k - b) < 4096"
proof -
  have j: "unat j < 512" using assms(2) by (simp add: word_less_nat_alt)
  have eq: "pte_at b j + of_nat k - b = 8 * j + of_nat k" by (simp add: pte_at_def)
  show ?thesis unfolding eq using j assms(3) by (simp add: unat_word_ariths unat_of_nat)
qed

lemma entry_page_same:
  assumes "page_same b m m'" and "aligned 4096 b" and "j < 512"
  shows "entry m' b j = entry m b j"
  unfolding entry_def
  by (rule load64_cong) (use assms entry_byte_offset [OF assms(2,3)] in \<open>simp add: page_same_def\<close>)

lemma page_same_outside:
  assumes "same_outside a m m'" and "aligned 4096 a" and "aligned 4096 b" and "a \<noteq> b"
  shows "page_same b m m'"
  unfolding page_same_def
proof (intro allI impI)
  fix x assume x: "unat (x - b) < 4096"
  have "4096 \<le> unat (b + of_nat (unat (x - b)) - a)"
    using assms(2-4) x by (intro aligned_block_apart) simp_all
  then have "4096 \<le> unat (x - a)" by simp
  with assms(1) show "m' x = m x" by (simp add: same_outside_def)
qed

lemma page_same_refl [simp]: "page_same b m m"
  by (simp add: page_same_def)

lemma page_same_trans: "page_same b m m' \<Longrightarrow> page_same b m' m'' \<Longrightarrow> page_same b m m''"
  by (simp add: page_same_def)

lemma same_outside_entry:
  assumes "i < 512"
  shows "same_outside a m (store64 (pte_at a i) v m)"
proof -
  have i: "unat i < 512" using assms by (simp add: word_less_nat_alt)
  show ?thesis
    unfolding same_outside_def
  proof (intro allI impI)
    fix x assume x: "4096 \<le> unat (x - a)"
    have eq: "x - pte_at a i = (x - a) - 8 * i" by (simp add: pte_at_def algebra_simps)
    have i8: "unat (8 * i) = 8 * unat i" using i by (simp add: unat_word_ariths)
    have "8 * i \<le> x - a" unfolding word_le_nat_alt i8 using x i by linarith
    then have "8 \<le> unat (x - pte_at a i)" unfolding eq using x i by (simp add: unat_sub i8)
    then show "store64 (pte_at a i) v m x = m x" by (simp add: store64_def store_bytes_out)
  qed
qed

lemma page_same_store:
  assumes "aligned 4096 a" and "aligned 4096 b" and "a \<noteq> b" and "i < 512"
  shows "page_same b m (store64 (pte_at a i) v m)"
  by (rule page_same_outside [OF same_outside_entry [OF assms(4)] assms(1-3)])

section \<open>Changing one entry\<close>

text \<open>If every entry on the way to a node is unchanged, so is the node.\<close>

lemma pt_node_frame:
  assumes "\<And>r j t b. q = r @ j # t \<Longrightarrow> pt_node m pt r = Some b \<Longrightarrow> entry m' b j = entry m b j"
  shows "pt_node m' pt q = pt_node m pt q"
  using assms
proof (induction q rule: rev_induct)
  case (snoc j q)
  have "pt_node m' pt q = pt_node m pt q"
    by (rule snoc.IH) (rule snoc.prems, simp, assumption)
  moreover have "entry m' b j = entry m b j" if "pt_node m pt q = Some b" for b
    by (rule snoc.prems [of q]) (simp_all add: that)
  ultimately show ?case by (auto simp: pt_node_append split: option.split)
qed simp

lemma path_prefix: "path (r @ t) \<Longrightarrow> path r"
  by (auto simp: path_def)

text \<open>
  Linking in a new zeroed page \<open>n\<close> below the node at path \<open>p\<close>, where there was
  no child.
\<close>

definition link_ok :: "pmem \<Rightarrow> pmem \<Rightarrow> u64 \<Rightarrow> u64 set \<Rightarrow> u64 list \<Rightarrow> u64 \<Rightarrow> u64 \<Rightarrow> u64 \<Rightarrow> bool" where
  "link_ok m m' pt F p a i n \<longleftrightarrow> pt_ok m pt F \<and> path (p @ [i]) \<and> pt_node m pt p = Some a \<and>
     entry m a i AND PTE_V = 0 \<and> n \<in> F \<and> aligned 4096 n \<and> n \<noteq> 0 \<and>
     entry m' a i AND PTE_V \<noteq> 0 \<and> PTE2PA (entry m' a i) = n \<and>
     (\<forall>j < 512. entry m' n j = 0) \<and>
     (\<forall>b j. aligned 4096 b \<longrightarrow> j < 512 \<longrightarrow> b \<noteq> n \<longrightarrow> (b, j) \<noteq> (a, i) \<longrightarrow> entry m' b j = entry m b j)"

lemma link_node:
  assumes "link_ok m m' pt F p a i n" and "path q"
  shows "pt_node m' pt q = (if q = p @ [i] then Some n
    else if \<exists>k t. q = p @ [i] @ k # t then None else pt_node m pt q)"
proof -
  note l = assms(1) [unfolded link_ok_def]
  have ok: "pt_ok m pt F" and pi: "path (p @ [i])" and a: "pt_node m pt p = Some a" using l by blast+
  have pp: "path p" using pi by (rule path_prefix)
  have same: "pt_node m' pt q = pt_node m pt q"
    if q: "path q" and no: "\<nexists>t. q = p @ i # t" for q
  proof (rule pt_node_frame)
    fix r j t b assume r: "q = r @ j # t" "pt_node m pt r = Some b"
    have pr: "path r" "j < 512" using q r(1) by (auto simp: path_def)
    note b = pt_okD [OF ok pr(1) r(2)]
    have "b \<noteq> n" using b(3) l by blast
    moreover have "(b, j) \<noteq> (a, i)"
    proof
      assume "(b, j) = (a, i)"
      then have "r = p" using b(4) [OF pp] a by simp
      with r(1) no \<open>(b, j) = (a, i)\<close> show False by auto
    qed
    ultimately show "entry m' b j = entry m b j" using l b(1) pr(2) by blast
  qed
  have "pt_node m' pt p = Some a" using same [OF pp] a by simp
  then have new: "pt_node m' pt (p @ [i] @ t) = pt_node m' n t" for t
    using l by (simp add: pt_node_append)
  show ?thesis
  proof (cases "\<exists>t. q = p @ [i] @ t")
    case True
    then obtain t where t: "q = p @ [i] @ t" by blast
    show ?thesis
    proof (cases t)
      case (Cons k ks)
      then have "k < 512" using assms(2) t by (auto simp: path_def)
      then show ?thesis using new [of t] t Cons l by simp
    qed (use new [of "[]"] t in simp)
  qed (use same [OF assms(2)] in auto)
qed

lemma link_pt_ok:
  assumes "link_ok m m' pt F p a i n"
  shows "pt_ok m' pt (F - {n})"
proof -
  note l = assms [unfolded link_ok_def]
  have ok: "pt_ok m pt F" and nF: "n \<in> F" using l by blast+
  have old: "pt_node m pt q = Some b" if "path q" "pt_node m' pt q = Some b" "q \<noteq> p @ [i]" for q b
    using link_node [OF assms that(1)] that(2,3) by (auto split: if_splits)
  have new: "pt_node m' pt (p @ [i]) = Some n" using link_node [OF assms, of "p @ [i]"] l by simp
  show ?thesis
    unfolding pt_ok_def
  proof (intro conjI allI impI)
    fix q b assume q: "path q" "pt_node m' pt q = Some b"
    show "aligned 4096 b" "b \<noteq> 0" "b \<notin> F - {n}"
      using old [OF q] pt_okD(1-3) [OF ok q(1), of b] new l q(2) by (cases "q = p @ [i]"; auto)+
  next
    fix q r b assume q: "path q" "path r" "pt_node m' pt q = Some b" "pt_node m' pt r = Some b"
    have "b \<notin> F" if "path t" "pt_node m' pt t = Some b" "t \<noteq> p @ [i]" for t
      using pt_okD(3) [OF ok that(1) old [OF that]] .
    then show "q = r"
      using q new nF old [OF q(1,3)] old [OF q(2,4)] pt_okD(4) [OF ok q(1) _ q(2), of b]
      by (cases "q = p @ [i]"; cases "r = p @ [i]") auto
  qed
qed

lemma link_leaf:
  assumes "link_ok m m' pt F p a i n"
  shows "leaf m' pt va = leaf m pt va"
proof -
  note l = assms [unfolded link_ok_def]
  have ok: "pt_ok m pt F" and pi: "path (p @ [i])" and a: "pt_node m pt p = Some a"
    and none: "entry m a i AND PTE_V = 0" using l by blast+
  define q where "q = [PX 2 va, PX 1 va]"
  have pq: "path q" and lf: "leaf m pt va = (case pt_node m pt q of None \<Rightarrow> 0 | Some a \<Rightarrow> entry m a (PX 0 va))" for m
    unfolding q_def leaf_def by (rule path_PX(1), rule refl)
  have q2: "length q = 2" by (simp add: q_def)
  have below: "pt_node m pt (p @ [i] @ t) = None" for t using a none by (simp add: pt_node_append)
  note node = link_node [OF assms pq]
  consider "q = p @ [i]" | k t where "q = p @ [i] @ k # t" | "q \<noteq> p @ [i]" "\<nexists>k t. q = p @ [i] @ k # t"
    by blast
  then show ?thesis
  proof cases
    case 1
    then have "pt_node m' pt q = Some n" "pt_node m pt q = None" using node below [of "[]"] by simp_all
    then show ?thesis using l by (simp add: lf)
  next
    case 2
    have "q \<noteq> p @ [i]" using 2 by (metis append_assoc append_self_conv list.distinct(1))
    then have "pt_node m' pt q = None" using node 2 by auto
    moreover have "pt_node m pt q = None" using below 2 by simp
    ultimately show ?thesis by (simp add: lf)
  next
    case 3
    then have eq: "pt_node m' pt q = pt_node m pt q" using node by auto
    show ?thesis
    proof (cases "pt_node m pt q")
      case (Some b)
      note b = pt_okD [OF ok pq Some]
      have "b \<noteq> n" using b(3) l by blast
      moreover have "b \<noteq> a"
      proof
        assume "b = a"
        then have "q = p" using b(4) [OF path_prefix [OF pi]] a by simp
        with pi q2 show False by (auto simp: path_def)
      qed
      ultimately have "entry m' b (PX 0 va) = entry m b (PX 0 va)" using l b(1) PX_less by blast
      then show ?thesis by (simp add: lf eq Some)
    qed (simp add: lf eq)
  qed
qed

section \<open>\<open>walk\<close>\<close>

lemma load_pte_apply [simp]: "load_pte pte s = Ret (load64 (km_mem s) pte) s"
  by (simp add: load_pte_def)

lemma store_pte_apply [simp]: "store_pte pte v s = Ret () (s\<lparr>km_mem := store64 pte v (km_mem s)\<rparr>)"
  by (simp add: store_pte_def)

lemma zero_page_apply [simp]: "zero_page a s = Ret () (s\<lparr>km_mem := memset a 0 4096 (km_mem s)\<rparr>)"
  by (simp add: zero_page_def)

text \<open>Without \<open>alloc\<close>, \<open>walk\<close> only reads.\<close>

lemma walk_noalloc:
  assumes "va < MAXVA"
  shows "walk pt va False s = Ret (case pt_node (km_mem s) pt [PX 2 va, PX 1 va] of
      None \<Rightarrow> 0 | Some a \<Rightarrow> pte_at a (PX 0 va)) s"
  using assms by (simp add: walk_def numeral_2_eq_2 entry_def Let_def not_le [symmetric])

lemma pte_at_nonzero:
  assumes "aligned 4096 a" and "a \<noteq> 0" and "i < 512"
  shows "pte_at a i \<noteq> 0"
  using pte_offset(1) [OF assms(1,3)] assms(2) by (metis add_eq_0_iff_both_eq_0 unat_eq_zero unat_0)

lemma PTE_V_bit: "PTE_V = 1"
  by (simp add: PTE_V_def)

lemma PTE2PA_link:
  assumes "kpage s n"
  shows "PTE2PA (PA2PTE n OR PTE_V) = n" and "(PA2PTE n OR PTE_V) AND PTE_V \<noteq> 0"
proof -
  have "unat n < 2 ^ 56" using assms by (simp add: kpage_def word_less_nat_alt PHYSTOP_unat)
  then show "PTE2PA (PA2PTE n OR PTE_V) = n"
    using assms by (intro PTE2PA_flags) (simp_all add: kpage_def PTE_V_bit)
  have "bit ((PA2PTE n OR PTE_V) AND PTE_V) 0" by (simp add: PTE_V_bit bit_and_iff bit_or_iff)
  then show "(PA2PTE n OR PTE_V) AND PTE_V \<noteq> 0" by (metis bit_0_eq bot_apply bot_bool_def)
qed

text \<open>What an operation on one page table may change.\<close>

definition pt_frame :: "'z kmem_scheme \<Rightarrow> u64 list \<Rightarrow> u64 \<Rightarrow> 'z kmem_scheme \<Rightarrow> u64 list \<Rightarrow> bool" where
  "pt_frame s xs pt s' xs' \<longleftrightarrow> kmem_list s' xs' \<and> set xs' \<subseteq> set xs \<and> km_end s' = km_end s \<and>
     pt_ok (km_mem s') pt (set xs') \<and>
     (\<forall>b. aligned 4096 b \<longrightarrow> b \<notin> set xs \<longrightarrow> (\<forall>q. path q \<longrightarrow> pt_node (km_mem s) pt q \<noteq> Some b) \<longrightarrow>
        page_same b (km_mem s) (km_mem s') \<and> (\<forall>q. path q \<longrightarrow> pt_node (km_mem s') pt q \<noteq> Some b))"

lemma pt_frame_refl: "kmem_list s xs \<Longrightarrow> pt_ok (km_mem s) pt (set xs) \<Longrightarrow> pt_frame s xs pt s xs"
  by (simp add: pt_frame_def)

lemma pt_frame_trans:
  assumes "pt_frame s xs pt s1 xs1" and "pt_frame s1 xs1 pt s2 xs2"
  shows "pt_frame s xs pt s2 xs2"
proof -
  note f1 = assms(1) [unfolded pt_frame_def] and f2 = assms(2) [unfolded pt_frame_def]
  have sub: "b \<notin> set xs1" if "b \<notin> set xs" for b using that f1 by blast
  show ?thesis
    unfolding pt_frame_def
  proof (intro conjI allI impI)
    fix b assume b: "aligned 4096 b" "b \<notin> set xs" "\<forall>q. path q \<longrightarrow> pt_node (km_mem s) pt q \<noteq> Some b"
    then have b1: "page_same b (km_mem s) (km_mem s1)" "\<forall>q. path q \<longrightarrow> pt_node (km_mem s1) pt q \<noteq> Some b"
      using f1 by blast+
    with b(1) sub [OF b(2)] have b2: "page_same b (km_mem s1) (km_mem s2)"
      "\<forall>q. path q \<longrightarrow> pt_node (km_mem s2) pt q \<noteq> Some b" using f2 by blast+
    show "page_same b (km_mem s) (km_mem s2)" by (rule page_same_trans [OF b1(1) b2(1)])
    show "pt_node (km_mem s2) pt q \<noteq> Some b" if "path q" for q using b2(2) that by blast
  qed (use f1 f2 in auto)
qed

text \<open>The three steps of \<open>walk\<close> that add a page: allocate, clear, link.\<close>

lemma walk_link:
  assumes "kmem_list s (n # xs)" and "pt_ok (km_mem s) pt (set (n # xs))" and "path (p @ [i])"
    and "pt_node (km_mem s) pt p = Some a" and "entry (km_mem s) a i AND PTE_V = 0"
    and "kalloc s = Ret n s1" and "kmem_list s1 xs" and "km_end s1 = km_end s"
    and "same_outside n (km_mem s) (km_mem s1)"
  shows "let s2 = s1\<lparr>km_mem := store64 (pte_at a i) (PA2PTE n OR PTE_V) (memset n 0 4096 (km_mem s1))\<rparr> in
    pt_frame s (n # xs) pt s2 xs \<and> pt_node (km_mem s2) pt (p @ [i]) = Some n \<and>
    (\<forall>va. leaf (km_mem s2) pt va = leaf (km_mem s) pt va)"
proof -
  let ?m = "km_mem s" and ?m1 = "memset n 0 4096 (km_mem s1)"
  let ?m2 = "store64 (pte_at a i) (PA2PTE n OR PTE_V) ?m1"
  have n: "kpage s n" "aligned 4096 n" "n \<noteq> 0" "n \<notin> set xs"
    using assms(1) by (auto simp: kmem_list_def kpage_def)
  have pp: "path p" and i: "i < 512" using assms(3) by (auto simp: path_def)
  note a = pt_okD [OF assms(2) pp assms(4)]
  have an: "a \<noteq> n" using a(3) by auto
  have out: "same_outside n ?m ?m1" using assms(9) by (simp add: same_outside_def memset_apply)
  have m1: "entry ?m1 b j = entry ?m b j" if "aligned 4096 b" "j < 512" "b \<noteq> n" for b j
    using entry_page_same [OF page_same_outside [OF out n(2) that(1)] that(1,2)] that(3) by simp
  have m2: "entry ?m2 b j = (if b = a \<and> j = i then PA2PTE n OR PTE_V else entry ?m1 b j)"
    if "aligned 4096 b" "j < 512" for b j
    using entry_store [OF a(1) that(1) i that(2)] by auto
  have zero: "entry ?m1 n j = 0" if "j < 512" for j
  proof -
    have "load_bytes ?m1 (pte_at n j) 8 = replicate 8 0"
      by (rule nth_equalityI) (simp_all add: memset_apply entry_byte_offset [OF n(2) that])
    then show ?thesis by (simp add: entry_def load64_def numeral_eq_Suc)
  qed
  have link: "link_ok ?m ?m2 pt (set (n # xs)) p a i n"
    unfolding link_ok_def
    using assms(2-5) n m2 m1 zero an a(1) i PTE2PA_link [OF n(1)] by auto
  have node: "pt_node ?m2 pt (p @ [i]) = Some n" using link_node [OF link assms(3)] by simp
  have lf: "\<forall>va. leaf ?m2 pt va = leaf ?m pt va" using link_leaf [OF link] by blast
  have ok: "pt_ok ?m2 pt (set xs)" using link_pt_ok [OF link] n(4) by simp
  have fl: "flist ?m2 (km_freelist s1) xs"
  proof -
    have xs: "\<forall>x \<in> set xs. aligned 4096 x" using assms(1) by (auto simp: kmem_list_def kpage_def)
    have "flist (km_mem s1) (km_freelist s1) xs" using assms(7) by (simp add: kmem_list_def)
    then have f1: "flist ?m1 (km_freelist s1) xs"
      by (rule flist_outside [OF _ same_outside_memset n(2) xs n(4)])
    have "a \<notin> set xs" using a(3) by auto
    then show ?thesis by (rule flist_outside [OF f1 same_outside_entry [OF i] a(1) xs])
  qed
  have frame: "page_same b ?m ?m2 \<and> (\<forall>q. path q \<longrightarrow> pt_node ?m2 pt q \<noteq> Some b)"
    if b: "aligned 4096 b" "b \<notin> set (n # xs)" "\<forall>q. path q \<longrightarrow> pt_node ?m pt q \<noteq> Some b" for b
  proof
    have bn: "n \<noteq> b" using b(2) by auto
    have ba: "a \<noteq> b" using b(3) assms(4) pp by blast
    show "page_same b ?m ?m2"
      by (rule page_same_trans [OF page_same_outside [OF out n(2) b(1) bn] page_same_store [OF a(1) b(1) ba i]])
    show "\<forall>q. path q \<longrightarrow> pt_node ?m2 pt q \<noteq> Some b"
    proof (intro allI impI)
      fix q assume "path q"
      then show "pt_node ?m2 pt q \<noteq> Some b"
        unfolding link_node [OF link \<open>path q\<close>] using b(3) bn by simp
    qed
  qed
  show ?thesis
    using ok fl frame node lf assms(1,7,8)
    by (auto simp: Let_def pt_frame_def kmem_list_def kpage_def)
qed

lemma walk_step:
  assumes "kmem_list s xs" and "pt_ok (km_mem s) pt (set xs)" and "path (p @ [PX (Suc l) va])"
    and "pt_node (km_mem s) pt p = Some a"
  shows "(\<exists>b s1 xs1. walk_loop (Suc l) a va True s = walk_loop l b va True s1 \<and> pt_frame s xs pt s1 xs1 \<and>
      pt_node (km_mem s1) pt (p @ [PX (Suc l) va]) = Some b \<and>
      (\<forall>vb. leaf (km_mem s1) pt vb = leaf (km_mem s) pt vb)) \<or>
    walk_loop (Suc l) a va True s = Ret 0 s \<and> xs = []"
proof (cases "entry (km_mem s) a (PX (Suc l) va) AND PTE_V = 0")
  case False
  then have "walk_loop (Suc l) a va True s = walk_loop l (PTE2PA (entry (km_mem s) a (PX (Suc l) va))) va True s"
    by (simp add: Let_def entry_def)
  moreover have "pt_node (km_mem s) pt (p @ [PX (Suc l) va]) = Some (PTE2PA (entry (km_mem s) a (PX (Suc l) va)))"
    using assms(4) False by (simp add: pt_node_append)
  ultimately show ?thesis using pt_frame_refl [OF assms(1,2)] by blast
next
  case True
  show ?thesis
  proof (cases xs)
    case Nil
    then have "kalloc s = Ret 0 s" using assms(1) kalloc_empty by blast
    with True Nil show ?thesis by (simp add: Let_def entry_def)
  next
    case (Cons n ys)
    with assms(1) kalloc_list [of s n ys] obtain s1 where
      s1: "kalloc s = Ret n s1" "kmem_list s1 ys" "km_end s1 = km_end s"
        "same_outside n (km_mem s) (km_mem s1)" by blast
    let ?s2 = "s1\<lparr>km_mem := store64 (pte_at a (PX (Suc l) va)) (PA2PTE n OR PTE_V)
      (memset n 0 4096 (km_mem s1))\<rparr>"
    have "n \<noteq> 0" using assms(1) Cons by (simp add: kmem_list_def)
    with True s1(1) have "walk_loop (Suc l) a va True s = walk_loop l n va True ?s2"
      by (simp add: Let_def entry_def)
    moreover from walk_link [OF assms(1) [unfolded Cons] assms(2) [unfolded Cons] assms(3,4) True s1]
    have "pt_frame s (n # ys) pt ?s2 ys \<and> pt_node (km_mem ?s2) pt (p @ [PX (Suc l) va]) = Some n \<and>
        (\<forall>vb. leaf (km_mem ?s2) pt vb = leaf (km_mem s) pt vb)"
      unfolding Let_def .
    ultimately show ?thesis using Cons by blast
  qed
qed

lemma pt_frameD:
  assumes "pt_frame s xs pt s' xs'"
  shows "kmem_list s' xs'" and "pt_ok (km_mem s') pt (set xs')" and "set xs' \<subseteq> set xs" and "km_end s' = km_end s"
  using assms by (simp_all add: pt_frame_def)

lemma walk_alloc:
  assumes "kmem_list s xs" and "pt_ok (km_mem s) pt (set xs)" and "va < MAXVA"
  shows "\<exists>r s' xs'. walk pt va True s = Ret r s' \<and> pt_frame s xs pt s' xs' \<and>
    (\<forall>vb. leaf (km_mem s') pt vb = leaf (km_mem s) pt vb) \<and>
    (r = 0 \<and> xs' = [] \<or>
     (\<exists>b. pt_node (km_mem s') pt [PX 2 va, PX 1 va] = Some b \<and> r = pte_at b (PX 0 va)))"
proof -
  have w: "walk pt va True s = walk_loop (Suc (Suc 0)) pt va True s"
    using assms(3) by (simp add: walk_def not_le [symmetric] numeral_2_eq_2)
  have p1: "path ([] @ [PX (Suc (Suc 0)) va])" using path_PX(2) [of va] by (simp add: numeral_2_eq_2)
  have p2: "path ([PX 2 va] @ [PX (Suc 0) va])" using path_PX(1) [of va] by simp
  from walk_step [OF assms(1,2) p1 pt_node.simps(1)] show ?thesis
  proof (elim disjE exE conjE)
    fix a s1 xs1
    assume 1: "walk_loop (Suc (Suc 0)) pt va True s = walk_loop (Suc 0) a va True s1"
      and f1: "pt_frame s xs pt s1 xs1" and n1: "pt_node (km_mem s1) pt ([] @ [PX (Suc (Suc 0)) va]) = Some a"
      and l1: "\<forall>vb. leaf (km_mem s1) pt vb = leaf (km_mem s) pt vb"
    have n1': "pt_node (km_mem s1) pt [PX 2 va] = Some a" using n1 by (simp add: numeral_2_eq_2)
    from walk_step [OF pt_frameD(1,2) [OF f1] p2 n1'] show ?thesis
    proof (elim disjE exE conjE)
      fix b s2 xs2
      assume 2: "walk_loop (Suc 0) a va True s1 = walk_loop 0 b va True s2"
        and f2: "pt_frame s1 xs1 pt s2 xs2" and n2: "pt_node (km_mem s2) pt ([PX 2 va] @ [PX (Suc 0) va]) = Some b"
        and l2: "\<forall>vb. leaf (km_mem s2) pt vb = leaf (km_mem s1) pt vb"
      have "walk pt va True s = Ret (pte_at b (PX 0 va)) s2" by (simp only: w 1 2) simp
      moreover have "pt_node (km_mem s2) pt [PX 2 va, PX 1 va] = Some b"
        using n2 by (simp only: append_Cons append_Nil One_nat_def)
      ultimately show ?thesis using pt_frame_trans [OF f1 f2] l1 l2 by metis
    next
      assume 2: "walk_loop (Suc 0) a va True s1 = Ret 0 s1" and "xs1 = []"
      have "walk pt va True s = Ret 0 s1" by (simp only: w 1 2)
      with f1 l1 \<open>xs1 = []\<close> show ?thesis by blast
    qed
  next
    assume "walk_loop (Suc (Suc 0)) pt va True s = Ret 0 s" "xs = []"
    with w pt_frame_refl [OF assms(1,2)] show ?thesis by auto
  qed
qed

section \<open>Leaf entries\<close>

lemma leaf_store:
  assumes ok: "pt_ok m pt F" and va: "pt_node m pt [PX 2 va, PX 1 va] = Some a"
  shows "pt_node (store64 (pte_at a (PX 0 va)) v m) pt q = pt_node m pt q \<or> \<not> path q"
    and "leaf (store64 (pte_at a (PX 0 va)) v m) pt va = v"
    and "aligned 4096 va \<Longrightarrow> aligned 4096 vb \<Longrightarrow> va < MAXVA \<Longrightarrow> vb < MAXVA \<Longrightarrow> vb \<noteq> va \<Longrightarrow>
      leaf (store64 (pte_at a (PX 0 va)) v m) pt vb = leaf m pt vb"
proof -
  let ?m = "store64 (pte_at a (PX 0 va)) v m"
  note a = pt_okD [OF ok path_PX(1) va]
  have node: "pt_node ?m pt q = pt_node m pt q" if "path q" for q
  proof (rule pt_node_frame)
    fix r j t b assume r: "q = r @ j # t" "pt_node m pt r = Some b"
    have pr: "path r" "j < 512" "length r < 2" using that r(1) by (auto simp: path_def)
    note b = pt_okD [OF ok pr(1) r(2)]
    have "a \<noteq> b"
    proof
      assume "a = b"
      then have "[PX 2 va, PX 1 va] = r" using a(4) [OF pr(1)] r(2) by simp
      with pr(3) show False by auto
    qed
    then show "entry ?m b j = entry m b j"
      using entry_store [OF a(1) b(1) PX_less pr(2)] by auto
  qed
  then show "pt_node ?m pt q = pt_node m pt q \<or> \<not> path q" by blast
  have lf: "leaf m' pt vb = (case pt_node m' pt [PX 2 vb, PX 1 vb] of None \<Rightarrow> 0 | Some a \<Rightarrow> entry m' a (PX 0 vb))"
    for m' vb by (rule leaf_def)
  show "leaf ?m pt va = v"
    unfolding lf node [OF path_PX(1)] va using entry_store [OF a(1) a(1) PX_less PX_less] by simp
  assume al: "aligned 4096 va" "aligned 4096 vb" "va < MAXVA" "vb < MAXVA" "vb \<noteq> va"
  show "leaf ?m pt vb = leaf m pt vb"
  proof (cases "pt_node m pt [PX 2 vb, PX 1 vb]")
    case None
    then show ?thesis unfolding lf node [OF path_PX(1)] by simp
  next
    case (Some b)
    note b = pt_okD [OF ok path_PX(1) Some]
    have "\<not> (a = b \<and> PX 0 va = PX 0 vb)"
    proof
      assume "a = b \<and> PX 0 va = PX 0 vb"
      then have "PX 2 va = PX 2 vb" "PX 1 va = PX 1 vb" "PX 0 va = PX 0 vb"
        using a(4) [OF path_PX(1) [of vb]] Some by simp_all
      then have "va = vb" by (rule PX_inj [OF al(3,4,1,2)])
      with al(5) show False by simp
    qed
    then have "entry ?m b (PX 0 vb) = entry m b (PX 0 vb)"
      using entry_store [OF a(1) b(1) PX_less PX_less] by auto
    then show ?thesis unfolding lf node [OF path_PX(1)] Some by simp
  qed
qed

lemma leaf_store_frame:
  assumes "kmem_list s xs" and "pt_ok (km_mem s) pt (set xs)"
    and "pt_node (km_mem s) pt [PX 2 va, PX 1 va] = Some a"
  shows "pt_frame s xs pt (s\<lparr>km_mem := store64 (pte_at a (PX 0 va)) v (km_mem s)\<rparr>) xs"
proof -
  let ?m = "store64 (pte_at a (PX 0 va)) v (km_mem s)"
  note a = pt_okD [OF assms(2) path_PX(1) assms(3)]
  have node: "pt_node ?m pt q = pt_node (km_mem s) pt q" if "path q" for q
    using leaf_store(1) [OF assms(2,3)] that by blast
  have ok: "pt_ok ?m pt (set xs)" using assms(2) by (simp add: pt_ok_def node)
  have "\<forall>x \<in> set xs. aligned 4096 x" using assms(1) by (auto simp: kmem_list_def kpage_def)
  then have fl: "flist ?m (km_freelist s) xs"
    using assms(1) by (intro flist_outside [OF _ same_outside_entry [OF PX_less] a(1) _ a(3)])
      (simp_all add: kmem_list_def)
  have "page_same b (km_mem s) ?m"
    if b: "aligned 4096 b" "\<forall>q. path q \<longrightarrow> pt_node (km_mem s) pt q \<noteq> Some b" for b
  proof -
    have "a \<noteq> b" using b(2) assms(3) path_PX(1) by blast
    then show ?thesis by (rule page_same_store [OF a(1) b(1) _ PX_less])
  qed
  with ok fl node assms(1) show ?thesis
    unfolding pt_frame_def by (simp add: kmem_list_def kpage_def)
qed

text \<open>\<open>walkaddr\<close> reads the leaf entry.\<close>

lemma walk_leaf:
  assumes "pt_ok (km_mem s) pt F" and "va < MAXVA"
  shows "\<exists>pte. walk pt va False s = Ret pte s \<and>
    (if pte = 0 then leaf (km_mem s) pt va = 0 else load64 (km_mem s) pte = leaf (km_mem s) pt va)"
proof (cases "pt_node (km_mem s) pt [PX 2 va, PX 1 va]")
  case None
  then show ?thesis using walk_noalloc [OF assms(2), of pt s] by (simp add: leaf_def del: pt_node.simps)
next
  case (Some a)
  note a = pt_okD [OF assms(1) path_PX(1) Some]
  have "pte_at a (PX 0 va) \<noteq> 0" by (rule pte_at_nonzero [OF a(1,2) PX_less])
  then show ?thesis
    using walk_noalloc [OF assms(2), of pt s] Some by (simp add: leaf_def entry_def del: pt_node.simps)
qed

lemma walkaddr_leaf:
  assumes "pt_ok (km_mem s) pt F"
  shows "walkaddr pt va s = Ret (if va < MAXVA \<and> leaf (km_mem s) pt va AND PTE_V \<noteq> 0 \<and>
      leaf (km_mem s) pt va AND PTE_U \<noteq> 0 then PTE2PA (leaf (km_mem s) pt va) else 0) s"
proof (cases "va < MAXVA")
  case True
  from walk_leaf [OF assms True] obtain pte where
    "walk pt va False s = Ret pte s" "if pte = 0 then leaf (km_mem s) pt va = 0
      else load64 (km_mem s) pte = leaf (km_mem s) pt va" by blast
  with True show ?thesis by (auto simp: walkaddr_def not_le [symmetric] split: if_splits)
qed (auto simp: walkaddr_def not_less)

section \<open>\<open>mappages\<close> and \<open>vmfault\<close>\<close>

definition same_leaves :: "pmem \<Rightarrow> pmem \<Rightarrow> u64 \<Rightarrow> u64 \<Rightarrow> bool" where
  "same_leaves m m' pt va \<longleftrightarrow>
     (\<forall>vb. aligned 4096 vb \<longrightarrow> vb < MAXVA \<longrightarrow> vb \<noteq> va \<longrightarrow> leaf m' pt vb = leaf m pt vb)"

lemma mappages_page:
  assumes inv: "kmem_list s xs" "pt_ok (km_mem s) pt (set xs)"
    and va: "aligned 4096 va" "va < MAXVA" and free: "leaf (km_mem s) pt va AND PTE_V = 0"
  shows "\<exists>r s' xs'. mappages pt va PGSIZE pa perm s = Ret r s' \<and> pt_frame s xs pt s' xs' \<and>
    same_leaves (km_mem s) (km_mem s') pt va \<and>
    (r = 0 \<and> leaf (km_mem s') pt va = PA2PTE pa OR perm OR PTE_V \<or>
     r = -1 \<and> xs' = [] \<and> leaf (km_mem s') pt va = leaf (km_mem s) pt va)"
proof -
  have start: "mappages pt va PGSIZE pa perm s = mappages_loop (Suc 0) pt va va pa perm s"
    using va(1) by (simp add: mappages_def kpage_mod PGSIZE_def)
  from walk_alloc [OF inv va(2)] obtain r s1 xs1 where
    w: "walk pt va True s = Ret r s1" and f: "pt_frame s xs pt s1 xs1"
    and l: "\<forall>vb. leaf (km_mem s1) pt vb = leaf (km_mem s) pt vb"
    and r: "r = 0 \<and> xs1 = [] \<or> (\<exists>b. pt_node (km_mem s1) pt [PX 2 va, PX 1 va] = Some b \<and> r = pte_at b (PX 0 va))"
    by blast
  show ?thesis
  proof (cases "r = 0")
    case True
    have "xs1 = []"
    proof (rule ccontr)
      assume "xs1 \<noteq> []"
      with r True obtain b where b: "pt_node (km_mem s1) pt [PX 2 va, PX 1 va] = Some b" "pte_at b (PX 0 va) = 0" by auto
      show False using pte_at_nonzero [OF pt_okD(1,2) [OF pt_frameD(2) [OF f] path_PX(1) b(1)] PX_less] b(2) by blast
    qed
    with True w f l show ?thesis by (auto simp: start same_leaves_def)
  next
    case False
    with r obtain b where b: "pt_node (km_mem s1) pt [PX 2 va, PX 1 va] = Some b" and rb: "r = pte_at b (PX 0 va)" by blast
    let ?s2 = "s1\<lparr>km_mem := store64 r (PA2PTE pa OR perm OR PTE_V) (km_mem s1)\<rparr>"
    have "load64 (km_mem s1) r = leaf (km_mem s1) pt va" unfolding leaf_def b by (simp add: entry_def rb)
    with l free have "load64 (km_mem s1) r AND PTE_V = 0" by simp
    with False w have run: "mappages pt va PGSIZE pa perm s = Ret 0 ?s2" by (simp add: start)
    have "pt_frame s xs pt ?s2 xs1"
      by (rule pt_frame_trans [OF f]) (unfold rb, rule leaf_store_frame [OF pt_frameD(1,2) [OF f] b])
    moreover have "leaf (km_mem ?s2) pt va = PA2PTE pa OR perm OR PTE_V"
      using leaf_store(2) [OF pt_frameD(2) [OF f] b] by (simp add: rb)
    moreover have "same_leaves (km_mem s) (km_mem ?s2) pt va"
      using leaf_store(3) [OF pt_frameD(2) [OF f] b va(1)] va(2) l by (simp add: same_leaves_def rb)
    ultimately show ?thesis using run by blast
  qed
qed

text \<open>Writing into a free page changes no table.\<close>

lemma free_page_write:
  assumes ok: "pt_ok m pt F" and n: "n \<in> F" "aligned 4096 n" and out: "same_outside n m m'"
  shows "path q \<Longrightarrow> pt_node m' pt q = pt_node m pt q" and "leaf m' pt va = leaf m pt va"
proof -
  have ent: "entry m' b j = entry m b j" if "path r" "pt_node m pt r = Some b" "j < 512" for r b j
  proof -
    note b = pt_okD [OF ok that(1,2)]
    have "n \<noteq> b" using b(3) n(1) by auto
    then show ?thesis
      by (intro entry_page_same [OF page_same_outside [OF out n(2) b(1)] b(1) that(3)])
  qed
  show node: "pt_node m' pt q = pt_node m pt q" if "path q" for q
  proof (rule pt_node_frame)
    fix r j t b assume r: "q = r @ j # t" "pt_node m pt r = Some b"
    then have "path r" "j < 512" using that by (auto simp: path_def)
    then show "entry m' b j = entry m b j" using ent r(2) by blast
  qed
  show "leaf m' pt va = leaf m pt va"
    unfolding leaf_def node [OF path_PX(1)]
    by (cases "pt_node m pt [PX 2 va, PX 1 va]") (simp_all only: option.case ent [OF path_PX(1) _ PX_less])
qed

lemma flist_page_write:
  assumes "kmem_list s xs" and "aligned 4096 n" and "n \<notin> set xs" and "same_outside n (km_mem s) m'"
  shows "kmem_list (s\<lparr>km_mem := m'\<rparr>) xs"
proof -
  have "\<forall>x \<in> set xs. aligned 4096 x" using assms(1) by (auto simp: kmem_list_def kpage_def)
  moreover have "flist (km_mem s) (km_freelist s) xs" using assms(1) by (simp add: kmem_list_def)
  ultimately have "flist m' (km_freelist s) xs" using flist_outside [OF _ assms(4,2) _ assms(3)] by blast
  with assms(1) show ?thesis by (simp add: kmem_list_def kpage_def)
qed

lemma fill_page_frame:
  assumes inv: "kmem_list s (n # xs)" "pt_ok (km_mem s) pt (set (n # xs))"
    and al: "kalloc s = Ret n s1" and s2: "s2 = s1\<lparr>km_mem := m2\<rparr>" "same_outside n (km_mem s1) m2"
  shows "pt_frame s (n # xs) pt s2 xs" and "pt_ok (km_mem s2) pt (set (n # xs))"
    and "leaf (km_mem s2) pt va = leaf (km_mem s) pt va"
proof -
  from kalloc_list [OF inv(1)] al have s1: "kmem_list s1 xs" "km_end s1 = km_end s"
    "same_outside n (km_mem s) (km_mem s1)" by auto
  have n: "aligned 4096 n" "n \<notin> set xs" "n \<in> set (n # xs)"
    using inv(1) by (auto simp: kmem_list_def kpage_def)
  have out: "same_outside n (km_mem s) m2" using s1(3) s2(2) by (simp add: same_outside_def)
  note fw = free_page_write [OF inv(2) n(3,1) out]
  have k2: "kmem_list s2 xs" unfolding s2(1) by (rule flist_page_write [OF s1(1) n(1,2) s2(2)])
  show ok2: "pt_ok (km_mem s2) pt (set (n # xs))" using inv(2) by (simp add: pt_ok_def s2(1) fw(1))
  then have ok2': "pt_ok (km_mem s2) pt (set xs)" by (auto simp: pt_ok_def)
  show "leaf (km_mem s2) pt va = leaf (km_mem s) pt va" by (simp add: s2(1) fw(2))
  show "pt_frame s (n # xs) pt s2 xs"
    unfolding pt_frame_def
  proof (intro conjI allI impI)
    fix b assume b: "aligned 4096 b" "b \<notin> set (n # xs)" "\<forall>q. path q \<longrightarrow> pt_node (km_mem s) pt q \<noteq> Some b"
    then have "n \<noteq> b" by auto
    then show "page_same b (km_mem s) (km_mem s2)"
      using page_same_outside [OF out n(1) b(1)] by (simp add: s2(1))
    show "pt_node (km_mem s2) pt q \<noteq> Some b" if "path q" for q
      using b(3) that by (simp add: s2(1) fw(1))
  qed (use k2 ok2' s1(2) s2(1) in auto)
qed

lemma give_back_frame:
  assumes f: "pt_frame s (n # xs) pt s3 xs3" and n: "kpage s n" "n \<notin> set xs3"
    and no: "\<forall>q. path q \<longrightarrow> pt_node (km_mem s3) pt q \<noteq> Some n"
  shows "\<exists>s4. kfree n s3 = Ret () s4 \<and> pt_frame s (n # xs) pt s4 (n # xs3) \<and>
    (\<forall>va. leaf (km_mem s4) pt va = leaf (km_mem s3) pt va)"
proof -
  have al: "aligned 4096 n" using n(1) by (simp add: kpage_def)
  have kp: "kpage s3 n" using n(1) pt_frameD(4) [OF f] by (simp add: kpage_def)
  from kfree_list [OF pt_frameD(1) [OF f] kp n(2)] obtain s4 where
    s4: "kfree n s3 = Ret () s4" "kmem_list s4 (n # xs3)" "km_end s4 = km_end s3"
      "same_outside n (km_mem s3) (km_mem s4)" by blast
  have ok3: "pt_ok (km_mem s3) pt (set (n # xs3))"
    using pt_frameD(2) [OF f] no unfolding pt_ok_def by auto
  note fw = free_page_write [OF ok3 _ al s4(4), simplified]
  have ok4: "pt_ok (km_mem s4) pt (set (n # xs3))" using ok3 by (simp add: pt_ok_def fw(1))
  have "pt_frame s (n # xs) pt s4 (n # xs3)"
    unfolding pt_frame_def
  proof (intro conjI allI impI)
    fix b assume b: "aligned 4096 b" "b \<notin> set (n # xs)" "\<forall>q. path q \<longrightarrow> pt_node (km_mem s) pt q \<noteq> Some b"
    then have b3: "page_same b (km_mem s) (km_mem s3)" "\<forall>q. path q \<longrightarrow> pt_node (km_mem s3) pt q \<noteq> Some b"
      using f unfolding pt_frame_def by blast+
    have "n \<noteq> b" using b(2) by auto
    then show "page_same b (km_mem s) (km_mem s4)"
      using page_same_trans [OF b3(1) page_same_outside [OF s4(4) al b(1)]] by blast
    show "pt_node (km_mem s4) pt q \<noteq> Some b" if "path q" for q using b3(2) that by (simp add: fw(1))
  qed (use s4 ok4 pt_frameD(3,4) [OF f] in auto)
  with s4(1) fw(2) show ?thesis by blast
qed

text \<open>
  The common pattern of \<open>vmfault\<close>, \<open>uvmalloc\<close> and \<open>uvmcopy\<close>: take a page,
  fill it, map it, and give it back when \<open>mappages\<close> fails.
\<close>

lemma map_new_page:
  assumes inv: "kmem_list s (n # xs)" "pt_ok (km_mem s) pt (set (n # xs))"
    and va: "aligned 4096 va" "va < MAXVA" and free: "leaf (km_mem s) pt va AND PTE_V = 0"
    and al: "kalloc s = Ret n s1" and s2: "s2 = s1\<lparr>km_mem := m2\<rparr>" "same_outside n (km_mem s1) m2"
  shows "\<exists>r s3 xs3. mappages pt va PGSIZE n perm s2 = Ret r s3 \<and> same_leaves (km_mem s) (km_mem s3) pt va \<and>
    page_same n m2 (km_mem s3) \<and>
    (r = 0 \<and> leaf (km_mem s3) pt va = PA2PTE n OR perm OR PTE_V \<and> pt_frame s (n # xs) pt s3 xs3 \<or>
     r = -1 \<and> (\<exists>s4. kfree n s3 = Ret () s4 \<and> pt_frame s (n # xs) pt s4 (n # xs3) \<and>
       same_leaves (km_mem s) (km_mem s4) pt va \<and> leaf (km_mem s4) pt va = leaf (km_mem s) pt va))"
proof -
  note fill = fill_page_frame [OF inv al s2]
  have n: "kpage s n" "aligned 4096 n" "n \<notin> set xs"
    using inv(1) by (auto simp: kmem_list_def kpage_def)
  have notn: "\<forall>q. path q \<longrightarrow> pt_node (km_mem s2) pt q \<noteq> Some n"
    using pt_okD(3) [OF fill(2)] by fastforce
  have "leaf (km_mem s2) pt va AND PTE_V = 0" using free by (simp add: fill(3))
  from mappages_page [OF pt_frameD(1,2) [OF fill(1)] va this, of n perm] obtain r s3 xs3 where
    run: "mappages pt va PGSIZE n perm s2 = Ret r s3" and f3: "pt_frame s2 xs pt s3 xs3"
    and sl: "same_leaves (km_mem s2) (km_mem s3) pt va"
    and r: "r = 0 \<and> leaf (km_mem s3) pt va = PA2PTE n OR perm OR PTE_V \<or>
      r = -1 \<and> leaf (km_mem s3) pt va = leaf (km_mem s2) pt va" by blast
  have pn: "page_same n m2 (km_mem s3)" "\<forall>q. path q \<longrightarrow> pt_node (km_mem s3) pt q \<noteq> Some n"
    using f3 n(2,3) notn unfolding pt_frame_def by (auto simp: s2(1))
  have sl': "same_leaves (km_mem s) (km_mem s3) pt va" using sl by (simp add: same_leaves_def fill(3))
  note f = pt_frame_trans [OF fill(1) f3]
  show ?thesis
  proof (cases "r = 0")
    case True
    with run sl' pn(1) r f show ?thesis by (intro exI [of _ r] exI [of _ s3] exI [of _ xs3]) auto
  next
    case False
    with r have r1: "r = -1" "leaf (km_mem s3) pt va = leaf (km_mem s) pt va" by (auto simp: fill(3))
    have nx: "n \<notin> set xs3" using pt_frameD(3) [OF f3] n(3) by auto
    from give_back_frame [OF f n(1) nx pn(2)] obtain s4 where
      s4: "kfree n s3 = Ret () s4" "pt_frame s (n # xs) pt s4 (n # xs3)"
        "\<forall>va. leaf (km_mem s4) pt va = leaf (km_mem s3) pt va" by blast
    have "same_leaves (km_mem s) (km_mem s4) pt va" "leaf (km_mem s4) pt va = leaf (km_mem s) pt va"
      using sl' r1(2) s4(3) by (simp_all add: same_leaves_def)
    with run sl' pn(1) r1(1) s4(1,2) show ?thesis by blast
  qed
qed

section \<open>Properties\<close>

text \<open>The empty page table that \<open>uvmcreate\<close> returns: no table pages but the root.\<close>

lemma zero_table_entry:
  assumes "aligned 4096 pt" and "\<forall>x. unat (x - pt) < 4096 \<longrightarrow> m x = 0" and "j < 512"
  shows "entry m pt j = 0"
proof -
  have "load_bytes m (pte_at pt j) 8 = replicate 8 0"
    by (rule nth_equalityI) (simp_all add: assms(2) entry_byte_offset [OF assms(1,3)])
  then show ?thesis by (simp add: entry_def load64_def numeral_eq_Suc)
qed

lemma zero_table_ok:
  assumes "aligned 4096 pt" and "pt \<noteq> 0" and "pt \<notin> F" and "\<forall>x. unat (x - pt) < 4096 \<longrightarrow> m x = 0"
  shows "pt_ok m pt F" and "leaf m pt va = 0"
proof -
  have only: "p = [] \<and> a = pt" if "path p" "pt_node m pt p = Some a" for p a
    using that zero_table_entry [OF assms(1,4)] by (cases p) (auto simp: path_def)
  then show "pt_ok m pt F" using assms(1-3) unfolding pt_ok_def by blast
  have "pt_node m pt [PX 2 va, PX 1 va] = None"
    using only [OF path_PX(1) [of va]] by (metis list.distinct(1) not_None_eq)
  then show "leaf m pt va = 0" unfolding leaf_def by simp
qed

lemma or_lt_1024: "unat (x OR 1) < 1024" if "unat x < 1024" for x :: u64
proof -
  have "take_bit 10 (x OR 1) = x OR 1"
  proof (rule bit_word_eqI)
    fix n
    show "bit (take_bit 10 (x OR 1)) n = bit (x OR 1) n"
      using bit_below [of x 10 n] that by (auto simp: bit_take_bit_iff bit_or_iff bit_1_iff)
  qed
  then have "unat (x OR 1) = take_bit 10 (unat (x OR 1))" by (metis unsigned_take_bit_eq)
  also have "\<dots> < 2 ^ 10" by (rule take_bit_nat_less_exp)
  finally show ?thesis by simp
qed

lemma pte_bits:
  assumes "perm AND PTE_U \<noteq> 0"
  shows "(PA2PTE pa OR perm OR PTE_V) AND PTE_V \<noteq> 0" and "(PA2PTE pa OR perm OR PTE_V) AND PTE_U \<noteq> 0"
proof -
  have "bit ((PA2PTE pa OR perm OR PTE_V) AND PTE_V) 0" by (simp add: PTE_V_bit bit_and_iff bit_or_iff)
  then show "(PA2PTE pa OR perm OR PTE_V) AND PTE_V \<noteq> 0" by (metis bit_0_eq bot_apply bot_bool_def)
  obtain n where "bit (perm AND PTE_U) n" using assms by (metis bit_eqI bit_0_eq bot_apply bot_bool_def)
  then have "bit ((PA2PTE pa OR perm OR PTE_V) AND PTE_U) n" by (auto simp: bit_and_iff bit_or_iff)
  then show "(PA2PTE pa OR perm OR PTE_V) AND PTE_U \<noteq> 0" by (metis bit_0_eq bot_apply bot_bool_def)
qed

text \<open>A small machine: an empty page table and two free pages.\<close>

definition demo_kmem :: kmem where
  "demo_kmem = \<lparr>km_mem = store64 0x80103000 0x80102000 (memset 0x80103000 1 4096
      (store64 0x80102000 0 (memset 0x80102000 1 4096 (\<lambda>_. 0)))),
     km_freelist = 0x80103000, km_end = 0x80020000\<rparr>"

lemma demo_kmem_list: "kmem_list demo_kmem [0x80103000, 0x80102000]"
  and demo_kmem_zero: "4096 \<le> unat (x - 0x80103000) \<Longrightarrow> 4096 \<le> unat (x - 0x80102000) \<Longrightarrow> km_mem demo_kmem x = 0"
proof -
  let ?s0 = "\<lparr>km_mem = \<lambda>_. 0, km_freelist = 0, km_end = 0x80020000\<rparr>"
  let ?s1 = "?s0\<lparr>km_mem := store64 0x80102000 0 (memset 0x80102000 1 4096 (\<lambda>_. 0)), km_freelist := 0x80102000\<rparr>"
  have page: "kpage s a" if "km_end s = 0x80020000" "a \<in> {0x80102000, 0x80103000}" for s :: kmem and a
    using that by (auto simp: kpage_def aligned_def PHYSTOP_def KERNBASE_def)
  have "kmem_list ?s0 []" by (simp add: kmem_list_def)
  moreover have k1: "kfree 0x80102000 ?s0 = Ret () ?s1"
    by (simp add: kfree_def PGSIZE_def PHYSTOP_def KERNBASE_def)
  ultimately have l1: "kmem_list ?s1 [0x80102000]" and o1: "same_outside 0x80102000 (km_mem ?s0) (km_mem ?s1)"
    using kfree_list [of ?s0 "[]" "0x80102000"] page by auto
  have "kfree 0x80103000 ?s1 = Ret () demo_kmem"
    by (simp add: kfree_def PGSIZE_def PHYSTOP_def KERNBASE_def demo_kmem_def)
  then show "kmem_list demo_kmem [0x80103000, 0x80102000]"
    and "4096 \<le> unat (x - 0x80103000) \<Longrightarrow> 4096 \<le> unat (x - 0x80102000) \<Longrightarrow> km_mem demo_kmem x = 0"
    using kfree_list [OF l1, of "0x80103000"] page o1 by (auto simp: same_outside_def)
qed

lemma demo_pt_ok: "pt_ok (km_mem demo_kmem) 0x80101000 {0x80103000, 0x80102000}"
  and demo_leaf: "leaf (km_mem demo_kmem) 0x80101000 va = 0"
proof -
  have zero: "\<forall>x. unat (x - 0x80101000) < 4096 \<longrightarrow> km_mem demo_kmem x = 0"
  proof (intro allI impI)
    fix x :: u64 assume x: "unat (x - 0x80101000) < 4096"
    have "4096 \<le> unat (0x80101000 + of_nat (unat (x - 0x80101000)) - b)" if "b \<in> {0x80103000, 0x80102000}" for b :: u64
      by (rule aligned_block_apart [of 4096 b "0x80101000" "unat (x - 0x80101000)"])
        (use x that in \<open>auto simp: aligned_def\<close>)
    then show "km_mem demo_kmem x = 0" by (intro demo_kmem_zero) simp_all
  qed
  show "pt_ok (km_mem demo_kmem) 0x80101000 {0x80103000, 0x80102000}"
    by (rule zero_table_ok(1) [OF _ _ _ zero]) (simp_all add: aligned_def)
  show "leaf (km_mem demo_kmem) 0x80101000 va = 0"
    by (rule zero_table_ok(2) [OF _ _ _ zero, where F = "{}"]) (simp_all add: aligned_def)
qed

text \<open>What \<open>walkaddr\<close> answers for a virtual address.\<close>

definition translate :: "'z kmem_scheme \<Rightarrow> u64 \<Rightarrow> u64 \<Rightarrow> u64" where
  "translate s pt va = (case walkaddr pt va s of Ret pa _ \<Rightarrow> pa | _ \<Rightarrow> 0)"

lemma translate_leaf:
  assumes "pt_ok (km_mem s) pt F" and "va < MAXVA"
  shows "translate s pt va = (let v = leaf (km_mem s) pt va in
    if v AND PTE_V \<noteq> 0 \<and> v AND PTE_U \<noteq> 0 then PTE2PA v else 0)"
  using assms by (simp add: translate_def walkaddr_leaf Let_def)



end
