(* ===== verification/Spinlock.thy ===== *)
theory Spinlock
  imports Prelude
begin

text \<open>
  \<open>kernel/spinlock.c\<close>: the interrupt nesting of \<open>push_off\<close> and \<open>pop_off\<close>, and
  several CPUs that acquire and release one spin lock. The steps of the machine are
  the atomic memory accesses of \<open>acquire\<close> and \<open>release\<close>. The facts show
  mutual exclusion, that the two panics cannot happen, and that interrupts are off on a
  CPU from the start of \<open>acquire\<close> to the end of \<open>release\<close>.
\<close>

section \<open>Interrupt nesting\<close>

text \<open>
  The part of a hart that the nesting uses: \<open>noff\<close> and \<open>intena\<close> of its
  \<open>struct cpu\<close>, and the \<open>SSTATUS_SIE\<close> bit.
\<close>

record hart =
  h_noff :: int
  h_intena :: bool
  h_sie :: bool

definition intr_get :: "hart \<Rightarrow> bool" where
  "intr_get h = h_sie h"

definition intr_on :: "hart \<Rightarrow> hart" where
  "intr_on h = h\<lparr>h_sie := True\<rparr>"

definition intr_off :: "hart \<Rightarrow> hart" where
  "intr_off h = h\<lparr>h_sie := False\<rparr>"

text \<open>\<open>rc_sstatus\<close> reads the status register and clears the bit in one instruction.\<close>

definition push_off :: "hart \<Rightarrow> hart" where
  "push_off h =
     (let old = h_sie h; h1 = h\<lparr>h_sie := False\<rparr>;
          h2 = (if h_noff h1 = 0 then h1\<lparr>h_intena := old\<rparr> else h1)
      in h2\<lparr>h_noff := h_noff h2 + 1\<rparr>)"

definition pop_off :: "(hart, unit) kop" where
  "pop_off h =
     (if intr_get h then Panic ''pop_off - interruptible''
      else if h_noff h < 1 then Panic ''pop_off''
      else let h1 = h\<lparr>h_noff := h_noff h - 1\<rparr>
           in Ret () (if h_noff h1 = 0 \<and> h_intena h1 then intr_on h1 else h1))"

section \<open>The lock\<close>

record spinlock =
  lk_locked :: u32
  lk_cpu :: "nat option"

definition initlock :: spinlock where
  "initlock = \<lparr>lk_locked = 0, lk_cpu = None\<rparr>"

definition holding :: "nat \<Rightarrow> spinlock \<Rightarrow> bool" where
  "holding me lk \<longleftrightarrow> lk_locked lk \<noteq> 0 \<and> lk_cpu lk = Some me"

text \<open>
  Where a CPU is: outside, in the exchange loop of \<open>acquire\<close>, before
  \<open>lk->cpu = mycpu()\<close>, inside the critical section, between the two stores of
  \<open>release\<close>, before its \<open>pop_off\<close>, or stopped in a panic.
\<close>

datatype lock_pc = Outside | Spinning | Swapped | Critical | Clearing | Popping | Panicked

record lock_sys =
  ls_lock :: spinlock
  ls_pc :: "nat \<Rightarrow> lock_pc"
  ls_hart :: "nat \<Rightarrow> hart"

definition acquire_enter :: "nat \<Rightarrow> lock_sys \<Rightarrow> lock_sys" where
  "acquire_enter c s = s\<lparr>ls_hart := (ls_hart s)(c := push_off (ls_hart s c)),
     ls_pc := (ls_pc s)(c := if holding c (ls_lock s) then Panicked else Spinning)\<rparr>"

definition acquire_swap :: "nat \<Rightarrow> lock_sys \<Rightarrow> lock_sys" where
  "acquire_swap c s =
     (let old = lk_locked (ls_lock s)
      in s\<lparr>ls_lock := (ls_lock s)\<lparr>lk_locked := 1\<rparr>,
           ls_pc := (ls_pc s)(c := if old \<noteq> 0 then Spinning else Swapped)\<rparr>)"

definition acquire_record :: "nat \<Rightarrow> lock_sys \<Rightarrow> lock_sys" where
  "acquire_record c s =
     s\<lparr>ls_lock := (ls_lock s)\<lparr>lk_cpu := Some c\<rparr>, ls_pc := (ls_pc s)(c := Critical)\<rparr>"

definition release_enter :: "nat \<Rightarrow> lock_sys \<Rightarrow> lock_sys" where
  "release_enter c s =
     (if \<not> holding c (ls_lock s) then s\<lparr>ls_pc := (ls_pc s)(c := Panicked)\<rparr>
      else s\<lparr>ls_lock := (ls_lock s)\<lparr>lk_cpu := None\<rparr>, ls_pc := (ls_pc s)(c := Clearing)\<rparr>)"

definition release_store :: "nat \<Rightarrow> lock_sys \<Rightarrow> lock_sys" where
  "release_store c s =
     s\<lparr>ls_lock := (ls_lock s)\<lparr>lk_locked := 0\<rparr>, ls_pc := (ls_pc s)(c := Popping)\<rparr>"

definition release_pop :: "nat \<Rightarrow> lock_sys \<Rightarrow> lock_sys" where
  "release_pop c s =
     (case pop_off (ls_hart s c) of
        Ret _ h \<Rightarrow> s\<lparr>ls_hart := (ls_hart s)(c := h), ls_pc := (ls_pc s)(c := Outside)\<rparr>
      | _ \<Rightarrow> s\<lparr>ls_pc := (ls_pc s)(c := Panicked)\<rparr>)"

inductive lock_step :: "lock_sys \<Rightarrow> lock_sys \<Rightarrow> bool" where
  enter: "ls_pc s c = Outside \<Longrightarrow> lock_step s (acquire_enter c s)"
| swap: "ls_pc s c = Spinning \<Longrightarrow> lock_step s (acquire_swap c s)"
| record_cpu: "ls_pc s c = Swapped \<Longrightarrow> lock_step s (acquire_record c s)"
| leave: "ls_pc s c = Critical \<Longrightarrow> lock_step s (release_enter c s)"
| store: "ls_pc s c = Clearing \<Longrightarrow> lock_step s (release_store c s)"
| pop: "ls_pc s c = Popping \<Longrightarrow> lock_step s (release_pop c s)"

definition lock_init :: "lock_sys \<Rightarrow> bool" where
  "lock_init s \<longleftrightarrow> ls_lock s = initlock \<and> (\<forall>c. ls_pc s c = Outside) \<and> (\<forall>c. 0 \<le> h_noff (ls_hart s c))
     \<and> (\<forall>c. 0 < h_noff (ls_hart s c) \<longrightarrow> \<not> h_sie (ls_hart s c))"

section \<open>Nesting facts\<close>

text \<open>A hart between two calls: inside the nesting interrupts are off.\<close>

definition hart_ok :: "hart \<Rightarrow> bool" where
  "hart_ok h \<longleftrightarrow> 0 \<le> h_noff h \<and> (0 < h_noff h \<longrightarrow> \<not> h_sie h)"

lemma push_off_simps [simp]:
  "h_sie (push_off h) = False" "h_noff (push_off h) = h_noff h + 1"
  "h_intena (push_off h) = (if h_noff h = 0 then h_sie h else h_intena h)"
  by (simp_all add: push_off_def Let_def)

lemma pop_off_Ret:
  assumes "\<not> h_sie h" and "0 < h_noff h"
  shows "pop_off h = Ret () (h\<lparr>h_noff := h_noff h - 1, h_sie := h_noff h = 1 \<and> h_intena h\<rparr>)"
  using assms by (cases h) (auto simp: pop_off_def intr_get_def intr_on_def Let_def)

lemma hart_ok_push: "hart_ok h \<Longrightarrow> hart_ok (push_off h)"
  by (simp add: hart_ok_def)

lemma pop_push:
  assumes "hart_ok h"
  shows "pop_off (push_off h) = Ret () (h\<lparr>h_intena := if h_noff h = 0 then h_sie h else h_intena h\<rparr>)"
  using assms by (cases h) (auto simp: pop_off_Ret hart_ok_def push_off_def Let_def)

datatype nest = Push | Pop

fun nest_run :: "nest list \<Rightarrow> (hart, unit) kop" where
  "nest_run [] h = Ret () h"
| "nest_run (Push # ops) h = nest_run ops (push_off h)"
| "nest_run (Pop # ops) h = kseq pop_off (nest_run ops) h"

fun depth :: "nest list \<Rightarrow> int" where
  "depth [] = 0"
| "depth (Push # ops) = depth ops + 1"
| "depth (Pop # ops) = depth ops - 1"

text \<open>Every \<open>pop_off\<close> matches an earlier \<open>push_off\<close>, and all are matched.\<close>

definition balanced :: "nest list \<Rightarrow> bool" where
  "balanced ops \<longleftrightarrow> (\<forall>k \<le> length ops. 0 \<le> depth (take k ops)) \<and> depth ops = 0"

lemma depth_append [simp]: "depth (xs @ ys) = depth xs + depth ys"
  by (induction xs rule: depth.induct) simp_all

lemma nest_run_append: "nest_run (xs @ ys) h = kseq (nest_run xs) (nest_run ys) h"
proof (induction xs h rule: nest_run.induct)
  case (3 ops h)
  then show ?case by (cases "pop_off h") (simp_all add: kseq_def kbind_def)
qed (simp_all add: kseq_def kbind_def)

definition nest_state :: "hart \<Rightarrow> int \<Rightarrow> hart \<Rightarrow> bool" where
  "nest_state h d h' \<longleftrightarrow> h_noff h' = h_noff h + d \<and>
     (if d = 0 then h_sie h' = h_sie h else \<not> h_sie h' \<and> (h_noff h = 0 \<longrightarrow> h_intena h' = h_sie h))"

lemma nest_state_step:
  assumes "hart_ok h" and "0 \<le> d" and "nest_state h d h'"
  shows "nest_state h (d + 1) (push_off h')"
    and "0 < d \<Longrightarrow> \<exists>h''. pop_off h' = Ret () h'' \<and> nest_state h (d - 1) h''"
proof -
  show "nest_state h (d + 1) (push_off h')"
    using assms by (auto simp: nest_state_def hart_ok_def split: if_splits)
  assume d: "0 < d"
  with assms have "\<not> h_sie h'" "0 < h_noff h'" by (auto simp: nest_state_def hart_ok_def)
  from pop_off_Ret [OF this] show "\<exists>h''. pop_off h' = Ret () h'' \<and> nest_state h (d - 1) h''"
    using d assms by (auto simp: nest_state_def hart_ok_def split: if_splits)
qed

lemma nest_run_state:
  assumes "hart_ok h" and "\<forall>k \<le> length ops. 0 \<le> depth (take k ops)"
  shows "\<exists>h'. nest_run ops h = Ret () h' \<and> nest_state h (depth ops) h'"
  using assms(2)
proof (induction ops rule: rev_induct)
  case Nil
  then show ?case by (simp add: nest_state_def)
next
  case (snoc op ops)
  have pre: "0 \<le> depth (take k ops)" if "k \<le> length ops" for k
    using snoc.prems [rule_format, of k] that by simp
  with snoc.IH obtain h' where h': "nest_run ops h = Ret () h'" "nest_state h (depth ops) h'" by blast
  have d: "0 \<le> depth ops" using pre [of "length ops"] by simp
  have all: "0 \<le> depth (ops @ [op])" using snoc.prems [rule_format, of "Suc (length ops)"] by simp
  show ?case
  proof (cases op)
    case Push
    then show ?thesis using h' nest_state_step(1) [OF assms(1) d h'(2)] by (simp add: nest_run_append)
  next
    case Pop
    then have "0 < depth ops" using all by simp
    from nest_state_step(2) [OF assms(1) d h'(2) this] Pop h'(1) show ?thesis
      by (auto simp: nest_run_append)
  qed
qed

text \<open>
  C14: \<open>push_off\<close> and \<open>pop_off\<close> nest. On a CPU whose interrupts are off inside
  its current nesting, any sequence of the two in which every \<open>pop_off\<close> matches an
  earlier \<open>push_off\<close> runs without a panic; when all are matched the nesting depth
  and the interrupt enable are what they were at the start, and before that interrupts are
  off.
\<close>

theorem push_pop_nesting:
  assumes "hart_ok h" and "balanced ops" and "k \<le> length ops"
  shows "\<exists>h1 h2. nest_run (take k ops) h = Ret () h1 \<and> nest_run ops h = Ret () h2 \<and>
    (0 < depth (take k ops) \<longrightarrow> \<not> intr_get h1) \<and>
    h_noff h2 = h_noff h \<and> intr_get h2 = intr_get h"
proof -
  have all: "\<forall>k \<le> length ops. 0 \<le> depth (take k ops)" "depth ops = 0"
    using assms(2) by (auto simp: balanced_def)
  then have "\<forall>j \<le> length (take k ops). 0 \<le> depth (take j (take k ops))" using assms(3) by simp
  from nest_run_state [OF assms(1) this] nest_run_state [OF assms(1) all(1)] show ?thesis
    using all(2) by (auto simp: nest_state_def intr_get_def split: if_splits)
qed

theorem push_pop_nesting_witness:
  "\<exists>h1 h2. nest_run [Push, Push, Pop] \<lparr>h_noff = 0, h_intena = False, h_sie = True\<rparr> = Ret () h1 \<and>
     nest_run [Push, Push, Pop, Pop] \<lparr>h_noff = 0, h_intena = False, h_sie = True\<rparr> = Ret () h2 \<and>
     \<not> intr_get h1 \<and> intr_get h2"
proof -
  have "balanced [Push, Push, Pop, Pop]"
    by (auto simp: balanced_def le_Suc_eq numeral_eq_Suc)
  moreover have "hart_ok \<lparr>h_noff = 0, h_intena = False, h_sie = True\<rparr>" by (simp add: hart_ok_def)
  ultimately show ?thesis
    using push_pop_nesting [of "\<lparr>h_noff = 0, h_intena = False, h_sie = True\<rparr>" "[Push, Push, Pop, Pop]" 3]
    by (simp add: intr_get_def) blast
qed

section \<open>Mutual exclusion\<close>

abbreviation owns :: "lock_sys \<Rightarrow> nat \<Rightarrow> bool" where
  "owns s c \<equiv> ls_pc s c = Swapped \<or> ls_pc s c = Critical \<or> ls_pc s c = Clearing"

definition lock_inv :: "lock_sys \<Rightarrow> bool" where
  "lock_inv s \<longleftrightarrow>
     (lk_locked (ls_lock s) \<noteq> 0 \<longleftrightarrow> (\<exists>c. owns s c)) \<and>
     (\<forall>c d. owns s c \<longrightarrow> owns s d \<longrightarrow> c = d) \<and>
     (\<forall>c. lk_cpu (ls_lock s) = Some c \<longleftrightarrow> ls_pc s c = Critical) \<and>
     (\<forall>c. hart_ok (ls_hart s c) \<and> ls_pc s c \<noteq> Panicked \<and>
        (ls_pc s c \<noteq> Outside \<longrightarrow> 0 < h_noff (ls_hart s c)))"

lemma lock_invD:
  assumes "lock_inv s"
  shows "lk_locked (ls_lock s) \<noteq> 0 \<longleftrightarrow> (\<exists>c. owns s c)"
    and "owns s c \<Longrightarrow> owns s d \<Longrightarrow> c = d"
    and "lk_cpu (ls_lock s) = Some c \<longleftrightarrow> ls_pc s c = Critical"
    and "hart_ok (ls_hart s c)" and "ls_pc s c \<noteq> Panicked"
    and "ls_pc s c \<noteq> Outside \<Longrightarrow> 0 < h_noff (ls_hart s c)"
  using assms unfolding lock_inv_def by blast+

lemma lock_invI:
  assumes "lk_locked (ls_lock s) \<noteq> 0 \<longleftrightarrow> (\<exists>c. owns s c)"
    and "\<And>c d. owns s c \<Longrightarrow> owns s d \<Longrightarrow> c = d"
    and "\<And>c. lk_cpu (ls_lock s) = Some c \<longleftrightarrow> ls_pc s c = Critical"
    and "\<And>c. hart_ok (ls_hart s c)" and "\<And>c. ls_pc s c \<noteq> Panicked"
    and "\<And>c. ls_pc s c \<noteq> Outside \<Longrightarrow> 0 < h_noff (ls_hart s c)"
  shows "lock_inv s"
  unfolding lock_inv_def using assms by blast

lemma lock_inv_enter:
  assumes "lock_inv s" and "ls_pc s c = Outside"
  shows "lock_inv (acquire_enter c s)"
proof -
  note inv = lock_invD [OF assms(1)]
  have "\<not> holding c (ls_lock s)" using inv(3) [of c] assms(2) by (simp add: holding_def)
  then have eq: "acquire_enter c s = s\<lparr>ls_hart := (ls_hart s)(c := push_off (ls_hart s c)),
      ls_pc := (ls_pc s)(c := Spinning)\<rparr>"
    by (simp add: acquire_enter_def)
  have own: "owns (acquire_enter c s) d \<longleftrightarrow> owns s d" for d using assms(2) by (simp add: eq)
  show ?thesis
  proof (rule lock_invI)
    show "lk_locked (ls_lock (acquire_enter c s)) \<noteq> 0 \<longleftrightarrow> (\<exists>d. owns (acquire_enter c s) d)"
      unfolding own using inv(1) by (simp add: eq)
    show "d = e" if "owns (acquire_enter c s) d" "owns (acquire_enter c s) e" for d e
      using that unfolding own by (rule inv(2))
    show "lk_cpu (ls_lock (acquire_enter c s)) = Some d \<longleftrightarrow> ls_pc (acquire_enter c s) d = Critical" for d
      using inv(3) [of d] assms(2) by (simp add: eq)
    show "hart_ok (ls_hart (acquire_enter c s) d)" for d using inv(4) by (simp add: eq hart_ok_push)
    show "ls_pc (acquire_enter c s) d \<noteq> Panicked" for d using inv(5) [of d] by (simp add: eq)
    show "0 < h_noff (ls_hart (acquire_enter c s) d)" if "ls_pc (acquire_enter c s) d \<noteq> Outside" for d
      using inv(4) [of c] inv(6) [of d] that by (auto simp: eq hart_ok_def split: if_splits)
  qed
qed

text \<open>Steps that change the lock and the program counter but no hart.\<close>

lemma lock_inv_move:
  assumes "lock_inv s" and "ls_pc s c \<noteq> Outside" and pc: "pc \<noteq> Panicked" "pc \<noteq> Outside"
    and t: "t = s\<lparr>ls_lock := lk, ls_pc := (ls_pc s)(c := pc)\<rparr>"
    and locked: "lk_locked lk \<noteq> 0 \<longleftrightarrow> (\<exists>d. owns t d)" and one: "\<And>d e. owns t d \<Longrightarrow> owns t e \<Longrightarrow> d = e"
    and cpu: "\<And>d. lk_cpu lk = Some d \<longleftrightarrow> ls_pc t d = Critical"
  shows "lock_inv t"
proof (rule lock_invI)
  note inv = lock_invD [OF assms(1)]
  show "lk_locked (ls_lock t) \<noteq> 0 \<longleftrightarrow> (\<exists>d. owns t d)" unfolding locked [symmetric] by (simp add: t)
  show "d = e" if "owns t d" "owns t e" for d e using that by (rule one)
  show "lk_cpu (ls_lock t) = Some d \<longleftrightarrow> ls_pc t d = Critical" for d unfolding cpu [symmetric] by (simp add: t)
  show "hart_ok (ls_hart t d)" for d using inv(4) by (simp add: t)
  show "ls_pc t d \<noteq> Panicked" for d using inv(5) pc by (simp add: t)
  show "0 < h_noff (ls_hart t d)" if "ls_pc t d \<noteq> Outside" for d
    using inv(6) [of d] that assms(2) by (simp add: t split: if_splits)
qed

lemma lock_inv_swap:
  assumes "lock_inv s" and "ls_pc s c = Spinning"
  shows "lock_inv (acquire_swap c s)"
proof (rule lock_inv_move [OF assms(1), of c])
  note inv = lock_invD [OF assms(1)]
  let ?t = "acquire_swap c s"
  have pc: "ls_pc ?t d = (if d = c then if lk_locked (ls_lock s) \<noteq> 0 then Spinning else Swapped else ls_pc s d)" for d
    by (simp add: acquire_swap_def Let_def)
  show "?t = s\<lparr>ls_lock := (ls_lock s)\<lparr>lk_locked := 1\<rparr>,
      ls_pc := (ls_pc s)(c := if lk_locked (ls_lock s) \<noteq> 0 then Spinning else Swapped)\<rparr>"
    by (simp add: acquire_swap_def Let_def)
  have "\<exists>d. owns ?t d"
  proof (cases "lk_locked (ls_lock s) = 0")
    case True
    then show ?thesis by (intro exI [of _ c]) (simp add: pc)
  next
    case False
    then obtain d where "owns s d" using inv(1) by blast
    with assms(2) show ?thesis by (intro exI [of _ d]) (auto simp: pc)
  qed
  then show "lk_locked ((ls_lock s)\<lparr>lk_locked := 1\<rparr>) \<noteq> 0 \<longleftrightarrow> (\<exists>d. owns ?t d)" by simp
  show "d = e" if "owns ?t d" "owns ?t e" for d e
    using that inv(1) inv(2) [of d e] assms(2) by (auto simp: pc split: if_splits)
  show "lk_cpu ((ls_lock s)\<lparr>lk_locked := 1\<rparr>) = Some d \<longleftrightarrow> ls_pc ?t d = Critical" for d
    using inv(3) [of d] assms(2) by (auto simp: pc)
qed (use assms(2) in auto)

lemma lock_inv_record:
  assumes "lock_inv s" and "ls_pc s c = Swapped"
  shows "lock_inv (acquire_record c s)"
proof (rule lock_inv_move [OF assms(1), of c])
  note inv = lock_invD [OF assms(1)]
  let ?t = "acquire_record c s"
  have own: "owns ?t d \<longleftrightarrow> owns s d" for d using assms(2) by (simp add: acquire_record_def)
  show "?t = s\<lparr>ls_lock := (ls_lock s)\<lparr>lk_cpu := Some c\<rparr>, ls_pc := (ls_pc s)(c := Critical)\<rparr>"
    by (simp add: acquire_record_def)
  show "lk_locked ((ls_lock s)\<lparr>lk_cpu := Some c\<rparr>) \<noteq> 0 \<longleftrightarrow> (\<exists>d. owns ?t d)" unfolding own using inv(1) by simp
  show "d = e" if "owns ?t d" "owns ?t e" for d e using that unfolding own by (rule inv(2))
  have "ls_pc s d \<noteq> Critical" for d using inv(2) [of c d] assms(2) by fastforce
  then show "lk_cpu ((ls_lock s)\<lparr>lk_cpu := Some c\<rparr>) = Some d \<longleftrightarrow> ls_pc ?t d = Critical" for d
    by (simp add: acquire_record_def eq_commute)
qed (use assms(2) in auto)

lemma lock_inv_leave:
  assumes "lock_inv s" and "ls_pc s c = Critical"
  shows "lock_inv (release_enter c s)"
proof (rule lock_inv_move [OF assms(1), of c])
  note inv = lock_invD [OF assms(1)]
  let ?t = "release_enter c s"
  have "holding c (ls_lock s)" using inv(1) inv(3) [of c] assms(2) by (auto simp: holding_def)
  then show eq: "?t = s\<lparr>ls_lock := (ls_lock s)\<lparr>lk_cpu := None\<rparr>, ls_pc := (ls_pc s)(c := Clearing)\<rparr>"
    by (simp add: release_enter_def)
  have own: "owns ?t d \<longleftrightarrow> owns s d" for d using assms(2) by (simp add: eq)
  show "lk_locked ((ls_lock s)\<lparr>lk_cpu := None\<rparr>) \<noteq> 0 \<longleftrightarrow> (\<exists>d. owns ?t d)" unfolding own using inv(1) by simp
  show "d = e" if "owns ?t d" "owns ?t e" for d e using that unfolding own by (rule inv(2))
  have "ls_pc s d \<noteq> Critical" if "d \<noteq> c" for d using inv(2) [of c d] assms(2) that by blast
  then show "lk_cpu ((ls_lock s)\<lparr>lk_cpu := None\<rparr>) = Some d \<longleftrightarrow> ls_pc ?t d = Critical" for d
    by (simp add: eq)
qed (use assms(2) in auto)

lemma lock_inv_store:
  assumes "lock_inv s" and "ls_pc s c = Clearing"
  shows "lock_inv (release_store c s)"
proof (rule lock_inv_move [OF assms(1), of c])
  note inv = lock_invD [OF assms(1)]
  let ?t = "release_store c s"
  show eq: "?t = s\<lparr>ls_lock := (ls_lock s)\<lparr>lk_locked := 0\<rparr>, ls_pc := (ls_pc s)(c := Popping)\<rparr>"
    by (simp add: release_store_def)
  have other: "\<not> owns s d" if "d \<noteq> c" for d using inv(2) [of c d] assms(2) that by blast
  have none: "\<not> owns ?t d" for d using other [of d] by (cases "d = c") (simp_all add: eq)
  show "lk_locked ((ls_lock s)\<lparr>lk_locked := 0\<rparr>) \<noteq> 0 \<longleftrightarrow> (\<exists>d. owns ?t d)" using none by simp
  show "d = e" if "owns ?t d" "owns ?t e" for d e using that none by blast
  show "lk_cpu ((ls_lock s)\<lparr>lk_locked := 0\<rparr>) = Some d \<longleftrightarrow> ls_pc ?t d = Critical" for d
    using inv(3) [of d] assms(2) by (auto simp: eq)
qed (use assms(2) in auto)

lemma lock_inv_pop:
  assumes "lock_inv s" and "ls_pc s c = Popping"
  shows "lock_inv (release_pop c s)"
proof -
  note inv = lock_invD [OF assms(1)]
  let ?h = "ls_hart s c" and ?t = "release_pop c s"
  have h: "\<not> h_sie ?h" "0 < h_noff ?h" using inv(4) [of c] inv(6) [of c] assms(2) by (auto simp: hart_ok_def)
  let ?h' = "?h\<lparr>h_noff := h_noff ?h - 1, h_sie := h_noff ?h = 1 \<and> h_intena ?h\<rparr>"
  have eq: "?t = s\<lparr>ls_hart := (ls_hart s)(c := ?h'), ls_pc := (ls_pc s)(c := Outside)\<rparr>"
    by (simp add: release_pop_def pop_off_Ret [OF h])
  have own: "owns ?t d \<longleftrightarrow> owns s d" for d using assms(2) by (simp add: eq)
  show ?thesis
  proof (rule lock_invI)
    show "lk_locked (ls_lock ?t) \<noteq> 0 \<longleftrightarrow> (\<exists>d. owns ?t d)" unfolding own using inv(1) by (simp add: eq)
    show "d = e" if "owns ?t d" "owns ?t e" for d e using that unfolding own by (rule inv(2))
    show "lk_cpu (ls_lock ?t) = Some d \<longleftrightarrow> ls_pc ?t d = Critical" for d
      using inv(3) [of d] assms(2) by (auto simp: eq)
    show "hart_ok (ls_hart ?t d)" for d using inv(4) [of d] h(2) by (auto simp: eq hart_ok_def)
    show "ls_pc ?t d \<noteq> Panicked" for d using inv(5) by (simp add: eq)
    show "0 < h_noff (ls_hart ?t d)" if "ls_pc ?t d \<noteq> Outside" for d
      using inv(6) [of d] that by (simp add: eq split: if_splits)
  qed
qed

interpretation lock_machine: invariant_system lock_init lock_step lock_inv
proof
  show "lock_inv s" if "lock_init s" for s
    by (rule lock_invI) (use that in \<open>auto simp: lock_init_def initlock_def hart_ok_def\<close>)
  show "lock_inv t" if "lock_inv s" "lock_step s t" for s t
    using that(2,1)
    by (cases rule: lock_step.cases)
      (simp_all add: lock_inv_enter lock_inv_swap lock_inv_record lock_inv_leave lock_inv_store lock_inv_pop)
qed

text \<open>
  C15: spin locks exclude. However the CPUs interleave the memory accesses of
  \<open>acquire\<close> and \<open>release\<close>, at most one of them is between its successful exchange
  and its releasing store, none of them reaches a panic, and a CPU that is inside has
  interrupts off.
\<close>

theorem spinlock_mutex:
  assumes "reach lock_init lock_step s"
  shows "(\<forall>c d. owns s c \<and> owns s d \<longrightarrow> c = d) \<and> (\<forall>c. ls_pc s c \<noteq> Panicked) \<and>
    (\<forall>c. ls_pc s c \<noteq> Outside \<longrightarrow> \<not> intr_get (ls_hart s c))"
proof -
  note inv = lock_invD [OF lock_machine.reach_inv [OF assms]]
  have "\<not> intr_get (ls_hart s c)" if "ls_pc s c \<noteq> Outside" for c
    using inv(4) [of c] inv(6) [OF that] by (simp add: hart_ok_def intr_get_def)
  with inv(2,5) show ?thesis by blast
qed

definition two_cpus :: lock_sys where
  "two_cpus = \<lparr>ls_lock = initlock, ls_pc = \<lambda>_. Outside,
     ls_hart = \<lambda>_. \<lparr>h_noff = 0, h_intena = False, h_sie = True\<rparr>\<rparr>"

theorem spinlock_mutex_witness:
  "let s = acquire_swap 1 (acquire_swap 0 (acquire_enter 1 (acquire_enter 0 two_cpus))) in
     reach lock_init lock_step s \<and> ls_pc s 0 = Swapped \<and> ls_pc s 1 \<noteq> Swapped \<and> \<not> intr_get (ls_hart s 1)"
proof -
  have 0: "reach lock_init lock_step two_cpus"
    by (rule reach_init) (simp add: two_cpus_def lock_init_def)
  have 1: "reach lock_init lock_step (acquire_enter 0 two_cpus)"
    by (rule reach_step [OF 0 lock_step.enter]) (simp add: two_cpus_def)
  have 2: "reach lock_init lock_step (acquire_enter 1 (acquire_enter 0 two_cpus))"
    by (rule reach_step [OF 1 lock_step.enter]) (simp add: two_cpus_def acquire_enter_def)
  have 3: "reach lock_init lock_step (acquire_swap 0 (acquire_enter 1 (acquire_enter 0 two_cpus)))"
    by (rule reach_step [OF 2 lock_step.swap]) (simp add: two_cpus_def acquire_enter_def holding_def initlock_def)
  let ?s = "acquire_swap 1 (acquire_swap 0 (acquire_enter 1 (acquire_enter 0 two_cpus)))"
  have 4: "reach lock_init lock_step ?s"
    by (rule reach_step [OF 3 lock_step.swap])
      (simp add: two_cpus_def acquire_enter_def acquire_swap_def holding_def initlock_def)
  have pc: "ls_pc ?s 0 = Swapped" "ls_pc ?s 1 = Spinning"
    by (simp_all add: two_cpus_def acquire_enter_def acquire_swap_def holding_def initlock_def Let_def)
  with spinlock_mutex [OF 4] 4 show ?thesis by (auto simp: Let_def)
qed

end
