(* ===== verification/KState.thy ===== *)
theory KState
  imports ProcOps Vm
begin

text \<open>
  The kernel state that system calls run on: physical memory, the process table and
  the process on whose behalf the kernel runs. The operations of the process table
  are lifted to it. A section of the code under a spin lock is one update: acquiring
  and releasing spin locks is the subject of theory \<open>Spinlock\<close>. When the code
  calls \<open>sleep\<close> the thread leaves the CPU, which is the outcome \<open>Sleeps\<close>; a
  loop around \<open>sleep\<close> looks at its condition again when the thread is resumed,
  which is another run of the operation.
\<close>

record kproc = kmem +
  kp_procs :: ptable
  kp_nextpid :: int
  kp_initproc :: "nat option"
  kp_me :: nat

definition on_procs :: "(ptable, 'a) kop \<Rightarrow> ('z kproc_scheme, 'a) kop" where
  "on_procs f s = (case f (kp_procs s) of
      Ret a ps \<Rightarrow> Ret a (s\<lparr>kp_procs := ps\<rparr>)
    | Panic m \<Rightarrow> Panic m
    | Sleeps ps \<Rightarrow> Sleeps (s\<lparr>kp_procs := ps\<rparr>)
    | Fault \<Rightarrow> Fault)"

definition myproc :: "'z kproc_scheme \<Rightarrow> proc" where
  "myproc s = kp_procs s ! kp_me s"

definition upd_proc :: "nat \<Rightarrow> (proc \<Rightarrow> proc) \<Rightarrow> 'z kproc_scheme \<Rightarrow> 'z kproc_scheme" where
  "upd_proc i f s = s\<lparr>kp_procs := (kp_procs s)[i := f (kp_procs s ! i)]\<rparr>"

definition kwakeup :: "kaddr \<Rightarrow> ('z kproc_scheme, unit) kop" where
  "kwakeup chan = kmod (\<lambda>s. s\<lparr>kp_procs := wakeup (Some chan) (kp_procs s)\<rparr>)"

definition kkilled :: "'z kproc_scheme \<Rightarrow> bool" where
  "kkilled s \<longleftrightarrow> killed (kp_me s) (kp_procs s) \<noteq> 0"

text \<open>\<open>sleep_prepare(chan)\<close> followed by \<open>sleep()\<close> with no wakeup in between.\<close>

definition ksleep :: "kaddr \<Rightarrow> ('z kproc_scheme, 'a) kop" where
  "ksleep chan s =
     (case on_procs (sleep_prepare (kp_me s) (Some chan)) s of
        Ret _ s1 \<Rightarrow> (case on_procs (sleep (kp_me s1)) s1 of Sleeps s2 \<Rightarrow> Sleeps s2 | _ \<Rightarrow> Fault)
      | _ \<Rightarrow> Fault)"

lemma kwakeup_apply [simp]: "kwakeup chan s = Ret () (s\<lparr>kp_procs := wakeup (Some chan) (kp_procs s)\<rparr>)"
  by (simp add: kwakeup_def)

lemma ksleep_apply:
  assumes "kp_me s < length (kp_procs s)"
  shows "ksleep chan s = Sleeps (upd_proc (kp_me s) (\<lambda>p. p\<lparr>p_chan := Some chan, p_state := SLEEPING\<rparr>) s)"
  using assms by (simp add: ksleep_def on_procs_def sleep_prepare_def sleep_def upd_proc_def)

lemma ksleep_not_Ret: "ksleep chan s \<noteq> Ret a t"
  by (auto simp: ksleep_def split: outcome.split)

section \<open>Copies to and from the current process\<close>

text \<open>
  \<open>either_copyout\<close> and \<open>either_copyin\<close> with a user address; with a kernel
  address they are \<open>memmove\<close>, and the bytes stay in the buffer that the caller
  passed, so the callers below that use a kernel buffer get the bytes as a list.
\<close>

definition copyout_me :: "u64 \<Rightarrow> u8 list \<Rightarrow> ('z kproc_scheme, int) kop" where
  "copyout_me dst src = (\<lambda>s. copyout (p_pagetable (myproc s)) (p_sz (myproc s)) dst src s)"

definition copyin_me :: "u64 \<Rightarrow> nat \<Rightarrow> ('z kproc_scheme, int \<times> u8 list) kop" where
  "copyin_me src len = (\<lambda>s. copyin (p_pagetable (myproc s)) (p_sz (myproc s)) src len s)"

definition copyinstr_me :: "u64 \<Rightarrow> nat \<Rightarrow> ('z kproc_scheme, int \<times> u8 list) kop" where
  "copyinstr_me src mx = (\<lambda>s. copyinstr (p_pagetable (myproc s)) (p_sz (myproc s)) src mx s)"

section \<open>Sleep locks\<close>

text \<open>
  \<open>kernel/sleeplock.c\<close>. A lock lives inside a larger object; \<open>get\<close> and \<open>put\<close>
  read and write it there and \<open>chan\<close> is its address.
\<close>

record sleeplock =
  sl_locked :: bool
  sl_pid :: int

definition initsleeplock :: sleeplock where
  "initsleeplock = \<lparr>sl_locked = False, sl_pid = 0\<rparr>"

definition acquiresleep :: "('z kproc_scheme \<Rightarrow> sleeplock) \<Rightarrow> (sleeplock \<Rightarrow> 'z kproc_scheme \<Rightarrow> 'z kproc_scheme) \<Rightarrow>
    kaddr \<Rightarrow> ('z kproc_scheme, unit) kop" where
  "acquiresleep get put chan s =
     (if sl_locked (get s) then ksleep chan s
      else Ret () (put ((get s)\<lparr>sl_locked := True, sl_pid := p_pid (myproc s)\<rparr>) s))"

definition releasesleep :: "('z kproc_scheme \<Rightarrow> sleeplock) \<Rightarrow> (sleeplock \<Rightarrow> 'z kproc_scheme \<Rightarrow> 'z kproc_scheme) \<Rightarrow>
    kaddr \<Rightarrow> ('z kproc_scheme, unit) kop" where
  "releasesleep get put chan s =
     kwakeup chan (put ((get s)\<lparr>sl_locked := False, sl_pid := 0\<rparr>) s)"

definition holdingsleep :: "('z kproc_scheme \<Rightarrow> sleeplock) \<Rightarrow> 'z kproc_scheme \<Rightarrow> bool" where
  "holdingsleep get s \<longleftrightarrow> sl_locked (get s) \<and> sl_pid (get s) = p_pid (myproc s)"

lemma copy_me_state:
  shows "copyout_me dst src s = Ret r t \<Longrightarrow> \<exists>m fl. t = s\<lparr>km_mem := m, km_freelist := fl\<rparr>"
    and "copyin_me a n s = Ret x t \<Longrightarrow> \<exists>m fl. t = s\<lparr>km_mem := m, km_freelist := fl\<rparr>"
    and "copyinstr_me a n s = Ret x t \<Longrightarrow> \<exists>m fl. t = s\<lparr>km_mem := m, km_freelist := fl\<rparr>"
    and "copyout_me dst src s \<noteq> Sleeps t" and "copyin_me a n s \<noteq> Sleeps t" and "copyinstr_me a n s \<noteq> Sleeps t"
proof -
  show "copyout_me dst src s = Ret r t \<Longrightarrow> \<exists>m fl. t = s\<lparr>km_mem := m, km_freelist := fl\<rparr>"
    and "copyin_me a n s = Ret x t \<Longrightarrow> \<exists>m fl. t = s\<lparr>km_mem := m, km_freelist := fl\<rparr>"
    and "copyinstr_me a n s = Ret x t \<Longrightarrow> \<exists>m fl. t = s\<lparr>km_mem := m, km_freelist := fl\<rparr>"
    unfolding copyout_me_def copyin_me_def copyinstr_me_def
    by (metis mem_onlyD mem_only_copies)+
  show "copyout_me dst src s \<noteq> Sleeps t" and "copyin_me a n s \<noteq> Sleeps t" and "copyinstr_me a n s \<noteq> Sleeps t"
    unfolding copyout_me_def copyin_me_def copyinstr_me_def
    by (simp_all add: mem_only_no_sleep mem_only_copies)
qed

text \<open>
  A process with one user page at address 0x5000, for the witnesses: the three tables
  are at 0x80101000 to 0x80103000 and the page is at 0x80104000.
\<close>

definition demo_user_mem :: pmem where
  "demo_user_mem = store64 0x80101000 (PA2PTE 0x80102000 OR PTE_V)
     (store64 0x80102000 (PA2PTE 0x80103000 OR PTE_V)
     (store64 0x80103028 (PA2PTE 0x80104000 OR PTE_V OR PTE_R OR PTE_W OR PTE_U) (\<lambda>_. 42)))"

definition demo_user_proc :: proc where
  "demo_user_proc = zero_proc\<lparr>p_state := RUNNING, p_pid := 3, p_priority := 10,
     p_pagetable := 0x80101000, p_sz := 0x6000\<rparr>"

lemma demo_user_tables:
  "load64 demo_user_mem 0x80101000 = PA2PTE 0x80102000 OR PTE_V"
  "load64 demo_user_mem 0x80102000 = PA2PTE 0x80103000 OR PTE_V"
  "load64 demo_user_mem 0x80103028 = PA2PTE 0x80104000 OR PTE_V OR PTE_R OR PTE_W OR PTE_U"
  by (simp_all add: demo_user_mem_def load64_store64_same load64_store64_other aligned_def)

lemma walk_loop_2: "walk_loop 2 = walk_loop (Suc (Suc 0))" by (simp add: numeral_2_eq_2)

lemma PTE_V_nonzero: "PTE_V \<noteq> 0" by code_simp

lemma demo_walk:
  assumes "km_mem s = demo_user_mem"
  shows "walk 0x80101000 0x5000 False s = Ret 0x80103028 s"
proof -
  have PX: "PX (Suc (Suc 0)) 0x5000 = 0" "PX (Suc 0) 0x5000 = 0" "PX 0 0x5000 = 5" by code_simp+
  have V: "PTE2PA (PA2PTE 0x80102000 OR PTE_V) = 0x80102000" "PTE2PA (PA2PTE 0x80103000 OR PTE_V) = 0x80103000"
     "(PA2PTE 0x80102000 OR PTE_V) AND PTE_V \<noteq> 0" "(PA2PTE 0x80103000 OR PTE_V) AND PTE_V \<noteq> 0"
    by code_simp+
  have M: "\<not> MAXVA \<le> 0x5000" by code_simp
  show ?thesis
    using assms M PTE_V_nonzero by (simp add: walk_def walk_loop_2 Let_def PX V pte_at_def demo_user_tables load_pte_def)
qed

lemma demo_user_page:
  assumes "km_mem s = demo_user_mem"
  shows "user_page 0x80101000 0x6000 0x5000 s = Ret 0x80104000 s"
proof -
  have V: "PTE2PA (PA2PTE 0x80104000 OR PTE_V OR PTE_R OR PTE_W OR PTE_U) = 0x80104000"
     "(PA2PTE 0x80104000 OR PTE_V OR PTE_R OR PTE_W OR PTE_U) AND PTE_V \<noteq> 0"
     "(PA2PTE 0x80104000 OR PTE_V OR PTE_R OR PTE_W OR PTE_U) AND PTE_U \<noteq> 0"
    by code_simp+
  have M: "\<not> MAXVA \<le> 0x5000" by code_simp
  show ?thesis
    using assms M by (simp add: user_page_def walkaddr_def V demo_walk load_pte_def demo_user_tables)
qed

lemma demo_copyout:
  assumes "km_mem s = demo_user_mem"
  shows "copyout 0x80101000 0x6000 0x5000 [b] s = Ret 0 (s\<lparr>km_mem := store_bytes 0x80104000 [b] demo_user_mem\<rparr>)"
proof -
  have V: "(PA2PTE 0x80104000 OR PTE_V OR PTE_R OR PTE_W OR PTE_U) AND PTE_W \<noteq> 0"
    by code_simp
  have R: "PGROUNDDOWN 0x5000 = 0x5000" by code_simp
  have M: "\<not> MAXVA \<le> 0x5000" by code_simp
  show ?thesis
    using assms M by (simp add: copyout_def R V demo_walk demo_user_page load_pte_def demo_user_tables write_bytes_def PGSIZE_def)
qed

lemma demo_copyin:
  assumes "km_mem s = demo_user_mem"
  shows "copyin 0x80101000 0x6000 0x5000 1 s = Ret (0, [42]) s"
proof -
  have R: "PGROUNDDOWN 0x5000 = 0x5000" by code_simp
  have "demo_user_mem 0x80104000 = 42" by code_simp
  then show ?thesis
    using assms by (simp add: copyin_def R demo_user_page PGSIZE_def load_bytes_def)
qed

end
