(* ===== verification/Ring.thy ===== *)
theory Ring
  imports Prelude
begin

text \<open>
  Ring buffers indexed by free-running counters, as \<open>kernel/pipe.c\<close>, \<open>kernel/console.c\<close> and \<open>kernel/virtio_disk.c\<close>
  use them: the element with number \<open>i\<close> is in slot \<open>i % N\<close>. The counters have 32 bits in the first two and
  16 bits in the last and wrap around, which is harmless because \<open>N\<close> divides the number of their
  values. The locale carries the facts for all users.
\<close>

definition ring_slot :: "nat \<Rightarrow> 'w::len word \<Rightarrow> nat" where
  "ring_slot N i = unat i mod N"

definition ring_contents :: "nat \<Rightarrow> 'a list \<Rightarrow> 'w::len word \<Rightarrow> 'w word \<Rightarrow> 'a list" where
  "ring_contents N data r w = map (\<lambda>i. data ! ring_slot N (r + of_nat i)) [0..<unat (w - r)]"

lemma unat_lt_u32: "unat (x::u32) < 2 ^ 32"
proof -
  have "unat x < 2 ^ LENGTH(32)" by (rule unsigned_less)
  then show ?thesis by simp
qed

locale ring_buffer =
  fixes N :: nat and width :: "'w::len itself"
  assumes N_pos: "0 < N" and N_dvd: "N dvd 2 ^ LENGTH('w)" and N_less: "N < 2 ^ LENGTH('w)"
begin

lemma slot_less: "ring_slot N (i::'w word) < N"
  using N_pos by (simp add: ring_slot_def)

lemma slot_add: "ring_slot N ((r::'w word) + of_nat i) = (unat r + i) mod N"
proof -
  have "unat (r + of_nat i) = (unat r + i) mod 2 ^ LENGTH('w)"
    by (simp add: unat_word_ariths unat_of_nat mod_simps)
  then show ?thesis using N_dvd by (simp add: ring_slot_def mod_mod_cancel)
qed

lemma length_contents [simp]: "length (ring_contents N data r (w::'w word)) = unat (w - r)"
  by (simp add: ring_contents_def)

lemma contents_empty_iff: "ring_contents N data r (w::'w word) = [] \<longleftrightarrow> r = w"
  by (auto simp: ring_contents_def unat_eq_0)

text \<open>Distinct positions of the window are in distinct slots.\<close>

lemma slot_inj:
  fixes r :: "'w word"
  assumes "i < j" and "j < i + N"
  shows "ring_slot N (r + of_nat i) \<noteq> ring_slot N (r + of_nat j)"
proof
  assume "ring_slot N (r + of_nat i) = ring_slot N (r + of_nat j)"
  then have "(unat r + j) mod N = (unat r + i) mod N" by (simp add: slot_add)
  then have "N dvd (unat r + j) - (unat r + i)" using assms(1) by (simp add: mod_eq_dvd_iff_nat)
  then have "N dvd j - i" by simp
  with assms show False by (auto dest: dvd_imp_le)
qed

lemma contents_put:
  fixes r w :: "'w word"
  assumes "length data = N" and "unat (w - r) < N"
  shows "ring_contents N (data[ring_slot N w := c]) r (w + 1) = ring_contents N data r w @ [c]"
proof -
  let ?n = "unat (w - r)"
  have w: "w = r + of_nat ?n" by simp
  have n1: "unat (w + 1 - r) = ?n + 1"
  proof -
    have "w + 1 - r = of_nat (?n + 1)" by simp
    then show ?thesis using assms(2) N_less by (simp only: unat_of_nat) simp
  qed
  have "data[ring_slot N w := c] ! ring_slot N (r + of_nat i) = data ! ring_slot N (r + of_nat i)" if "i < ?n" for i
  proof -
    have "ring_slot N (r + of_nat i) \<noteq> ring_slot N (r + of_nat ?n)" using that assms(2) by (intro slot_inj) simp_all
    then show ?thesis by (simp add: w [symmetric])
  qed
  moreover have "data[ring_slot N w := c] ! ring_slot N (r + of_nat ?n) = c"
    using slot_less [of w] assms(1) by (simp add: w [symmetric])
  ultimately show ?thesis unfolding ring_contents_def n1 by simp
qed

lemma contents_get:
  fixes r w :: "'w word"
  assumes "r \<noteq> w"
  shows "ring_contents N data r w = data ! ring_slot N r # ring_contents N data (r + 1) w"
proof -
  have "w - r \<noteq> 0" using assms by simp
  then obtain n where n: "unat (w - r) = Suc n" by (metis not0_implies_Suc unat_eq_zero)
  have eq: "w - (r + 1) = (w - r) - 1" by simp
  have n1: "unat (w - (r + 1)) = n" unfolding eq unat_minus_one [OF \<open>w - r \<noteq> 0\<close>] n by simp
  show ?thesis
    unfolding ring_contents_def n n1 upt_conv_Cons [OF zero_less_Suc]
    by (simp add: map_Suc_upt [symmetric] add.assoc del: upt_Suc)
qed

text \<open>Taking back the last byte put in.\<close>

lemma contents_unput:
  fixes r w :: "'w word"
  assumes "r \<noteq> w"
  shows "ring_contents N data r w = ring_contents N data r (w - 1) @ [data ! ring_slot N (w - 1)]"
proof -
  have nz: "w - r \<noteq> 0" using assms by simp
  then obtain n where n: "unat (w - r) = Suc n" by (metis not0_implies_Suc unat_eq_zero)
  have eq: "w - 1 - r = (w - r) - 1" by simp
  have n1: "unat (w - 1 - r) = n" unfolding eq unat_minus_one [OF nz] n by simp
  have "w - 1 = r + of_nat n" unfolding n1 [symmetric] by simp
  then show ?thesis unfolding ring_contents_def n n1 by simp
qed

end

end
