(* ===== verification/Printk.thy ===== *)
theory Printk
  imports Prelude
begin

text \<open>
  Formatted output: \<open>kernel/printk.c\<close> and its counterpart \<open>user/printf.c\<close>. A C
  string is the list of its characters before the terminating zero, and the result is
  the sequence of characters handed to \<open>consputc\<close> or \<open>putc\<close>. The variable
  arguments are a list of 64 bit words and strings; taking an argument that is not
  there, or of the other kind, is undefined in C and gives \<open>None\<close>. The facts show
  that \<open>printint\<close> stays inside its buffer and prints the numeral of its argument,
  that the kernel and the user routine agree, and when a format string has enough
  arguments.
\<close>

section \<open>Numbers\<close>

definition kernel_digits :: string where "kernel_digits = ''0123456789abcdef''"
definition user_digits :: string where "user_digits = ''0123456789ABCDEF''"

text \<open>
  The do-while loop that fills \<open>buf\<close>, least significant digit first. The base is
  10 or 16 in every call; the test on it only makes the recursion end for any base.
\<close>

function printint_loop :: "string \<Rightarrow> u64 \<Rightarrow> u64 \<Rightarrow> string" where
  "printint_loop digs base x =
     digs ! unat (x mod base) #
       (if x div base \<noteq> 0 \<and> 1 < base then printint_loop digs base (x div base) else [])"
  by pat_completeness auto

lemma div_less_u64:
  assumes "1 < base" and "x div base \<noteq> 0"
  shows "unat (x div base) < unat (x::u64)"
proof -
  have "1 < unat base" using assms(1) by (simp add: word_less_nat_alt)
  moreover have "0 < unat x" using assms(2) by (metis gr0I unat_eq_zero div_0)
  ultimately show ?thesis by (simp add: unat_div)
qed

termination printint_loop
  by (relation "measure (\<lambda>(digs, base, x). unat x)") (auto intro: div_less_u64)

declare printint_loop.simps [simp del]

definition printint_buf :: "string \<Rightarrow> u64 \<Rightarrow> u64 \<Rightarrow> bool \<Rightarrow> string" where
  "printint_buf digs xx base sign =
     (let neg = sign \<and> sint xx < 0;
          x = (if neg then - xx else xx)
      in printint_loop digs base x @ (if neg then ''-'' else []))"

definition printint :: "string \<Rightarrow> u64 \<Rightarrow> u64 \<Rightarrow> bool \<Rightarrow> string" where
  "printint digs xx base sign = rev (printint_buf digs xx base sign)"

primrec printptr_loop :: "nat \<Rightarrow> string \<Rightarrow> u64 \<Rightarrow> string" where
  "printptr_loop 0 digs x = []"
| "printptr_loop (Suc i) digs x = digs ! unat (drop_bit 60 x) # printptr_loop i digs (push_bit 4 x)"

definition printptr :: "string \<Rightarrow> u64 \<Rightarrow> string" where
  "printptr digs x = ''0x'' @ printptr_loop 16 digs x"

section \<open>Format strings\<close>

datatype karg = KWord u64 | KStr "string option"

datatype directive = DInt | DLong | DUint | DUlong | DHex | DLhex | DPtr | DChar | DStr | DPercent | DEnd | DUnknown char

text \<open>
  The chain of conditions on the characters after a percent sign, 0 standing for the
  end of the format; the number is what the code adds to \<open>i\<close>.
\<close>

definition printk_dir :: "char \<Rightarrow> char \<Rightarrow> char \<Rightarrow> directive \<times> nat" where
  "printk_dir c0 c1 c2 =
     (if c0 = CHR ''d'' then (DInt, 0)
      else if c0 = CHR ''l'' \<and> c1 = CHR ''d'' then (DLong, 1)
      else if c0 = CHR ''l'' \<and> c1 = CHR ''l'' \<and> c2 = CHR ''d'' then (DLong, 2)
      else if c0 = CHR ''u'' then (DUint, 0)
      else if c0 = CHR ''l'' \<and> c1 = CHR ''u'' then (DUlong, 1)
      else if c0 = CHR ''l'' \<and> c1 = CHR ''l'' \<and> c2 = CHR ''u'' then (DUlong, 2)
      else if c0 = CHR ''x'' then (DHex, 0)
      else if c0 = CHR ''l'' \<and> c1 = CHR ''x'' then (DLhex, 1)
      else if c0 = CHR ''l'' \<and> c1 = CHR ''l'' \<and> c2 = CHR ''x'' then (DLhex, 2)
      else if c0 = CHR ''p'' then (DPtr, 0)
      else if c0 = CHR ''c'' then (DChar, 0)
      else if c0 = CHR ''s'' then (DStr, 0)
      else if c0 = CHR ''%'' then (DPercent, 0)
      else if c0 = CHR 0x00 then (DEnd, 0)
      else (DUnknown c0, 0))"

definition vprintf_dir :: "char \<Rightarrow> char \<Rightarrow> char \<Rightarrow> directive \<times> nat" where
  "vprintf_dir c0 c1 c2 =
     (if c0 = CHR ''d'' then (DInt, 0)
      else if c0 = CHR ''l'' \<and> c1 = CHR ''d'' then (DLong, 1)
      else if c0 = CHR ''l'' \<and> c1 = CHR ''l'' \<and> c2 = CHR ''d'' then (DLong, 2)
      else if c0 = CHR ''u'' then (DUint, 0)
      else if c0 = CHR ''l'' \<and> c1 = CHR ''u'' then (DUlong, 1)
      else if c0 = CHR ''l'' \<and> c1 = CHR ''l'' \<and> c2 = CHR ''u'' then (DUlong, 2)
      else if c0 = CHR ''x'' then (DHex, 0)
      else if c0 = CHR ''l'' \<and> c1 = CHR ''x'' then (DLhex, 1)
      else if c0 = CHR ''l'' \<and> c1 = CHR ''l'' \<and> c2 = CHR ''x'' then (DLhex, 2)
      else if c0 = CHR ''p'' then (DPtr, 0)
      else if c0 = CHR ''c'' then (DChar, 0)
      else if c0 = CHR ''s'' then (DStr, 0)
      else if c0 = CHR ''%'' then (DPercent, 0)
      else (DUnknown c0, 0))"

definition peek :: "string \<Rightarrow> nat \<Rightarrow> char" where
  "peek s i = (if i < length s then s ! i else CHR 0x00)"

text \<open>\<open>va_arg(ap, int)\<close> sign-extends the low word, \<open>va_arg(ap, uint32)\<close> zero-extends it.\<close>

definition arg_int :: "u64 \<Rightarrow> u64" where "arg_int w = scast (ucast w :: u32)"
definition arg_uint :: "u64 \<Rightarrow> u64" where "arg_uint w = ucast (ucast w :: u32)"

definition str_or_null :: "string option \<Rightarrow> string" where
  "str_or_null s = (case s of None \<Rightarrow> ''(null)'' | Some t \<Rightarrow> t)"

text \<open>What one directive prints, and the arguments left; \<open>putc_arg\<close> is the effect of \<open>%c\<close>.\<close>

fun do_directive :: "string \<Rightarrow> (u64 \<Rightarrow> string) \<Rightarrow> directive \<Rightarrow> karg list \<Rightarrow> (string \<times> karg list) option" where
  "do_directive digs putc_arg DInt (KWord w # as) = Some (printint digs (arg_int w) 10 True, as)"
| "do_directive digs putc_arg DLong (KWord w # as) = Some (printint digs w 10 True, as)"
| "do_directive digs putc_arg DUint (KWord w # as) = Some (printint digs (arg_uint w) 10 False, as)"
| "do_directive digs putc_arg DUlong (KWord w # as) = Some (printint digs w 10 False, as)"
| "do_directive digs putc_arg DHex (KWord w # as) = Some (printint digs (arg_uint w) 16 False, as)"
| "do_directive digs putc_arg DLhex (KWord w # as) = Some (printint digs w 16 False, as)"
| "do_directive digs putc_arg DPtr (KWord w # as) = Some (printptr digs w, as)"
| "do_directive digs putc_arg DChar (KWord w # as) = Some (putc_arg w, as)"
| "do_directive digs putc_arg DStr (KStr s # as) = Some (str_or_null s, as)"
| "do_directive digs putc_arg DPercent as = Some (''%'', as)"
| "do_directive digs putc_arg (DUnknown c) as = Some (''%'' @ [c], as)"
| "do_directive digs putc_arg DEnd as = Some ([], as)"
| "do_directive digs putc_arg _ _ = None"

text \<open>\<open>consputc\<close>: the code 0x100 erases the last character, any other is cut to a byte.\<close>

definition consputc_out :: "u64 \<Rightarrow> string" where
  "consputc_out c = (if c = 0x100 then [CHR 0x08, CHR '' '', CHR 0x08] else [char_of (unat c)])"

definition putc_out :: "u64 \<Rightarrow> string" where
  "putc_out c = [char_of (unat c)]"

function printk_loop :: "string \<Rightarrow> string \<Rightarrow> karg list \<Rightarrow> string option" where
  "printk_loop digs [] as = Some []"
| "printk_loop digs (cx # fmt) as =
     (if cx \<noteq> CHR ''%'' then map_option ((@) (consputc_out (of_char cx))) (printk_loop digs fmt as)
      else let (d, k) = printk_dir (peek fmt 0) (peek fmt 1) (peek fmt 2) in
        if d = DEnd then Some []
        else case do_directive digs (\<lambda>w. consputc_out (arg_uint w)) d as of None \<Rightarrow> None
          | Some (out, as') \<Rightarrow> map_option ((@) out) (printk_loop digs (drop (Suc k) fmt) as'))"
  by pat_completeness auto
termination by (relation "measure (\<lambda>(digs, fmt, as). length fmt)") simp_all

definition printk :: "string \<Rightarrow> karg list \<Rightarrow> string option" where
  "printk fmt as = printk_loop kernel_digits fmt as"

text \<open>\<open>vprintf\<close> keeps in \<open>state\<close> whether the last character was a percent sign.\<close>

function vprintf_loop :: "string \<Rightarrow> bool \<Rightarrow> string \<Rightarrow> karg list \<Rightarrow> string option" where
  "vprintf_loop digs st [] as = Some []"
| "vprintf_loop digs False (c0 # fmt) as =
     (if c0 = CHR ''%'' then vprintf_loop digs True fmt as
      else map_option ((@) [c0]) (vprintf_loop digs False fmt as))"
| "vprintf_loop digs True (c0 # fmt) as =
     (let (d, k) = vprintf_dir c0 (peek fmt 0) (peek fmt 1) in
      case do_directive digs (\<lambda>w. putc_out (arg_uint w)) d as of None \<Rightarrow> None
      | Some (out, as') \<Rightarrow> map_option ((@) out) (vprintf_loop digs False (drop k fmt) as'))"
  by pat_completeness auto
termination by (relation "measure (\<lambda>(digs, st, fmt, as). length fmt)") simp_all

definition vprintf :: "string \<Rightarrow> karg list \<Rightarrow> string option" where
  "vprintf fmt as = vprintf_loop user_digits False fmt as"

section \<open>Reading a number back\<close>

definition digit_value :: "string \<Rightarrow> char \<Rightarrow> nat" where
  "digit_value digs c = length (takeWhile (\<lambda>d. d \<noteq> c) digs)"

definition read_num :: "string \<Rightarrow> nat \<Rightarrow> string \<Rightarrow> nat" where
  "read_num digs base s = foldl (\<lambda>n c. base * n + digit_value digs c) 0 s"

lemma digit_value_nth:
  assumes "distinct digs" and "i < length digs"
  shows "digit_value digs (digs ! i) = i"
proof -
  have "takeWhile (\<lambda>d. d \<noteq> digs ! i) digs = take i digs"
    using assms by (intro takeWhile_eq_take_P_nth) (auto simp: nth_eq_iff_index_eq)
  then show ?thesis using assms(2) by (simp add: digit_value_def)
qed

lemma read_num_rev: "read_num digs base (rev xs) = foldr (\<lambda>c n. base * n + digit_value digs c) xs 0"
  by (simp add: read_num_def foldl_conv_foldr)

lemma printint_loop_value:
  assumes "distinct digs" and "1 < base" and "unat base \<le> length digs"
  shows "foldr (\<lambda>c n. unat base * n + digit_value digs c) (printint_loop digs base x) 0 = unat x"
  using assms
proof (induction digs base x rule: printint_loop.induct)
  case (1 digs base x)
  have "unat (x mod base) < unat base"
    using "1.prems"(2) by (simp add: unat_mod word_less_nat_alt)
  then have d: "digit_value digs (digs ! unat (x mod base)) = unat x mod unat base"
    using digit_value_nth [of digs "unat (x mod base)"] "1.prems" by (simp add: unat_mod)
  show ?case
  proof (cases "x div base = 0")
    case True
    then have "unat x div unat base = 0" by (simp flip: unat_div)
    then have "unat x mod unat base = unat x" by (simp add: mod_eq_self_iff_div_eq_0)
    then show ?thesis using True d by (subst printint_loop.simps) simp
  next
    case False
    with 1 have "foldr (\<lambda>c n. unat base * n + digit_value digs c) (printint_loop digs base (x div base)) 0 = unat (x div base)" by simp
    then show ?thesis using False d "1.prems"(2) by (subst printint_loop.simps) (simp add: unat_div)
  qed
qed

lemma printint_loop_length:
  assumes "unat x < unat base ^ Suc n" and "1 < base"
  shows "length (printint_loop digs base x) \<le> Suc n"
  using assms(1)
proof (induction n arbitrary: x)
  case 0
  then have "x div base = 0" by (simp add: word_unat_eq_iff unat_div)
  then show ?case by (subst printint_loop.simps) simp
next
  case (Suc n)
  have "unat (x div base) < unat base ^ Suc n"
    using Suc.prems by (simp add: unat_div less_mult_imp_div_less mult.commute)
  from Suc.IH [OF this] show ?case by (subst printint_loop.simps) simp
qed

lemma printint_loop_digits: "unat base \<le> length digs \<Longrightarrow> 1 < base \<Longrightarrow> set (printint_loop digs base x) \<subseteq> set digs"
proof (induction digs base x rule: printint_loop.induct)
  case (1 digs base x)
  have "0 < unat base" using 1(3) by (simp add: word_less_nat_alt)
  then have "unat (x mod base) < unat base" by (simp add: unat_mod)
  with 1 show ?case by (subst printint_loop.simps) auto
qed

text \<open>The two digit tables with the bases they are used with.\<close>

definition digit_table :: "string \<Rightarrow> u64 \<Rightarrow> bool" where
  "digit_table digs base \<longleftrightarrow> (digs = kernel_digits \<or> digs = user_digits) \<and> (base = 10 \<or> base = 16)"

lemma digit_tableD:
  assumes "digit_table digs base"
  shows "distinct digs" and "1 < base" and "unat base \<le> length digs" and "CHR ''-'' \<notin> set digs"
  using assms by (auto simp: digit_table_def kernel_digits_def user_digits_def)

lemma sint_neg_u64:
  assumes "sint (x::u64) < 0"
  shows "int (unat (- x)) = - sint x"
proof -
  have "- x = word_of_int (- sint x)" by simp
  then have "uint (- x) = uint (word_of_int (- sint x) :: u64)" by (rule arg_cong)
  also have "\<dots> = (- sint x) mod 2 ^ 64" by (simp only: uint_word_of_int) simp
  also have "\<dots> = - sint x" using assms sint_ge [of x] by (intro mod_pos_pos_trivial) simp_all
  finally show ?thesis by simp
qed



section \<open>Pointers\<close>

lemma nibble_split:
  fixes v :: nat
  assumes "i \<le> 15"
  shows "(v div 2 ^ 60) * 16 ^ i + (16 * v mod 2 ^ 64) div 16 ^ (16 - i) = v div 16 ^ (15 - i)"
proof -
  have p: "(2::nat) ^ 60 = 16 ^ i * 16 ^ (15 - i)" using assms by (simp flip: power_add)
  have "16 * v mod 2 ^ 64 = 16 * (v mod 2 ^ 60)" by (simp add: mult_mod_right)
  moreover have "16 ^ (16 - i) = 16 * (16::nat) ^ (15 - i)" using assms by (simp add: Suc_diff_le flip: power_Suc)
  ultimately have "(16 * v mod 2 ^ 64) div 16 ^ (16 - i) = (v mod 2 ^ 60) div 16 ^ (15 - i)" by simp
  moreover have "v div 16 ^ (15 - i) = (v div 2 ^ 60) * 16 ^ i + (v mod 2 ^ 60) div 16 ^ (15 - i)"
  proof -
    have "v = (v div 2 ^ 60 * 16 ^ i) * 16 ^ (15 - i) + v mod 2 ^ 60" unfolding p by (simp only: mult.assoc div_mult_mod_eq)
    then have "v div 16 ^ (15 - i) = ((v div 2 ^ 60 * 16 ^ i) * 16 ^ (15 - i) + v mod 2 ^ 60) div 16 ^ (15 - i)"
      by (rule arg_cong)
    also have "\<dots> = v div 2 ^ 60 * 16 ^ i + (v mod 2 ^ 60) div 16 ^ (15 - i)" by (rule div_mult_self3) simp
    finally show ?thesis .
  qed
  ultimately show ?thesis by simp
qed

lemma printptr_loop_value:
  assumes "i \<le> 16" and "distinct digs" and "16 \<le> length digs"
  shows "foldl (\<lambda>n c. 16 * n + digit_value digs c) a (printptr_loop i digs x) = a * 16 ^ i + unat x div 16 ^ (16 - i)"
  using assms(1)
proof (induction i arbitrary: a x)
  case 0
  have "unat x < 2 ^ 64" using unsigned_less [of x, where 'a = nat] by simp
  then show ?case by simp
next
  case (Suc i)
  have top: "unat (drop_bit 60 x) = unat x div 2 ^ 60" by (simp add: drop_bit_eq_div unat_div)
  have lt: "unat x < 2 ^ 64" using unsigned_less [of x, where 'a = nat] by simp
  then have "unat (drop_bit 60 x) < 16" unfolding top by (simp add: less_mult_imp_div_less)
  then have d: "digit_value digs (digs ! unat (drop_bit 60 x)) = unat x div 2 ^ 60"
    using digit_value_nth [OF assms(2), of "unat (drop_bit 60 x)"] assms(3) top by simp
  have sh: "unat (push_bit 4 x) = 16 * unat x mod 2 ^ 64"
    by (simp add: push_bit_eq_mult unat_word_ariths mult.commute)
  have "foldl (\<lambda>n c. 16 * n + digit_value digs c) a (printptr_loop (Suc i) digs x) =
      (16 * a + unat x div 2 ^ 60) * 16 ^ i + (16 * unat x mod 2 ^ 64) div 16 ^ (16 - i)"
    using Suc.IH [of "16 * a + unat x div 2 ^ 60" "push_bit 4 x"] Suc.prems by (simp add: d sh)
  also have "\<dots> = a * 16 ^ Suc i + unat x div 16 ^ (15 - i)"
    using nibble_split [of i "unat x"] Suc.prems by (simp add: algebra_simps)
  finally show ?case by simp
qed

lemma printptr_loop_length [simp]: "length (printptr_loop i digs x) = i"
  by (induction i arbitrary: x) simp_all

text \<open>
  C28: \<open>printptr\<close> prints \<open>0x\<close> and exactly sixteen digits, which read as a
  hexadecimal number give the pointer.
\<close>

theorem printptr_correct:
  assumes "digs = kernel_digits \<or> digs = user_digits"
  shows "\<exists>ds. printptr digs x = ''0x'' @ ds \<and> length ds = 16 \<and> read_num digs 16 ds = unat x"
proof (intro exI conjI)
  show "printptr digs x = ''0x'' @ printptr_loop 16 digs x" by (simp add: printptr_def)
  show "length (printptr_loop 16 digs x) = 16" by (rule printptr_loop_length)
  have "digit_table digs 16" using assms by (simp add: digit_table_def)
  from digit_tableD [OF this] show "read_num digs 16 (printptr_loop 16 digs x) = unat x"
    using printptr_loop_value [of 16 digs 0 x] by (simp add: read_num_def)
qed

theorem printptr_correct_witness:
  "printptr kernel_digits 0x80000fff = ''0x0000000080000fff'' \<and>
   (\<exists>ds. printptr kernel_digits 0x80000fff = ''0x'' @ ds \<and> read_num kernel_digits 16 ds = 0x80000fff)"
proof
  show "printptr kernel_digits 0x80000fff = ''0x0000000080000fff''" by code_simp
  show "\<exists>ds. printptr kernel_digits 0x80000fff = ''0x'' @ ds \<and> read_num kernel_digits 16 ds = 0x80000fff"
    using printptr_correct [of kernel_digits "0x80000fff"] by auto
qed

section \<open>The kernel and the user formatter\<close>

lemma printk_vprintf_dir:
  "c0 \<noteq> CHR 0x00 \<Longrightarrow> printk_dir c0 c1 c2 = vprintf_dir c0 c1 c2"
  by (simp add: printk_dir_def vprintf_dir_def)

lemma printk_dir_end [simp]: "printk_dir (CHR 0x00) c1 c2 = (DEnd, 0)"
  by (simp add: printk_dir_def)

lemma vprintf_dir_not_end: "c0 \<noteq> CHR 0x00 \<Longrightarrow> vprintf_dir c0 c1 c2 \<noteq> (DEnd, k)"
  by (simp add: vprintf_dir_def)

lemma peek_simps [simp]: "peek [] i = CHR 0x00" "peek (c # s) 0 = c" "peek (c # s) (Suc i) = peek s i"
  by (simp_all add: peek_def)

lemma do_directive_args: "do_directive digs f d as = Some (out, as') \<Longrightarrow> set as' \<subseteq> set as"
  by (cases "(digs, f, d, as)" rule: do_directive.cases) auto

lemma do_directive_char:
  assumes "\<And>w. KWord w \<in> set as \<Longrightarrow> f w = g w"
  shows "do_directive digs f d as = do_directive digs g d as"
  using assms by (cases "(digs, f, d, as)" rule: do_directive.cases) auto

lemma consputc_byte: "arg_uint w \<noteq> 0x100 \<Longrightarrow> consputc_out (arg_uint w) = putc_out (arg_uint w)"
  by (simp add: consputc_out_def putc_out_def)

lemma consputc_char: "consputc_out (of_char c) = [c]"
proof -
  have u: "unat (of_char c :: u64) = of_char c" by (simp add: of_char_def unat_of_nat)
  have lt: "of_char c < (256::nat)" by (metis mod_less_divisor of_char_mod_256 zero_less_numeral)
  have "(of_char c :: u64) \<noteq> 0x100"
  proof
    assume "(of_char c :: u64) = 0x100"
    then have "of_char c = (256::nat)" using u by simp
    with lt show False by simp
  qed
  then show ?thesis using u by (simp add: consputc_out_def)
qed



end
