(* ===== verification/Console.thy ===== *)
theory Console
  imports KState Ring Printk
begin

text \<open>
  The uart driver and the console: \<open>kernel/uart.c\<close> and \<open>kernel/console.c\<close>. The
  state has the bytes sent to the transmit register, the bytes waiting in the receive
  register, and the answers that the next reads of the transmitter's idle bit will give,
  which is the part of the device the code can see. The facts show that the console
  implements a line editor, that the cooked input never overruns its buffer, and that a
  read delivers complete lines in order.
\<close>

section \<open>State\<close>

definition INPUT_BUF_SIZE :: nat where "INPUT_BUF_SIZE = 128"

record cons =
  cons_buf :: "u8 list"
  cons_r :: u32
  cons_w :: u32
  cons_e :: u32

record kcons = kproc +
  kc_out :: "u8 list"
  kc_rx :: "u8 list"
  kc_lsr :: "bool list"
  kc_txlock :: sleeplock
  kc_cons :: cons

section \<open>The uart\<close>

text \<open>
  A read of the line status register: whether the transmitter is idle. The list holds the
  answers of the device; it is idle when the list is used up.
\<close>

definition read_lsr_idle :: "('z kcons_scheme, bool) kop" where
  "read_lsr_idle s = (case kc_lsr s of [] \<Rightarrow> Ret True s | b # bs \<Rightarrow> Ret b (s\<lparr>kc_lsr := bs\<rparr>))"

definition write_thr :: "u8 \<Rightarrow> ('z kcons_scheme, unit) kop" where
  "write_thr c = kmod (\<lambda>s. s\<lparr>kc_out := kc_out s @ [c]\<rparr>)"

primrec spin_idle :: "bool list \<Rightarrow> bool list" where
  "spin_idle [] = []"
| "spin_idle (b # bs) = (if b then bs else spin_idle bs)"

definition uartputc_sync :: "u8 \<Rightarrow> ('z kcons_scheme, unit) kop" where
  "uartputc_sync c = kseq (kmod (\<lambda>s. s\<lparr>kc_lsr := spin_idle (kc_lsr s)\<rparr>)) (write_thr c)"

primrec uartwrite_loop :: "u8 list \<Rightarrow> ('z kcons_scheme, unit) kop" where
  "uartwrite_loop [] = kret ()"
| "uartwrite_loop (c # cs) = (\<lambda>s.
     kseq (on_procs (sleep_prepare (kp_me s) (Some AddrTxChan)))
       (kbind read_lsr_idle (\<lambda>idle.
          if idle then kseq (write_thr c) (uartwrite_loop cs)
          else (\<lambda>s. on_procs (sleep (kp_me s)) s))) s)"

definition uartwrite :: "u8 list \<Rightarrow> ('z kcons_scheme, unit) kop" where
  "uartwrite cs =
     kseq (acquiresleep kc_txlock (\<lambda>l s. s\<lparr>kc_txlock := l\<rparr>) AddrTxLock)
       (kseq (uartwrite_loop cs)
         (releasesleep kc_txlock (\<lambda>l s. s\<lparr>kc_txlock := l\<rparr>) AddrTxLock))"

definition uartgetc :: "('z kcons_scheme, u8 option) kop" where
  "uartgetc s = (case kc_rx s of [] \<Rightarrow> Ret None s | c # cs \<Rightarrow> Ret (Some c) (s\<lparr>kc_rx := cs\<rparr>))"

section \<open>The console\<close>

definition consputc :: "u8 \<Rightarrow> ('z kcons_scheme, unit) kop" where
  "consputc c = uartputc_sync c"

definition consputc_backspace :: "('z kcons_scheme, unit) kop" where
  "consputc_backspace = kseq (uartputc_sync 8) (kseq (uartputc_sync 0x20) (uartputc_sync 8))"

definition kprintk :: "string \<Rightarrow> karg list \<Rightarrow> ('z kcons_scheme, unit) kop" where
  "kprintk fmt as s = (case printk fmt as of None \<Rightarrow> Fault | Some out \<Rightarrow> kfor (map of_char out) uartputc_sync s)"

fun state_name :: "procstate \<Rightarrow> string" where
  "state_name UNUSED = ''unused''"
| "state_name USED = ''used''"
| "state_name SLEEPING = ''sleep ''"
| "state_name RUNNABLE = ''runble''"
| "state_name RUNNING = ''run   ''"
| "state_name ZOMBIE = ''zombie''"

definition name_string :: "u8 list \<Rightarrow> string" where
  "name_string bs = map (\<lambda>b. char_of (unat b)) (takeWhile (\<lambda>b. b \<noteq> 0) bs)"

definition procdump :: "('z kcons_scheme, unit) kop" where
  "procdump =
     kseq (kprintk [CHR 0x0A] [])
       (\<lambda>s. kfor (kp_procs s) (\<lambda>p.
          if p_state p = UNUSED then kret ()
          else kseq (kprintk ''%d %s %s'' [KWord (word_of_int (p_pid p)), KStr (Some (state_name (p_state p))),
                       KStr (Some (name_string (p_name p)))])
                 (kprintk [CHR 0x0A] [])) s)"

primrec consolewrite_loop :: "nat \<Rightarrow> u64 \<Rightarrow> int \<Rightarrow> int \<Rightarrow> ('z kcons_scheme, int) kop" where
  "consolewrite_loop 0 src n i = kret i"
| "consolewrite_loop (Suc k) src n i =
     (if i < n then
        let nn = min 32 (n - i) in
        kbind (copyin_me (src + word_of_int i) (nat nn)) (\<lambda>(r, bs).
          if r = -1 then kret i
          else kseq (uartwrite bs) (consolewrite_loop k src n (i + nn)))
      else kret i)"

text \<open>Every turn writes a byte, so \<open>n\<close> turns are enough.\<close>

definition consolewrite :: "u64 \<Rightarrow> int \<Rightarrow> ('z kcons_scheme, int) kop" where
  "consolewrite src n = consolewrite_loop (nat n) src n 0"

definition upd_cons :: "(cons \<Rightarrow> cons) \<Rightarrow> ('z kcons_scheme, unit) kop" where
  "upd_cons f = kmod (\<lambda>s. s\<lparr>kc_cons := f (kc_cons s)\<rparr>)"

text \<open>
  The loop of \<open>consoleread\<close> with \<open>n\<close> bytes to go; \<open>got\<close> bytes have been
  copied. The result is \<open>target - n\<close>, or -1 if the process was killed.
\<close>

primrec consoleread_loop :: "nat \<Rightarrow> nat \<Rightarrow> u64 \<Rightarrow> ('z kcons_scheme, int) kop" where
  "consoleread_loop 0 got dst = kret (int got)"
| "consoleread_loop (Suc n) got dst = (\<lambda>s.
     let cs = kc_cons s in
     if cons_r cs = cons_w cs then
       if kkilled s then Ret (-1) s else ksleep AddrConsR s
     else let c = cons_buf cs ! ring_slot INPUT_BUF_SIZE (cons_r cs) in
       kseq (upd_cons (\<lambda>x. x\<lparr>cons_r := cons_r x + 1\<rparr>))
         (if c = 4 then
            kseq (if 0 < got then upd_cons (\<lambda>x. x\<lparr>cons_r := cons_r x - 1\<rparr>) else kret ()) (kret (int got))
          else kbind (copyout_me dst [c]) (\<lambda>r.
            if r = -1 then kret (int got)
            else if c = 10 then kret (int got + 1)
            else consoleread_loop n (got + 1) (dst + 1))) s)"

definition consoleread :: "u64 \<Rightarrow> int \<Rightarrow> ('z kcons_scheme, int) kop" where
  "consoleread dst n = consoleread_loop (nat n) 0 dst"

text \<open>Kill line: the loop runs at most over the bytes between \<open>w\<close> and \<open>e\<close>.\<close>

primrec kill_line :: "nat \<Rightarrow> ('z kcons_scheme, unit) kop" where
  "kill_line 0 = kret ()"
| "kill_line (Suc k) = (\<lambda>s.
     let cs = kc_cons s in
     if cons_e cs \<noteq> cons_w cs \<and> cons_buf cs ! ring_slot INPUT_BUF_SIZE (cons_e cs - 1) \<noteq> 10
     then kseq (upd_cons (\<lambda>x. x\<lparr>cons_e := cons_e x - 1\<rparr>)) (kseq consputc_backspace (kill_line k)) s
     else Ret () s)"

definition cons_put :: "u8 \<Rightarrow> cons \<Rightarrow> cons" where
  "cons_put c x = x\<lparr>cons_buf := (cons_buf x)[ring_slot INPUT_BUF_SIZE (cons_e x) := c], cons_e := cons_e x + 1\<rparr>"

definition consoleintr :: "u8 \<Rightarrow> ('z kcons_scheme, unit) kop" where
  "consoleintr c = (\<lambda>s.
     let cs = kc_cons s in
     if c = 0x10 then procdump s
     else if c = 0x15 then kill_line (unat (cons_e cs - cons_w cs)) s
     else if c = 8 \<or> c = 0x7f then
       if cons_e cs \<noteq> cons_w cs
       then kseq (upd_cons (\<lambda>x. x\<lparr>cons_e := cons_e x - 1\<rparr>)) consputc_backspace s
       else Ret () s
     else if c \<noteq> 0 \<and> cons_e cs - cons_r cs < of_nat INPUT_BUF_SIZE then
       let c = (if c = 0x0D then 0x0A else c) in
       kseq (consputc c)
         (kseq (upd_cons (cons_put c))
           (\<lambda>s. let cs = kc_cons s in
             if c = 0x0A \<or> c = 4 \<or> cons_e cs - cons_r cs = of_nat INPUT_BUF_SIZE
             then kseq (upd_cons (\<lambda>x. x\<lparr>cons_w := cons_e x\<rparr>)) (kwakeup AddrConsR) s
             else Ret () s)) s
     else Ret () s)"

primrec uartintr_loop :: "nat \<Rightarrow> ('z kcons_scheme, unit) kop" where
  "uartintr_loop 0 = kret ()"
| "uartintr_loop (Suc k) =
     kbind uartgetc (\<lambda>c. case c of None \<Rightarrow> kret () | Some ch \<Rightarrow> kseq (consoleintr ch) (uartintr_loop k))"

definition uartintr :: "('z kcons_scheme, unit) kop" where
  "uartintr =
     kbind read_lsr_idle (\<lambda>idle.
       kseq (if idle then kwakeup AddrTxChan else kret ())
         (\<lambda>s. uartintr_loop (Suc (length (kc_rx s))) s))"

section \<open>The console is a line editor\<close>

interpretation cons_ring: ring_buffer INPUT_BUF_SIZE "TYPE(32)"
  by unfold_locales (simp_all add: INPUT_BUF_SIZE_def)

text \<open>
  The specification: the bytes of complete lines that wait for a reader, and the line
  being edited.
\<close>

definition edit :: "u8 \<Rightarrow> u8 list \<times> u8 list \<Rightarrow> u8 list \<times> u8 list" where
  "edit c = (\<lambda>(ready, line).
     if c = 0x10 then (ready, line)
     else if c = 0x15 then (ready, [])
     else if c = 8 \<or> c = 0x7f then (ready, butlast line)
     else if c \<noteq> 0 \<and> length ready + length line < INPUT_BUF_SIZE then
       let c = (if c = 0x0D then 0x0A else c); line = line @ [c] in
       if c = 0x0A \<or> c = 4 \<or> length ready + length line = INPUT_BUF_SIZE then (ready @ line, []) else (ready, line)
     else (ready, line))"

definition cons_ready :: "cons \<Rightarrow> u8 list" where
  "cons_ready x = ring_contents INPUT_BUF_SIZE (cons_buf x) (cons_r x) (cons_w x)"

definition cons_line :: "cons \<Rightarrow> u8 list" where
  "cons_line x = ring_contents INPUT_BUF_SIZE (cons_buf x) (cons_w x) (cons_e x)"

definition cons_ok :: "cons \<Rightarrow> bool" where
  "cons_ok x \<longleftrightarrow> length (cons_buf x) = INPUT_BUF_SIZE \<and>
     length (cons_ready x) + length (cons_line x) \<le> INPUT_BUF_SIZE \<and> 10 \<notin> set (cons_line x)"

lemma map_upt_shift: "map f [a..<a + b] = map (\<lambda>i. f (a + i)) [0..<b]"
  by (intro nth_equalityI) simp_all

lemma ring_split:
  assumes "unat (w - r) + unat (e - w) < 2 ^ 32"
  shows "unat (e - r) = unat (w - r) + unat (e - w)"
    and "ring_contents N b r e = ring_contents N b r w @ ring_contents N b w (e::u32)"
proof -
  have "unat (e - r) = unat ((w - r) + (e - w))" by simp
  also have "\<dots> = unat (w - r) + unat (e - w)" using assms by (simp only: unat_word_ariths) simp
  finally show n: "unat (e - r) = unat (w - r) + unat (e - w)" .
  have shift: "r + of_nat (unat (w - r) + i) = w + of_nat i" for i by simp
  have "map (\<lambda>i. b ! ring_slot N (r + of_nat i)) [unat (w - r)..<unat (w - r) + unat (e - w)] =
      map (\<lambda>i. b ! ring_slot N (r + of_nat (unat (w - r) + i))) [0..<unat (e - w)]"
    by (rule map_upt_shift)
  also have "\<dots> = map (\<lambda>i. b ! ring_slot N (w + of_nat i)) [0..<unat (e - w)]" by (simp only: shift)
  finally have "map (\<lambda>i. b ! ring_slot N (r + of_nat i)) [unat (w - r)..<unat (w - r) + unat (e - w)] =
      map (\<lambda>i. b ! ring_slot N (w + of_nat i)) [0..<unat (e - w)]" .
  then show "ring_contents N b r e = ring_contents N b r w @ ring_contents N b w e"
    unfolding ring_contents_def n upt_add_eq_append [OF le0] map_append by (rule arg_cong)
qed

lemma cons_lengths:
  "length (cons_ready x) = unat (cons_w x - cons_r x)" "length (cons_line x) = unat (cons_e x - cons_w x)"
  by (simp_all add: cons_ready_def cons_line_def)

lemma INPUT_BUF_small: "n \<le> INPUT_BUF_SIZE \<Longrightarrow> n < 2 ^ 32"
  by (simp add: INPUT_BUF_SIZE_def)

lemma cons_sizes:
  assumes "cons_ok x"
  shows "unat (cons_e x - cons_r x) = length (cons_ready x) + length (cons_line x)"
    and "ring_contents INPUT_BUF_SIZE (cons_buf x) (cons_r x) (cons_e x) = cons_ready x @ cons_line x"
proof -
  have lt: "unat (cons_w x - cons_r x) + unat (cons_e x - cons_w x) < 2 ^ 32"
    using assms by (intro INPUT_BUF_small) (simp add: cons_ok_def cons_lengths)
  show "unat (cons_e x - cons_r x) = length (cons_ready x) + length (cons_line x)"
    by (simp add: ring_split(1) [OF lt] cons_ready_def cons_line_def)
  show "ring_contents INPUT_BUF_SIZE (cons_buf x) (cons_r x) (cons_e x) = cons_ready x @ cons_line x"
    by (simp add: ring_split(2) [OF lt] cons_ready_def cons_line_def)
qed

lemma cons_line_empty_iff: "cons_line x = [] \<longleftrightarrow> cons_e x = cons_w x"
  by (auto simp: cons_line_def cons_ring.contents_empty_iff)

lemma cons_ready_empty_iff: "cons_ready x = [] \<longleftrightarrow> cons_r x = cons_w x"
  by (simp add: cons_ready_def cons_ring.contents_empty_iff)

lemma cons_erase:
  assumes "cons_ok x" and "cons_e x \<noteq> cons_w x"
  shows "cons_line (x\<lparr>cons_e := cons_e x - 1\<rparr>) = butlast (cons_line x)"
    and "cons_ready (x\<lparr>cons_e := cons_e x - 1\<rparr>) = cons_ready x"
    and "cons_ok (x\<lparr>cons_e := cons_e x - 1\<rparr>)"
    and "cons_buf x ! ring_slot INPUT_BUF_SIZE (cons_e x - 1) \<noteq> 10"
proof -
  let ?x = "x\<lparr>cons_e := cons_e x - 1\<rparr>"
  have eq: "cons_line x = cons_line ?x @ [cons_buf x ! ring_slot INPUT_BUF_SIZE (cons_e x - 1)]"
    using cons_ring.contents_unput [OF assms(2) [symmetric], of "cons_buf x"] by (simp add: cons_line_def)
  then show "cons_line ?x = butlast (cons_line x)" by simp
  show r: "cons_ready ?x = cons_ready x" by (simp add: cons_ready_def)
  show "cons_ok ?x" using assms(1) eq r by (simp add: cons_ok_def)
  show "cons_buf x ! ring_slot INPUT_BUF_SIZE (cons_e x - 1) \<noteq> 10" using assms(1) eq by (auto simp: cons_ok_def)
qed

lemma cons_put_abs:
  assumes "cons_ok x" and "length (cons_ready x) + length (cons_line x) < INPUT_BUF_SIZE"
  shows "cons_ready (cons_put c x) = cons_ready x" and "cons_line (cons_put c x) = cons_line x @ [c]"
proof -
  let ?y = "cons_put c x"
  have len: "length (cons_buf x) = INPUT_BUF_SIZE" using assms(1) by (simp add: cons_ok_def)
  have "unat (cons_e x - cons_w x) < INPUT_BUF_SIZE" using assms(2) by (simp add: cons_line_def)
  from cons_ring.contents_put [OF len this] show l: "cons_line ?y = cons_line x @ [c]"
    by (simp add: cons_line_def cons_put_def)
  have "unat (cons_e x - cons_r x) < INPUT_BUF_SIZE" using assms by (simp add: cons_sizes(1))
  from cons_ring.contents_put [OF len this, of c] cons_sizes(2) [OF assms(1)]
  have whole: "ring_contents INPUT_BUF_SIZE (cons_buf ?y) (cons_r x) (cons_e x + 1) = cons_ready x @ cons_line x @ [c]"
    by (simp add: cons_put_def)
  have n: "length (cons_line ?y) = unat (cons_e x + 1 - cons_w x)" by (simp add: cons_lengths cons_put_def)
  have "unat (cons_w x - cons_r x) + unat (cons_e x + 1 - cons_w x) < 2 ^ 32"
    using assms(2) l by (intro INPUT_BUF_small) (simp add: cons_lengths(1) flip: n)
  from ring_split(2) [OF this, of INPUT_BUF_SIZE "cons_buf ?y"] whole
  have "cons_ready ?y @ cons_line ?y = cons_ready x @ cons_line x @ [c]"
    by (simp add: cons_ready_def cons_line_def cons_put_def)
  then show "cons_ready ?y = cons_ready x" by (simp add: l)
qed

lemma upd_cons_apply [simp]: "upd_cons f s = Ret () (s\<lparr>kc_cons := f (kc_cons s)\<rparr>)"
  by (simp add: upd_cons_def)

lemma uartputc_sync_apply [simp]:
  "uartputc_sync c s = Ret () (s\<lparr>kc_lsr := spin_idle (kc_lsr s), kc_out := kc_out s @ [c]\<rparr>)"
  by (simp add: uartputc_sync_def write_thr_def)

lemma backspace_cons: "\<exists>t. consputc_backspace s = Ret () t \<and> kc_cons t = kc_cons s"
  by (simp add: consputc_backspace_def)

lemma putc_for_state: "\<exists>out lsr. kfor cs uartputc_sync s = Ret () (s\<lparr>kc_out := out, kc_lsr := lsr\<rparr>)"
proof (induction cs arbitrary: s)
  case (Cons c cs)
  from Cons.IH [of "s\<lparr>kc_lsr := spin_idle (kc_lsr s), kc_out := kc_out s @ [c]\<rparr>"] show ?case by auto
next
  case Nil
  show ?case by (rule exI [of _ "kc_out s"], rule exI [of _ "kc_lsr s"]) simp
qed

lemma kprintk_state:
  "printk fmt as \<noteq> None \<Longrightarrow> \<exists>out lsr. kprintk fmt as s = Ret () (s\<lparr>kc_out := out, kc_lsr := lsr\<rparr>)"
  by (auto simp: kprintk_def putc_for_state)

lemma kprintk_cons: "printk fmt as \<noteq> None \<Longrightarrow> \<exists>t. kprintk fmt as s = Ret () t \<and> kc_cons t = kc_cons s"
  using kprintk_state [of fmt as s] by auto

lemma procdump_formats: "printk [CHR 0x0A] [] \<noteq> None" "printk ''%d %s %s'' [KWord w, KStr a, KStr b] \<noteq> None"
  by (simp_all add: printk_def printk_dir_def peek_def Let_def)

lemma procdump_loop_cons:
  "\<exists>t. kfor ps (\<lambda>p. if p_state p = UNUSED then kret ()
          else kseq (kprintk ''%d %s %s'' [KWord (word_of_int (p_pid p)), KStr (Some (state_name (p_state p))),
                       KStr (Some (name_string (p_name p)))])
                 (kprintk [CHR 0x0A] [])) s = Ret () t \<and> kc_cons t = kc_cons s"
proof (induction ps arbitrary: s)
  case (Cons p ps)
  show ?case
  proof (cases "p_state p = UNUSED")
    case True
    with Cons show ?thesis by simp
  next
    case False
    obtain t1 where "kprintk ''%d %s %s'' [KWord (word_of_int (p_pid p)), KStr (Some (state_name (p_state p))),
                       KStr (Some (name_string (p_name p)))] s = Ret () t1" "kc_cons t1 = kc_cons s"
      using kprintk_cons [OF procdump_formats(2)] by blast
    moreover obtain t2 where "kprintk [CHR 0x0A] [] t1 = Ret () t2" "kc_cons t2 = kc_cons t1"
      using kprintk_cons [OF procdump_formats(1)] by blast
    ultimately show ?thesis using False Cons.IH [of t2] by (simp add: kseq_apply)
  qed
qed simp

lemma procdump_cons: "\<exists>t. procdump s = Ret () t \<and> kc_cons t = kc_cons s"
proof -
  obtain t1 where "kprintk [CHR 0x0A] [] s = Ret () t1" "kc_cons t1 = kc_cons s"
    using kprintk_cons [OF procdump_formats(1)] by blast
  then show ?thesis using procdump_loop_cons [of "kp_procs t1" t1] by (simp add: procdump_def kseq_apply)
qed

lemma kill_line_cons:
  assumes "cons_ok (kc_cons s)" and "length (cons_line (kc_cons s)) \<le> k"
  shows "\<exists>t. kill_line k s = Ret () t \<and> cons_ok (kc_cons t) \<and> cons_line (kc_cons t) = [] \<and>
    cons_ready (kc_cons t) = cons_ready (kc_cons s)"
  using assms
proof (induction k arbitrary: s)
  case (Suc k)
  let ?x = "kc_cons s"
  show ?case
  proof (cases "cons_e ?x = cons_w ?x")
    case True
    with Suc.prems show ?thesis by (simp add: cons_line_empty_iff)
  next
    case False
    let ?y = "?x\<lparr>cons_e := cons_e ?x - 1\<rparr>"
    note er = cons_erase [OF Suc.prems(1) False]
    obtain t1 where t1: "consputc_backspace (s\<lparr>kc_cons := ?y\<rparr>) = Ret () t1" "kc_cons t1 = ?y"
      using backspace_cons [of "s\<lparr>kc_cons := ?y\<rparr>"] by auto
    have "length (cons_line (kc_cons t1)) \<le> k" using Suc.prems(2) er(1) t1(2) by simp
    from Suc.IH [OF _ this] er t1(2) obtain t where
      "kill_line k t1 = Ret () t" "cons_ok (kc_cons t)" "cons_line (kc_cons t) = []" "cons_ready (kc_cons t) = cons_ready ?x"
      by auto
    then show ?thesis using False er(4) t1(1) by (simp add: Let_def)
  qed
qed simp

lemma cons_full_iff:
  assumes "cons_ok x"
  shows "cons_e x - cons_r x < of_nat INPUT_BUF_SIZE \<longleftrightarrow> length (cons_ready x) + length (cons_line x) < INPUT_BUF_SIZE"
    and "cons_e x - cons_r x = of_nat INPUT_BUF_SIZE \<longleftrightarrow> length (cons_ready x) + length (cons_line x) = INPUT_BUF_SIZE"
  by (simp_all add: word_less_nat_alt word_unat_eq_iff cons_sizes(1) [OF assms] INPUT_BUF_SIZE_def)

lemma cons_commit:
  assumes "length (cons_buf x) = INPUT_BUF_SIZE" and "length (cons_ready x) + length (cons_line x) \<le> INPUT_BUF_SIZE"
  shows "cons_ready (x\<lparr>cons_w := cons_e x\<rparr>) = cons_ready x @ cons_line x"
    and "cons_line (x\<lparr>cons_w := cons_e x\<rparr>) = []" and "cons_ok (x\<lparr>cons_w := cons_e x\<rparr>)"
proof -
  have "unat (cons_w x - cons_r x) + unat (cons_e x - cons_w x) < 2 ^ 32"
    using assms(2) by (intro INPUT_BUF_small) (simp add: cons_lengths)
  from ring_split(2) [OF this] show r: "cons_ready (x\<lparr>cons_w := cons_e x\<rparr>) = cons_ready x @ cons_line x"
    by (simp add: cons_ready_def cons_line_def)
  show l: "cons_line (x\<lparr>cons_w := cons_e x\<rparr>) = []" by (simp add: cons_line_empty_iff)
  show "cons_ok (x\<lparr>cons_w := cons_e x\<rparr>)" using assms by (simp add: cons_ok_def r l)
qed

lemma consoleintr_char:
  fixes c :: u8
  assumes "cons_ok x" and "length (cons_ready x) + length (cons_line x) < INPUT_BUF_SIZE"
  defines "y \<equiv> cons_put c x"
  defines "z \<equiv> (if c = 0x0A \<or> c = 4 \<or> cons_e y - cons_r y = of_nat INPUT_BUF_SIZE then y\<lparr>cons_w := cons_e y\<rparr> else y)"
  shows "cons_ok z" and "(cons_ready z, cons_line z) =
    (if c = 0x0A \<or> c = 4 \<or> length (cons_ready x) + length (cons_line x) + 1 = INPUT_BUF_SIZE
     then (cons_ready x @ cons_line x @ [c], []) else (cons_ready x, cons_line x @ [c]))"
proof -
  note put = cons_put_abs [OF assms(1,2), of c, folded y_def]
  have buf: "length (cons_buf y) = INPUT_BUF_SIZE"
    using assms(1) by (simp add: y_def cons_put_def cons_ok_def)
  have len: "length (cons_ready y) + length (cons_line y) \<le> INPUT_BUF_SIZE" using assms(2) put by simp
  have ne: "unat (cons_e y - cons_r y) = length (cons_ready y) + length (cons_line y)"
    using ring_split(1) [OF INPUT_BUF_small [OF len [unfolded cons_lengths]]] by (simp add: cons_lengths)
  have full: "cons_e y - cons_r y = of_nat INPUT_BUF_SIZE \<longleftrightarrow>
      length (cons_ready x) + length (cons_line x) + 1 = INPUT_BUF_SIZE"
    using ne put by (simp add: word_unat_eq_iff INPUT_BUF_SIZE_def)
  note cm = cons_commit [OF buf len]
  show "cons_ok z"
    using cm(3) assms(1) buf len put by (auto simp: z_def cons_ok_def)
  show "(cons_ready z, cons_line z) =
    (if c = 0x0A \<or> c = 4 \<or> length (cons_ready x) + length (cons_line x) + 1 = INPUT_BUF_SIZE
     then (cons_ready x @ cons_line x @ [c], []) else (cons_ready x, cons_line x @ [c]))"
    using cm(1,2) put by (simp add: z_def full)
qed

text \<open>
  C24: console input is a line editor. For every byte that arrives, \<open>consoleintr\<close>
  does to its circular buffer what the editor does to the finished lines and the current
  line: it appends, erases the last character, erases the line, or finishes the line at a
  newline, at control-D, or when the buffer is full. The buffer is never overrun and the
  current line never contains a newline, also when the counters wrap around.
\<close>

theorem consoleintr_edits:
  assumes "cons_ok (kc_cons s)"
  shows "\<exists>t. consoleintr c s = Ret () t \<and> cons_ok (kc_cons t) \<and>
    (cons_ready (kc_cons t), cons_line (kc_cons t)) = edit c (cons_ready (kc_cons s), cons_line (kc_cons s))"
proof -
  let ?x = "kc_cons s"
  consider (p) "c = 0x10" | (u) "c = 0x15" | (h) "c = 8 \<or> c = 0x7f"
    | (d) "c \<noteq> 0x10" "c \<noteq> 0x15" "\<not> (c = 8 \<or> c = 0x7f)" by blast
  then show ?thesis
  proof cases
    case p
    then show ?thesis using procdump_cons [of s] assms by (auto simp: consoleintr_def edit_def)
  next
    case u
    have "length (cons_line ?x) \<le> unat (cons_e ?x - cons_w ?x)" by (simp add: cons_lengths)
    from kill_line_cons [OF assms this] u show ?thesis by (auto simp: consoleintr_def edit_def Let_def)
  next
    case h
    then have c: "c \<noteq> 0x10" "c \<noteq> 0x15" by auto
    show ?thesis
    proof (cases "cons_e ?x = cons_w ?x")
      case True
      moreover from this have "cons_line ?x = []" by (simp add: cons_line_empty_iff)
      ultimately show ?thesis using h c assms by (auto simp: consoleintr_def edit_def Let_def)
    next
      case False
      with h c cons_erase [OF assms False] backspace_cons [of "s\<lparr>kc_cons := ?x\<lparr>cons_e := cons_e ?x - 1\<rparr>\<rparr>"]
      show ?thesis by (auto simp: consoleintr_def edit_def Let_def)
    qed
  next
    case d
    define c' where "c' = (if c = 0x0D then 0x0A else c)"
    show ?thesis
    proof (cases "c \<noteq> 0 \<and> length (cons_ready ?x) + length (cons_line ?x) < INPUT_BUF_SIZE")
      case True
      note ch = consoleintr_char [OF assms, of c', OF conjunct2 [OF True]]
      define y where "y = cons_put c' ?x"
      define z where "z = (if c' = 0x0A \<or> c' = 4 \<or> cons_e y - cons_r y = of_nat INPUT_BUF_SIZE then y\<lparr>cons_w := cons_e y\<rparr> else y)"
      have "\<exists>t. consoleintr c s = Ret () t \<and> kc_cons t = z"
        using d True cons_full_iff(1) [OF assms]
        by (auto simp: consoleintr_def consputc_def Let_def c'_def [symmetric] y_def [symmetric] z_def)
      with ch [folded y_def, folded z_def] d True show ?thesis
        by (auto simp: edit_def Let_def c'_def [symmetric])
    next
      case False
      with d assms cons_full_iff(1) [OF assms] show ?thesis
        by (auto simp: consoleintr_def edit_def Let_def)
    qed
  qed
qed

text \<open>A console whose counters are about to wrap around, with one byte on the current line.\<close>

definition demo_cons :: cons where
  "demo_cons = \<lparr>cons_buf = (replicate INPUT_BUF_SIZE 0)[127 := 97], cons_r = 0xFFFFFFFF, cons_w = 0xFFFFFFFF, cons_e = 0\<rparr>"

definition demo_console :: kcons where
  "demo_console = \<lparr>km_mem = demo_user_mem, km_freelist = 0, km_end = 0x80020000,
     kp_procs = [demo_user_proc], kp_nextpid = 4, kp_initproc = Some 0, kp_me = 0,
     kc_out = [], kc_rx = [], kc_lsr = [], kc_txlock = initsleeplock, kc_cons = demo_cons\<rparr>"

lemma demo_cons_view: "cons_ready demo_cons = []" "cons_line demo_cons = [97]" "cons_ok demo_cons"
proof -
  show l: "cons_line demo_cons = [97]"
    by (simp add: demo_cons_def cons_line_def ring_contents_def ring_slot_def INPUT_BUF_SIZE_def)
  show r: "cons_ready demo_cons = []"
    by (simp add: demo_cons_def cons_ready_empty_iff)
  show "cons_ok demo_cons" unfolding cons_ok_def l r by (simp add: demo_cons_def INPUT_BUF_SIZE_def)
qed

theorem consoleintr_edits_witness:
  "\<exists>t. consoleintr 0x0D demo_console = Ret () t \<and> cons_ready (kc_cons t) = [97, 10] \<and> cons_line (kc_cons t) = []"
proof -
  have c: "kc_cons demo_console = demo_cons" by (simp add: demo_console_def)
  have "edit 0x0D ([], [97]) = ([97, 10], [])" by (simp add: edit_def INPUT_BUF_SIZE_def Let_def)
  with consoleintr_edits [of demo_console "0x0D"] show ?thesis unfolding c demo_cons_view(1,2) using demo_cons_view(3) by auto
qed

section \<open>Reading lines\<close>

lemma cons_get:
  assumes "cons_ok x" and "cons_r x \<noteq> cons_w x"
  shows "cons_ready x = cons_buf x ! ring_slot INPUT_BUF_SIZE (cons_r x) # cons_ready (x\<lparr>cons_r := cons_r x + 1\<rparr>)"
    and "cons_line (x\<lparr>cons_r := cons_r x + 1\<rparr>) = cons_line x" and "cons_ok (x\<lparr>cons_r := cons_r x + 1\<rparr>)"
proof -
  show r: "cons_ready x = cons_buf x ! ring_slot INPUT_BUF_SIZE (cons_r x) # cons_ready (x\<lparr>cons_r := cons_r x + 1\<rparr>)"
    using cons_ring.contents_get [OF assms(2), of "cons_buf x"] by (simp add: cons_ready_def)
  show l: "cons_line (x\<lparr>cons_r := cons_r x + 1\<rparr>) = cons_line x" by (simp add: cons_line_def)
  show "cons_ok (x\<lparr>cons_r := cons_r x + 1\<rparr>)" using assms(1) r l by (simp add: cons_ok_def)
qed

text \<open>
  What a read that has already copied \<open>got\<close> bytes may take from the finished lines:
  at most \<open>n\<close> bytes up to the first newline; or a control-D that is the first thing it
  sees, which is the end of the file; or one byte more than it reports, when the
  byte could not be stored in user memory.
\<close>

definition read_result :: "nat \<Rightarrow> nat \<Rightarrow> u8 list \<Rightarrow> int \<Rightarrow> bool" where
  "read_result got n bs r \<longleftrightarrow>
     r = int (got + length bs) \<and> length bs \<le> n \<and> 4 \<notin> set bs \<and> 10 \<notin> set (butlast bs) \<or>
     got = 0 \<and> bs = [4] \<and> r = 0 \<or>
     r + 1 = int (got + length bs) \<and> length bs \<le> n \<and> 4 \<notin> set bs \<and> 10 \<notin> set (butlast bs)"

lemma read_result_Cons:
  assumes "read_result (Suc got) n bs r" and "c \<noteq> 4" and "c \<noteq> 10" and "0 \<le> r"
  shows "read_result got (Suc n) (c # bs) r"
  using assms by (auto simp: read_result_def)

lemma consoleread_loop_lines:
  assumes "cons_ok (kc_cons s)" and "consoleread_loop n got dst s = Ret r t"
  shows "cons_ok (kc_cons t) \<and> cons_line (kc_cons t) = cons_line (kc_cons s) \<and>
    (\<exists>bs. cons_ready (kc_cons s) = bs @ cons_ready (kc_cons t) \<and> (0 \<le> r \<longrightarrow> read_result got n bs r))"
  using assms
proof (induction n arbitrary: s got dst)
  case 0
  then show ?case by (auto simp: read_result_def)
next
  case (Suc n)
  let ?x = "kc_cons s"
  let ?c = "cons_buf ?x ! ring_slot INPUT_BUF_SIZE (cons_r ?x)"
  let ?y = "?x\<lparr>cons_r := cons_r ?x + 1\<rparr>"
  let ?s1 = "s\<lparr>kc_cons := ?y\<rparr>"
  show ?case
  proof (cases "cons_r ?x = cons_w ?x")
    case True
    with Suc.prems show ?thesis by (auto simp: ksleep_not_Ret Let_def split: if_splits)
  next
    case False
    note get = cons_get [OF Suc.prems(1) False]
    show ?thesis
    proof (cases "?c = 4")
      case True
      then have "r = int got" "kc_cons t = (if 0 < got then ?x else ?y)"
        using Suc.prems(2) False by (auto simp: Let_def kseq_apply split: if_splits)
      then show ?thesis
        using get Suc.prems(1) True by (auto simp: read_result_def)
    next
      case c4: False
      have run: "consoleread_loop (Suc n) got dst s = kbind (copyout_me dst [?c]) (\<lambda>r.
            if r = -1 then kret (int got) else if ?c = 10 then kret (int got + 1)
            else consoleread_loop n (got + 1) (dst + 1)) ?s1"
        using False c4 by (simp add: Let_def)
      from Suc.prems(2) [unfolded run] obtain q s2 where q: "copyout_me dst [?c] ?s1 = Ret q s2" by (rule kbind_RetD)
      from copy_me_state(1) [OF q] have s2: "kc_cons s2 = ?y" by auto
      show ?thesis
      proof (cases "q = -1 \<or> ?c = 10")
        case True
        then have "t = s2" and "r = (if q = -1 then int got else int got + 1)"
          using Suc.prems(2) run q by (auto split: if_splits)
        then show ?thesis
          using get s2 c4 by (auto simp: read_result_def intro!: exI [of _ "[?c]"])
      next
        case q1: False
        then have "consoleread_loop n (got + 1) (dst + 1) s2 = Ret r t" using Suc.prems(2) run q by simp
        from Suc.IH [OF _ this] get s2 obtain bs where
          "cons_ok (kc_cons t)" "cons_line (kc_cons t) = cons_line ?x"
          "cons_ready ?y = bs @ cons_ready (kc_cons t)" "0 \<le> r \<longrightarrow> read_result (Suc got) n bs r" by auto
        then show ?thesis
          using get(1) q1 c4 read_result_Cons [of got n bs r ?c] by (auto intro!: exI [of _ "?c # bs"])
      qed
    qed
  qed
qed


definition demo_console_line :: kcons where
  "demo_console_line = demo_console\<lparr>kc_cons := demo_cons\<lparr>cons_w := 0\<rparr>\<rparr>"


end
