(* ===== verification/Pipe.thy ===== *)
theory Pipe
  imports Console
begin

text \<open>
  Pipes, \<open>kernel/pipe.c\<close>. A pipe lives in a page from \<open>kalloc\<close>; its fields are
  a record in a map from the address of that page. The two loops run until they
  return or put the thread to sleep. The facts show that a pipe is a queue of at most
  \<open>PIPESIZE\<close> bytes, also when the counters wrap around.
\<close>

definition PIPESIZE :: nat where "PIPESIZE = 512"

record pipe =
  pi_data :: "u8 list"
  pi_nread :: u32
  pi_nwrite :: u32
  pi_readopen :: bool
  pi_writeopen :: bool

record kpipe = kcons +
  kp_pipes :: "u64 \<Rightarrow> pipe"

definition upd_pipe :: "u64 \<Rightarrow> (pipe \<Rightarrow> pipe) \<Rightarrow> ('z kpipe_scheme, unit) kop" where
  "upd_pipe pi f = kmod (\<lambda>s. s\<lparr>kp_pipes := (kp_pipes s)(pi := f (kp_pipes s pi))\<rparr>)"

text \<open>The assignments of \<open>pipealloc\<close> to a new pipe.\<close>

definition pipe_init :: "pipe \<Rightarrow> pipe" where
  "pipe_init p = p\<lparr>pi_readopen := True, pi_writeopen := True, pi_nwrite := 0, pi_nread := 0\<rparr>"

definition pipeclose :: "u64 \<Rightarrow> bool \<Rightarrow> ('z kpipe_scheme, unit) kop" where
  "pipeclose pi writable =
     kseq
       (if writable
        then kseq (upd_pipe pi (\<lambda>p. p\<lparr>pi_writeopen := False\<rparr>)) (kwakeup (AddrPipeNread pi))
        else kseq (upd_pipe pi (\<lambda>p. p\<lparr>pi_readopen := False\<rparr>)) (kwakeup (AddrPipeNwrite pi)))
       (\<lambda>s. if \<not> pi_readopen (kp_pipes s pi) \<and> \<not> pi_writeopen (kp_pipes s pi)
            then kfree pi s else Ret () s)"

definition pipe_put :: "u8 \<Rightarrow> pipe \<Rightarrow> pipe" where
  "pipe_put ch p = p\<lparr>pi_data := (pi_data p)[ring_slot PIPESIZE (pi_nwrite p) := ch],
     pi_nwrite := pi_nwrite p + 1\<rparr>"

text \<open>
  The loop of \<open>pipewrite\<close> with \<open>k = n - i\<close> bytes to go. \<open>None\<close> is the return of
  -1 from within the loop; \<open>Some i\<close> leaves it with \<open>i\<close>.
\<close>

primrec pipewrite_loop :: "nat \<Rightarrow> u64 \<Rightarrow> u64 \<Rightarrow> int \<Rightarrow> ('z kpipe_scheme, int option) kop" where
  "pipewrite_loop 0 pi addr i = kret (Some i)"
| "pipewrite_loop (Suc k) pi addr i = (\<lambda>s.
     let p = kp_pipes s pi in
     if \<not> pi_readopen p \<or> kkilled s then Ret None s
     else if pi_nwrite p = pi_nread p + of_nat PIPESIZE
     then kseq (kwakeup (AddrPipeNread pi)) (ksleep (AddrPipeNwrite pi)) s
     else kbind (copyin_me (addr + word_of_int i) 1) (\<lambda>(r, bs).
            if r = -1 then kret (Some (if i = 0 then -1 else i))
            else kseq (upd_pipe pi (pipe_put (hd bs))) (pipewrite_loop k pi addr (i + 1))) s)"

definition pipewrite :: "u64 \<Rightarrow> u64 \<Rightarrow> int \<Rightarrow> ('z kpipe_scheme, int) kop" where
  "pipewrite pi addr n =
     kbind (pipewrite_loop (nat n) pi addr 0) (\<lambda>r.
       case r of None \<Rightarrow> kret (-1)
       | Some i \<Rightarrow> kseq (kwakeup (AddrPipeNread pi)) (kret i))"

primrec piperead_loop :: "nat \<Rightarrow> u64 \<Rightarrow> u64 \<Rightarrow> int \<Rightarrow> ('z kpipe_scheme, int) kop" where
  "piperead_loop 0 pi addr i = kret i"
| "piperead_loop (Suc k) pi addr i = (\<lambda>s.
     let p = kp_pipes s pi in
     if pi_nread p = pi_nwrite p then Ret i s
     else let ch = pi_data p ! ring_slot PIPESIZE (pi_nread p) in
       kbind (copyout_me (addr + word_of_int i) [ch]) (\<lambda>r.
         if r = -1 then kret (if i = 0 then -1 else i)
         else kseq (upd_pipe pi (\<lambda>p. p\<lparr>pi_nread := pi_nread p + 1\<rparr>)) (piperead_loop k pi addr (i + 1))) s)"

definition piperead :: "u64 \<Rightarrow> u64 \<Rightarrow> int \<Rightarrow> ('z kpipe_scheme, int) kop" where
  "piperead pi addr n s =
     (let p = kp_pipes s pi in
      if pi_nread p = pi_nwrite p \<and> pi_writeopen p then
        if kkilled s then Ret (-1) s else ksleep (AddrPipeNread pi) s
      else kbind (piperead_loop (nat n) pi addr 0) (\<lambda>i.
             kseq (kwakeup (AddrPipeNwrite pi)) (kret i)) s)"

section \<open>A pipe is a bounded queue\<close>

interpretation pipe_ring: ring_buffer PIPESIZE "TYPE(32)"
  by unfold_locales (simp_all add: PIPESIZE_def)

definition pipe_queue :: "pipe \<Rightarrow> u8 list" where
  "pipe_queue p = ring_contents PIPESIZE (pi_data p) (pi_nread p) (pi_nwrite p)"

definition pipe_ok :: "pipe \<Rightarrow> bool" where
  "pipe_ok p \<longleftrightarrow> length (pi_data p) = PIPESIZE \<and> unat (pi_nwrite p - pi_nread p) \<le> PIPESIZE"

lemma pipe_queue_length: "pipe_ok p \<Longrightarrow> length (pipe_queue p) \<le> PIPESIZE"
  by (simp add: pipe_ok_def pipe_queue_def)

lemma pipe_full_iff:
  assumes "pipe_ok p"
  shows "pi_nwrite p = pi_nread p + of_nat PIPESIZE \<longleftrightarrow> length (pipe_queue p) = PIPESIZE"
proof -
  have "pi_nwrite p = pi_nread p + of_nat PIPESIZE \<longleftrightarrow> pi_nwrite p - pi_nread p = of_nat PIPESIZE"
    by (auto simp: algebra_simps)
  also have "\<dots> \<longleftrightarrow> unat (pi_nwrite p - pi_nread p) = PIPESIZE"
    by (auto simp: word_unat_eq_iff PIPESIZE_def)
  finally show ?thesis by (simp add: pipe_queue_def)
qed

lemma pipe_put_queue:
  assumes "pipe_ok p" and "length (pipe_queue p) \<noteq> PIPESIZE"
  shows "pipe_queue (pipe_put c p) = pipe_queue p @ [c]" and "pipe_ok (pipe_put c p)"
proof -
  have lt: "unat (pi_nwrite p - pi_nread p) < PIPESIZE"
    using assms by (simp add: pipe_ok_def pipe_queue_def)
  then show q: "pipe_queue (pipe_put c p) = pipe_queue p @ [c]"
    using assms(1) pipe_ring.contents_put [of "pi_data p" "pi_nwrite p" "pi_nread p" c]
    by (simp add: pipe_queue_def pipe_put_def pipe_ok_def)
  have "length (pipe_queue (pipe_put c p)) \<le> PIPESIZE" using q lt by (simp add: pipe_queue_def)
  then show "pipe_ok (pipe_put c p)"
    using assms(1) by (simp add: pipe_ok_def pipe_queue_def pipe_put_def)
qed

lemma pipe_get_queue:
  assumes "pipe_ok p" and "pi_nread p \<noteq> pi_nwrite p"
  shows "pipe_queue p = pi_data p ! ring_slot PIPESIZE (pi_nread p) # pipe_queue (p\<lparr>pi_nread := pi_nread p + 1\<rparr>)"
    and "pipe_ok (p\<lparr>pi_nread := pi_nread p + 1\<rparr>)"
proof -
  show q: "pipe_queue p = pi_data p ! ring_slot PIPESIZE (pi_nread p) # pipe_queue (p\<lparr>pi_nread := pi_nread p + 1\<rparr>)"
    using pipe_ring.contents_get [OF assms(2), of "pi_data p"] by (simp add: pipe_queue_def)
  have "length (pipe_queue (p\<lparr>pi_nread := pi_nread p + 1\<rparr>)) \<le> PIPESIZE"
    using q pipe_queue_length [OF assms(1)] by simp
  then show "pipe_ok (p\<lparr>pi_nread := pi_nread p + 1\<rparr>)"
    using assms(1) by (simp add: pipe_ok_def pipe_queue_def)
qed

lemma upd_pipe_apply [simp]:
  "upd_pipe pi f s = Ret () (s\<lparr>kp_pipes := (kp_pipes s)(pi := f (kp_pipes s pi))\<rparr>)"
  by (simp add: upd_pipe_def)

text \<open>The state in which a call leaves the CPU, by returning or by sleeping.\<close>

definition leaves :: "('s, 'a) outcome \<Rightarrow> 's \<Rightarrow> bool" where
  "leaves x t \<longleftrightarrow> (\<exists>a. x = Ret a t) \<or> x = Sleeps t"

lemma ksleep_leaves:
  assumes "leaves (ksleep chan s) t"
  shows "\<exists>ps. t = s\<lparr>kp_procs := ps\<rparr>"
  using assms by (auto simp: leaves_def ksleep_def on_procs_def split: outcome.splits)

lemma pipewrite_loop_queue:
  assumes "pipe_ok (kp_pipes s pi)" and "leaves (pipewrite_loop k pi addr i s) t" and "0 \<le> i"
  shows "pipe_ok (kp_pipes t pi) \<and> (\<exists>bs. pipe_queue (kp_pipes t pi) = pipe_queue (kp_pipes s pi) @ bs \<and>
    (\<forall>j. pipewrite_loop k pi addr i s = Ret (Some j) t \<longrightarrow> j = i + int (length bs) \<or> j = -1 \<and> i = 0 \<and> bs = []))"
  using assms
proof (induction k arbitrary: s i)
  case 0
  then show ?case by (auto simp: leaves_def)
next
  case (Suc k)
  let ?p = "kp_pipes s pi"
  show ?case
  proof (cases "\<not> pi_readopen ?p \<or> kkilled s")
    case True
    with Suc.prems show ?thesis by (auto simp: leaves_def)
  next
    case alive: False
    show ?thesis
    proof (cases "pi_nwrite ?p = pi_nread ?p + of_nat PIPESIZE")
      case True
      with alive have run: "pipewrite_loop (Suc k) pi addr i s =
          ksleep (AddrPipeNwrite pi) (s\<lparr>kp_procs := wakeup (Some (AddrPipeNread pi)) (kp_procs s)\<rparr>)"
        by (simp add: Let_def)
      from ksleep_leaves [OF Suc.prems(2) [unfolded run]] obtain ps where "t = s\<lparr>kp_procs := ps\<rparr>" by auto
      with Suc.prems(1) show ?thesis by (auto simp: run ksleep_not_Ret simp del: pipewrite_loop.simps)
    next
      case notfull: False
      let ?c = "copyin_me (addr + word_of_int i) 1"
      have run: "pipewrite_loop (Suc k) pi addr i s = kbind ?c (\<lambda>(r, bs).
          if r = -1 then kret (Some (if i = 0 then -1 else i))
          else kseq (upd_pipe pi (pipe_put (hd bs))) (pipewrite_loop k pi addr (i + 1))) s"
        using alive notfull by (simp add: Let_def)
      from Suc.prems(2) [unfolded run] obtain r bs s1 where c: "?c s = Ret (r, bs) s1"
        by (cases "?c s") (auto simp: leaves_def kbind_def copy_me_state)
      from copy_me_state(2) [OF c] have s1: "kp_pipes s1 = kp_pipes s" by auto
      show ?thesis
      proof (cases "r = -1")
        case True
        with Suc.prems(1,2) c s1 show ?thesis
          unfolding run by (auto simp: leaves_def)
      next
        case False
        let ?s2 = "s1\<lparr>kp_pipes := (kp_pipes s1)(pi := pipe_put (hd bs) ?p)\<rparr>"
        have run2: "pipewrite_loop (Suc k) pi addr i s = pipewrite_loop k pi addr (i + 1) ?s2"
          unfolding run using c False s1 by simp
        have room: "length (pipe_queue ?p) \<noteq> PIPESIZE" using pipe_full_iff [OF Suc.prems(1)] notfull by simp
        note put = pipe_put_queue [OF Suc.prems(1) room, of "hd bs"]
        have ok2: "pipe_ok (kp_pipes ?s2 pi)" and q2: "pipe_queue (kp_pipes ?s2 pi) = pipe_queue ?p @ [hd bs]"
          using put by simp_all
        from Suc.IH [OF ok2 Suc.prems(2) [unfolded run2]] Suc.prems(3) obtain bs' where
          ok: "pipe_ok (kp_pipes t pi)" and bs': "pipe_queue (kp_pipes t pi) = pipe_queue (kp_pipes ?s2 pi) @ bs'"
          "\<forall>j. pipewrite_loop k pi addr (i + 1) ?s2 = Ret (Some j) t \<longrightarrow>
            j = i + 1 + int (length bs') \<or> j = -1 \<and> i + 1 = 0 \<and> bs' = []" by auto
        show ?thesis
        proof (intro conjI exI allI impI)
          show "pipe_ok (kp_pipes t pi)" by (rule ok)
          show "pipe_queue (kp_pipes t pi) = pipe_queue ?p @ (hd bs # bs')" using bs'(1) unfolding q2 by simp
          fix j assume "pipewrite_loop (Suc k) pi addr i s = Ret (Some j) t"
          then show "j = i + int (length (hd bs # bs')) \<or> j = -1 \<and> i = 0 \<and> hd bs # bs' = []"
            using bs'(2) Suc.prems(3) unfolding run2 by auto
        qed
      qed
    qed
  qed
qed

lemma piperead_loop_queue:
  assumes "pipe_ok (kp_pipes s pi)" and "piperead_loop k pi addr i s = Ret j t" and "0 \<le> i"
  shows "pipe_ok (kp_pipes t pi) \<and> (\<exists>bs. pipe_queue (kp_pipes s pi) = bs @ pipe_queue (kp_pipes t pi) \<and>
    length bs \<le> k \<and> (j = i + int (length bs) \<or> j = -1 \<and> i = 0 \<and> bs = []))"
  using assms
proof (induction k arbitrary: s i)
  case (Suc k)
  let ?p = "kp_pipes s pi"
  show ?case
  proof (cases "pi_nread ?p = pi_nwrite ?p")
    case True
    with Suc.prems show ?thesis by auto
  next
    case False
    let ?ch = "pi_data ?p ! ring_slot PIPESIZE (pi_nread ?p)"
    let ?c = "copyout_me (addr + word_of_int i) [?ch]"
    have run: "piperead_loop (Suc k) pi addr i s = kbind ?c (\<lambda>r.
        if r = -1 then kret (if i = 0 then -1 else i)
        else kseq (upd_pipe pi (\<lambda>p. p\<lparr>pi_nread := pi_nread p + 1\<rparr>)) (piperead_loop k pi addr (i + 1))) s"
      using False by (simp add: Let_def)
    from Suc.prems(2) [unfolded run] obtain r s1 where c: "?c s = Ret r s1" by (rule kbind_RetD)
    from copy_me_state(1) [OF c] have s1: "kp_pipes s1 = kp_pipes s" by auto
    show ?thesis
    proof (cases "r = -1")
      case True
      with Suc.prems c s1 show ?thesis unfolding run by (auto split: if_splits)
    next
      case ok: False
      let ?p2 = "?p\<lparr>pi_nread := pi_nread ?p + 1\<rparr>"
      let ?s2 = "s1\<lparr>kp_pipes := (kp_pipes s1)(pi := ?p2)\<rparr>"
      have run2: "piperead_loop (Suc k) pi addr i s = piperead_loop k pi addr (i + 1) ?s2"
        unfolding run using c ok s1 by simp
      note get = pipe_get_queue [OF Suc.prems(1) False]
      have "pipe_ok (kp_pipes ?s2 pi)" using get(2) by simp
      from Suc.IH [OF this Suc.prems(2) [unfolded run2]] Suc.prems(3) obtain bs where
        bs: "pipe_ok (kp_pipes t pi)" "pipe_queue ?p2 = bs @ pipe_queue (kp_pipes t pi)" "length bs \<le> k"
          "j = i + 1 + int (length bs) \<or> j = -1 \<and> i + 1 = 0 \<and> bs = []" by auto
      show ?thesis
        by (intro conjI exI [of _ "?ch # bs"]) (use bs get(1) Suc.prems(3) in auto)
    qed
  qed
qed auto


text \<open>A pipe whose counters are about to wrap around, holding two bytes.\<close>

definition demo_ring :: "u8 list" where
  "demo_ring = (replicate PIPESIZE 0)[510 := 7, 511 := 8]"

definition demo_pipe_state :: kpipe where
  "demo_pipe_state = \<lparr>km_mem = demo_user_mem, km_freelist = 0, km_end = 0x80020000,
     kp_procs = [demo_user_proc], kp_nextpid = 4, kp_initproc = Some 0, kp_me = 0,
     kc_out = [], kc_rx = [], kc_lsr = [], kc_txlock = initsleeplock, kc_cons = demo_cons,
     kp_pipes = \<lambda>_. \<lparr>pi_data = demo_ring, pi_nread = -2, pi_nwrite = 0,
       pi_readopen = True, pi_writeopen = True\<rparr>\<rparr>"

lemma demo_pipe_ok: "pipe_ok (kp_pipes demo_pipe_state pi)"
  by (simp add: pipe_ok_def demo_pipe_state_def demo_ring_def PIPESIZE_def)

lemma demo_pipe_read:
  "\<exists>t. piperead 0x80105000 0x5000 1 demo_pipe_state = Ret 1 t"
  by (simp add: piperead_def demo_pipe_state_def copyout_me_def demo_copyout myproc_def demo_user_proc_def
      Let_def)


end
