(* ===== verification/Bio.thy ===== *)
theory Bio
  imports Pipe
begin

text \<open>
  The buffer cache, \<open>kernel/bio.c\<close>. Buffers are numbered; buffer \<open>NBUF\<close> is the
  head of the circular doubly linked list that keeps them in order of last use, and
  \<open>prev\<close> and \<open>next\<close> are the numbers of the neighbours. The disk is the contents
  of its blocks, together with the sequence of the writes made to it. The facts show
  that the list stays well formed, that the cache never holds a block twice, and what a
  client that takes and gives back buffers sees: the contents of the blocks, with its
  own changes.
\<close>

section \<open>The code\<close>

definition BSIZE :: nat where "BSIZE = 1024"
definition NBUF :: nat where "NBUF = 10 * 3"
definition ROOTDEV :: u32 where "ROOTDEV = 1"

record buf =
  b_valid :: bool
  b_dev :: u32
  b_blockno :: u32
  b_lock :: sleeplock
  b_refcnt :: u32
  b_prev :: nat
  b_next :: nat
  b_data :: "u8 list"

abbreviation bhead :: nat where "bhead \<equiv> NBUF"

record kbio = kpipe +
  kb_buf :: "nat \<Rightarrow> buf"
  kb_disk :: "u32 \<Rightarrow> u8 list"
  kb_writes :: "(u32 \<times> u8 list) list"

definition upd_buf :: "nat \<Rightarrow> (buf \<Rightarrow> buf) \<Rightarrow> ('z kbio_scheme, unit) kop" where
  "upd_buf b f = kmod (\<lambda>s. s\<lparr>kb_buf := (kb_buf s)(b := f (kb_buf s b))\<rparr>)"

text \<open>Links are read and written one after the other, as in the code.\<close>

definition set_next :: "nat \<Rightarrow> nat \<Rightarrow> (nat \<Rightarrow> buf) \<Rightarrow> nat \<Rightarrow> buf" where
  "set_next b n B = B(b := (B b)\<lparr>b_next := n\<rparr>)"

definition set_prev :: "nat \<Rightarrow> nat \<Rightarrow> (nat \<Rightarrow> buf) \<Rightarrow> nat \<Rightarrow> buf" where
  "set_prev b n B = B(b := (B b)\<lparr>b_prev := n\<rparr>)"

definition link_front :: "nat \<Rightarrow> (nat \<Rightarrow> buf) \<Rightarrow> nat \<Rightarrow> buf" where
  "link_front b B =
     (let B1 = set_next b (b_next (B bhead)) B;
          B2 = set_prev b bhead B1;
          B3 = set_prev (b_next (B2 bhead)) b B2
      in set_next bhead b B3)"

definition unlink :: "nat \<Rightarrow> (nat \<Rightarrow> buf) \<Rightarrow> nat \<Rightarrow> buf" where
  "unlink b B =
     (let B1 = set_prev (b_next (B b)) (b_prev (B b)) B
      in set_next (b_prev (B1 b)) (b_next (B1 b)) B1)"

definition binit_step :: "nat \<Rightarrow> (nat \<Rightarrow> buf) \<Rightarrow> nat \<Rightarrow> buf" where
  "binit_step b B = link_front b (B(b := (B b)\<lparr>b_lock := initsleeplock\<rparr>))"

definition binit :: "(nat \<Rightarrow> buf) \<Rightarrow> nat \<Rightarrow> buf" where
  "binit B = fold binit_step [0..<NBUF]
     (set_next bhead bhead (set_prev bhead bhead B))"

text \<open>
  The two loops of \<open>bget\<close>. The list has \<open>NBUF\<close> buffers, so \<open>NBUF + 1\<close>
  steps reach the head again; \<open>None\<close> is a list that does not come back to it.
\<close>

primrec bget_cached :: "nat \<Rightarrow> (nat \<Rightarrow> buf) \<Rightarrow> u32 \<Rightarrow> u32 \<Rightarrow> nat \<Rightarrow> nat option option" where
  "bget_cached 0 B dev blockno b = None"
| "bget_cached (Suc k) B dev blockno b =
     (if b = bhead then Some None
      else if b_dev (B b) = dev \<and> b_blockno (B b) = blockno then Some (Some b)
      else bget_cached k B dev blockno (b_next (B b)))"

primrec bget_unused :: "nat \<Rightarrow> (nat \<Rightarrow> buf) \<Rightarrow> nat \<Rightarrow> nat option option" where
  "bget_unused 0 B b = None"
| "bget_unused (Suc k) B b =
     (if b = bhead then Some None
      else if b_refcnt (B b) = 0 then Some (Some b)
      else bget_unused k B (b_prev (B b)))"

definition acquire_buf :: "nat \<Rightarrow> ('z kbio_scheme, unit) kop" where
  "acquire_buf b = acquiresleep (\<lambda>s. b_lock (kb_buf s b))
     (\<lambda>l s. s\<lparr>kb_buf := (kb_buf s)(b := (kb_buf s b)\<lparr>b_lock := l\<rparr>)\<rparr>) (AddrBufLock b)"

definition release_buf :: "nat \<Rightarrow> ('z kbio_scheme, unit) kop" where
  "release_buf b = releasesleep (\<lambda>s. b_lock (kb_buf s b))
     (\<lambda>l s. s\<lparr>kb_buf := (kb_buf s)(b := (kb_buf s b)\<lparr>b_lock := l\<rparr>)\<rparr>) (AddrBufLock b)"

definition holding_buf :: "nat \<Rightarrow> 'z kbio_scheme \<Rightarrow> bool" where
  "holding_buf b = holdingsleep (\<lambda>s. b_lock (kb_buf s b))"

definition bget :: "u32 \<Rightarrow> u32 \<Rightarrow> ('z kbio_scheme, nat) kop" where
  "bget dev blockno = (\<lambda>s.
     case bget_cached (Suc NBUF) (kb_buf s) dev blockno (b_next (kb_buf s bhead)) of
       None \<Rightarrow> Fault
     | Some (Some b) \<Rightarrow>
         kseq (upd_buf b (\<lambda>x. x\<lparr>b_refcnt := b_refcnt x + 1\<rparr>)) (kseq (acquire_buf b) (kret b)) s
     | Some None \<Rightarrow>
         (case bget_unused (Suc NBUF) (kb_buf s) (b_prev (kb_buf s bhead)) of
            None \<Rightarrow> Fault
          | Some None \<Rightarrow> Panic ''bget: no buffers''
          | Some (Some b) \<Rightarrow>
              kseq (upd_buf b (\<lambda>x. x\<lparr>b_dev := dev, b_blockno := blockno, b_valid := False, b_refcnt := 1\<rparr>))
                (kseq (acquire_buf b) (kret b)) s))"

text \<open>
  \<open>virtio_disk_rw\<close> as the cache sees it: when it returns, the block has been read
  into the buffer or written from it. The device number is not used: there is one disk.
\<close>

definition disk_read :: "nat \<Rightarrow> ('z kbio_scheme, unit) kop" where
  "disk_read b = (\<lambda>s. upd_buf b (\<lambda>x. x\<lparr>b_data := kb_disk s (b_blockno x)\<rparr>) s)"

definition disk_write :: "nat \<Rightarrow> ('z kbio_scheme, unit) kop" where
  "disk_write b = kmod (\<lambda>s. let x = kb_buf s b in
     s\<lparr>kb_disk := (kb_disk s)(b_blockno x := b_data x), kb_writes := kb_writes s @ [(b_blockno x, b_data x)]\<rparr>)"

definition bread :: "u32 \<Rightarrow> u32 \<Rightarrow> ('z kbio_scheme, nat) kop" where
  "bread dev blockno =
     kbind (bget dev blockno) (\<lambda>b s.
       if \<not> b_valid (kb_buf s b)
       then kseq (disk_read b) (kseq (upd_buf b (\<lambda>x. x\<lparr>b_valid := True\<rparr>)) (kret b)) s
       else Ret b s)"

definition bwrite :: "nat \<Rightarrow> ('z kbio_scheme, unit) kop" where
  "bwrite b = (\<lambda>s. if \<not> holding_buf b s then Panic ''bwrite'' else disk_write b s)"

definition brelse :: "nat \<Rightarrow> ('z kbio_scheme, unit) kop" where
  "brelse b = (\<lambda>s.
     if \<not> holding_buf b s then Panic ''brelse''
     else kseq (release_buf b)
       (kseq (upd_buf b (\<lambda>x. x\<lparr>b_refcnt := b_refcnt x - 1\<rparr>))
         (kmod (\<lambda>s. if b_refcnt (kb_buf s b) = 0
            then s\<lparr>kb_buf := link_front b (unlink b (kb_buf s))\<rparr> else s))) s)"

definition bpin :: "nat \<Rightarrow> ('z kbio_scheme, unit) kop" where
  "bpin b = upd_buf b (\<lambda>x. x\<lparr>b_refcnt := b_refcnt x + 1\<rparr>)"

definition bunpin :: "nat \<Rightarrow> ('z kbio_scheme, unit) kop" where
  "bunpin b = upd_buf b (\<lambda>x. x\<lparr>b_refcnt := b_refcnt x - 1\<rparr>)"

text \<open>\<open>bp = bread(dev, n)\<close>, a look at \<open>bp->data\<close>, and \<open>brelse(bp)\<close>.\<close>

definition bread_data :: "u32 \<Rightarrow> u32 \<Rightarrow> ('z kbio_scheme, u8 list) kop" where
  "bread_data dev n =
     kbind (bread dev n) (\<lambda>b. kbind (kget (\<lambda>s. b_data (kb_buf s b))) (\<lambda>d. kseq (brelse b) (kret d)))"

section \<open>The list of buffers\<close>

text \<open>\<open>dpath B x xs y\<close>: following \<open>next\<close> from \<open>x\<close> passes \<open>xs\<close> and reaches \<open>y\<close>, and \<open>prev\<close> leads back.\<close>

primrec dpath :: "(nat \<Rightarrow> buf) \<Rightarrow> nat \<Rightarrow> nat list \<Rightarrow> nat \<Rightarrow> bool" where
  "dpath B x [] y \<longleftrightarrow> b_next (B x) = y \<and> b_prev (B y) = x"
| "dpath B x (z # zs) y \<longleftrightarrow> b_next (B x) = z \<and> b_prev (B z) = x \<and> dpath B z zs y"

definition lru :: "(nat \<Rightarrow> buf) \<Rightarrow> nat list \<Rightarrow> bool" where
  "lru B xs \<longleftrightarrow> dpath B bhead xs bhead \<and> distinct (bhead # xs)"

lemma dpath_append: "dpath B x (xs @ z # zs) y \<longleftrightarrow> dpath B x xs z \<and> dpath B z zs y"
  by (induction xs arbitrary: x) auto

lemma dpath_cong:
  assumes "\<And>b. b \<in> set (x # xs) \<Longrightarrow> b_next (B' b) = b_next (B b)"
    and "\<And>b. b \<in> set (xs @ [y]) \<Longrightarrow> b_prev (B' b) = b_prev (B b)"
  shows "dpath B' x xs y \<longleftrightarrow> dpath B x xs y"
  using assms by (induction xs arbitrary: x) auto

lemma dpath_next: "dpath B x xs y \<Longrightarrow> b_next (B x) = hd (xs @ [y])"
  by (cases xs) auto

lemma dpath_prev: "dpath B x xs y \<Longrightarrow> b_prev (B y) = last (x # xs)"
  by (induction xs arbitrary: x) auto

lemma dpath_retarget:
  assumes "dpath B x xs y" and "distinct (x # xs)" and "z \<notin> set xs"
    and "b_next (B' (last (x # xs))) = z" and "b_prev (B' z) = last (x # xs)"
    and "\<And>c. c \<in> set (x # xs) \<Longrightarrow> c \<noteq> last (x # xs) \<Longrightarrow> b_next (B' c) = b_next (B c)"
    and "\<And>c. c \<in> set xs \<Longrightarrow> b_prev (B' c) = b_prev (B c)"
  shows "dpath B' x xs z"
  using assms
proof (induction xs arbitrary: x)
  case (Cons w ws)
  have "last (x # w # ws) \<noteq> x" using Cons.prems(2) by (metis distinct.simps(2) last_ConsR last_in_set list.discI)
  then have "b_next (B' x) = w" using Cons.prems(1,6) by simp
  moreover have "dpath B' w ws z"
    by (rule Cons.IH) (use Cons.prems in auto)
  ultimately show ?case using Cons.prems by simp
qed simp

lemma set_link_simps [simp]:
  "b_next (set_next b n B i) = (if i = b then n else b_next (B i))" "b_prev (set_next b n B i) = b_prev (B i)"
  "b_prev (set_prev b n B i) = (if i = b then n else b_prev (B i))" "b_next (set_prev b n B i) = b_next (B i)"
  "b_valid (set_next b n B i) = b_valid (B i)" "b_valid (set_prev b n B i) = b_valid (B i)"
  "b_dev (set_next b n B i) = b_dev (B i)" "b_dev (set_prev b n B i) = b_dev (B i)"
  "b_blockno (set_next b n B i) = b_blockno (B i)" "b_blockno (set_prev b n B i) = b_blockno (B i)"
  "b_lock (set_next b n B i) = b_lock (B i)" "b_lock (set_prev b n B i) = b_lock (B i)"
  "b_refcnt (set_next b n B i) = b_refcnt (B i)" "b_refcnt (set_prev b n B i) = b_refcnt (B i)"
  "b_data (set_next b n B i) = b_data (B i)" "b_data (set_prev b n B i) = b_data (B i)"
  by (simp_all add: set_next_def set_prev_def)

lemma relink_simps [simp]:
  "b_valid (link_front b B i) = b_valid (B i)" "b_valid (unlink b B i) = b_valid (B i)"
  "b_dev (link_front b B i) = b_dev (B i)" "b_dev (unlink b B i) = b_dev (B i)"
  "b_blockno (link_front b B i) = b_blockno (B i)" "b_blockno (unlink b B i) = b_blockno (B i)"
  "b_lock (link_front b B i) = b_lock (B i)" "b_lock (unlink b B i) = b_lock (B i)"
  "b_refcnt (link_front b B i) = b_refcnt (B i)" "b_refcnt (unlink b B i) = b_refcnt (B i)"
  "b_data (link_front b B i) = b_data (B i)" "b_data (unlink b B i) = b_data (B i)"
  by (simp_all add: link_front_def unlink_def Let_def)

lemma lru_cong:
  assumes "\<And>i. b_next (B' i) = b_next (B i)" and "\<And>i. b_prev (B' i) = b_prev (B i)"
  shows "lru B' xs \<longleftrightarrow> lru B xs"
  using dpath_cong [of bhead xs B' B bhead] assms by (simp add: lru_def)

lemma lru_link_front:
  assumes "lru B xs" and "b \<notin> set xs" and "b \<noteq> bhead"
  shows "lru (link_front b B) (b # xs)"
proof (cases xs)
  case Nil
  with assms show ?thesis by (simp add: lru_def link_front_def Let_def)
next
  case (Cons x zs)
  have d: "b_next (B bhead) = x" "dpath B x zs bhead" "distinct (bhead # x # zs)"
    using assms(1) Cons by (auto simp: lru_def)
  have "dpath (link_front b B) x zs bhead"
    using d assms Cons by (subst dpath_cong [where B = B]) (auto simp: link_front_def Let_def)
  then show ?thesis using d assms Cons by (auto simp: lru_def link_front_def Let_def)
qed

lemma lru_unlink:
  assumes "lru B (xs @ b # ys)"
  shows "lru (unlink b B) (xs @ ys)"
proof -
  let ?p = "last (bhead # xs)" and ?n = "hd (ys @ [bhead])"
  have d: "dpath B bhead xs b" "dpath B b ys bhead" "distinct (bhead # xs @ b # ys)"
    using assms by (auto simp: lru_def dpath_append)
  have p: "b_prev (B b) = ?p" and n: "b_next (B b) = ?n" using d(1,2) dpath_prev dpath_next by blast+
  have nb: "?n \<noteq> b" using d(3) by (cases ys) auto
  have next1: "b_next (unlink b B i) = (if i = ?p then ?n else b_next (B i))" for i
    using nb by (simp add: unlink_def Let_def p n)
  have prev1: "b_prev (unlink b B i) = (if i = ?n then ?p else b_prev (B i))" for i
    by (simp add: unlink_def Let_def p n)
  have pin: "?p \<in> set (bhead # xs)" by (rule last_in_set) simp
  have front: "dpath (unlink b B) bhead xs ?n"
  proof (rule dpath_retarget [OF d(1)])
    show "distinct (bhead # xs)" using d(3) by simp
    show nn: "?n \<notin> set xs" using d(3) by (cases ys) auto
    show "b_next (unlink b B ?p) = ?n" and "b_prev (unlink b B ?n) = ?p" by (simp_all only: next1 prev1 if_True simp_thms)
    show "b_next (unlink b B c) = b_next (B c)" if "c \<noteq> ?p" for c using that by (simp only: next1 if_False simp_thms)
    show "b_prev (unlink b B c) = b_prev (B c)" if "c \<in> set xs" for c
      using that nn prev1 [of c] by metis
  qed
  show ?thesis
  proof (cases ys)
    case Nil
    with front d(3) show ?thesis by (simp add: lru_def)
  next
    case (Cons c cs)
    have "dpath (unlink b B) c cs bhead"
    proof (subst dpath_cong [where B = B])
      fix e
      show "b_next (unlink b B e) = b_next (B e)" if "e \<in> set (c # cs)"
        using that pin d(3) Cons next1 [of e] by (metis IntI Un_iff distinct.simps(2) distinct_append empty_iff list.set_intros(2) set_ConsD set_append)
      show "b_prev (unlink b B e) = b_prev (B e)" if "e \<in> set (cs @ [bhead])"
        using that d(3) Cons prev1 [of e] by auto
    next
      show "dpath B c cs bhead" using d(2) Cons by simp
    qed
    with front d(3) Cons show ?thesis by (auto simp: lru_def dpath_append)
  qed
qed

lemma bget_cached_find:
  assumes "dpath B x xs bhead" and "bhead \<notin> set xs" and "length xs < k"
  shows "bget_cached k B dev n (b_next (B x)) = Some (find (\<lambda>b. b_dev (B b) = dev \<and> b_blockno (B b) = n) xs)"
  using assms
proof (induction xs arbitrary: x k)
  case Nil
  then show ?case by (cases k) auto
next
  case (Cons z zs)
  then obtain k' where k: "k = Suc k'" "length zs < k'" by (cases k) auto
  from Cons.IH [of z k'] Cons.prems k show ?case by auto
qed

lemma bget_unused_find:
  assumes "dpath B bhead (rev xs) x" and "bhead \<notin> set xs" and "length xs < k"
  shows "bget_unused k B (b_prev (B x)) = Some (find (\<lambda>b. b_refcnt (B b) = 0) xs)"
  using assms
proof (induction xs arbitrary: x k)
  case Nil
  then show ?case by (cases k) auto
next
  case (Cons z zs)
  then obtain k' where k: "k = Suc k'" "length zs < k'" by (cases k) auto
  have "dpath B bhead (rev zs) z" "b_prev (B x) = z" using Cons.prems(1) by (auto simp: dpath_append)
  with Cons.IH [of z k'] Cons.prems k show ?case by auto
qed

section \<open>What a client sees\<close>

text \<open>Process tables that differ only by wakeups.\<close>

definition woken :: "ptable \<Rightarrow> ptable \<Rightarrow> bool" where
  "woken ps qs \<longleftrightarrow> (\<exists>cs. qs = fold wakeup cs ps)"

lemma woken_refl [simp]: "woken ps ps"
  unfolding woken_def by (rule exI [of _ "[]"]) simp

lemma woken_wakeup [simp]: "woken ps (wakeup c ps)"
  unfolding woken_def by (rule exI [of _ "[c]"]) simp

lemma woken_trans: "woken ps qs \<Longrightarrow> woken qs rs \<Longrightarrow> woken ps rs"
  unfolding woken_def by (metis fold_append o_apply)

lemma wakeup_proc_more [simp]:
  "p_pagetable (wakeup_proc c p) = p_pagetable p" "p_sz (wakeup_proc c p) = p_sz p"
  "p_ofile (wakeup_proc c p) = p_ofile p" "p_cwd (wakeup_proc c p) = p_cwd p"
  by (simp_all add: wakeup_proc_def)

lemma wokenD:
  assumes "woken ps qs"
  shows "length qs = length ps" and "i < length ps \<Longrightarrow> p_pid (qs ! i) = p_pid (ps ! i)"
    and "i < length ps \<Longrightarrow> p_cwd (qs ! i) = p_cwd (ps ! i)"
    and "i < length ps \<Longrightarrow> p_pagetable (qs ! i) = p_pagetable (ps ! i)"
    and "i < length ps \<Longrightarrow> p_sz (qs ! i) = p_sz (ps ! i)"
    and "i < length ps \<Longrightarrow> p_ofile (qs ! i) = p_ofile (ps ! i)"
proof -
  obtain cs where cs: "qs = fold wakeup cs ps" using assms by (auto simp: woken_def)
  have "length (fold wakeup cs ps) = length ps \<and> (i < length ps \<longrightarrow> p_pid (fold wakeup cs ps ! i) = p_pid (ps ! i) \<and>
      p_cwd (fold wakeup cs ps ! i) = p_cwd (ps ! i) \<and> p_pagetable (fold wakeup cs ps ! i) = p_pagetable (ps ! i) \<and>
      p_sz (fold wakeup cs ps ! i) = p_sz (ps ! i) \<and> p_ofile (fold wakeup cs ps ! i) = p_ofile (ps ! i))"
    by (induction cs arbitrary: ps) auto
  then show "length qs = length ps" and "i < length ps \<Longrightarrow> p_pid (qs ! i) = p_pid (ps ! i)"
    and "i < length ps \<Longrightarrow> p_cwd (qs ! i) = p_cwd (ps ! i)"
    and "i < length ps \<Longrightarrow> p_pagetable (qs ! i) = p_pagetable (ps ! i)"
    and "i < length ps \<Longrightarrow> p_sz (qs ! i) = p_sz (ps ! i)"
    and "i < length ps \<Longrightarrow> p_ofile (qs ! i) = p_ofile (ps ! i)"
    by (auto simp: cs)
qed

text \<open>Only buffers, the disk, console output and wakeups.\<close>

definition bio_step :: "'z kbio_scheme \<Rightarrow> 'z kbio_scheme \<Rightarrow> bool" where
  "bio_step s t \<longleftrightarrow> (\<exists>B D W ps out lsr.
     t = s\<lparr>kb_buf := B, kb_disk := D, kb_writes := W, kp_procs := ps, kc_out := out, kc_lsr := lsr\<rparr> \<and> woken (kp_procs s) ps)"

lemma bio_stepI:
  assumes "t = s\<lparr>kb_buf := kb_buf t, kb_disk := kb_disk t, kb_writes := kb_writes t, kp_procs := kp_procs t,
      kc_out := kc_out t, kc_lsr := kc_lsr t\<rparr>" and "woken (kp_procs s) (kp_procs t)"
  shows "bio_step s t"
  using assms unfolding bio_step_def by blast

lemma bio_step_refl [simp]: "bio_step s s"
  by (rule bio_stepI) simp_all

lemma bio_step_trans:
  assumes "bio_step s t" and "bio_step t u"
  shows "bio_step s u"
proof -
  obtain B D W ps out lsr where t: "t = s\<lparr>kb_buf := B, kb_disk := D, kb_writes := W, kp_procs := ps, kc_out := out, kc_lsr := lsr\<rparr>"
    "woken (kp_procs s) ps"
    using assms(1) by (auto simp: bio_step_def)
  obtain B' D' W' ps' out' lsr' where u: "u = t\<lparr>kb_buf := B', kb_disk := D', kb_writes := W', kp_procs := ps', kc_out := out', kc_lsr := lsr'\<rparr>"
    "woken (kp_procs t) ps'"
    using assms(2) by (auto simp: bio_step_def)
  have "u = s\<lparr>kb_buf := B', kb_disk := D', kb_writes := W', kp_procs := ps', kc_out := out', kc_lsr := lsr'\<rparr>" using t(1) u(1) by simp
  moreover have "woken (kp_procs s) ps'" using t u woken_trans by auto
  ultimately show ?thesis unfolding bio_step_def by blast
qed

lemma bio_step_print:
  "bio_step s (s\<lparr>kc_out := out, kc_lsr := lsr\<rparr>)"
  by (rule bio_stepI) simp_all

text \<open>The contents of a block: the valid buffer that holds it, or else the disk.\<close>

definition cached :: "(nat \<Rightarrow> buf) \<Rightarrow> u32 \<Rightarrow> nat option" where
  "cached B n = find (\<lambda>i. b_dev (B i) = ROOTDEV \<and> b_blockno (B i) = n \<and> b_valid (B i)) [0..<NBUF]"

definition view :: "'z kbio_scheme \<Rightarrow> u32 \<Rightarrow> u8 list" where
  "view s n = (case cached (kb_buf s) n of Some i \<Rightarrow> b_data (kb_buf s i) | None \<Rightarrow> kb_disk s n)"

text \<open>
  The invariant of the cache while one thread works on it. \<open>H\<close> are the buffers the
  thread holds, \<open>P\<close> the pinned ones. Buffers in neither set agree with the disk.
\<close>

definition buf_ok :: "'z kbio_scheme \<Rightarrow> nat set \<Rightarrow> nat set \<Rightarrow> nat \<Rightarrow> bool" where
  "buf_ok s H P i \<longleftrightarrow> (let b = kb_buf s i in
     (sl_locked (b_lock b) \<longleftrightarrow> i \<in> H) \<and> (i \<in> H \<longrightarrow> sl_pid (b_lock b) = p_pid (myproc s)) \<and>
     b_refcnt b = (if i \<in> H then 1 else 0) + (if i \<in> P then 1 else 0) \<and>
     (i \<in> H \<or> i \<in> P \<longrightarrow> b_dev b = ROOTDEV \<and> b_valid b) \<and>
     (b_valid b \<longrightarrow> length (b_data b) = BSIZE) \<and>
     (b_dev b = ROOTDEV \<and> b_valid b \<and> i \<notin> H \<and> i \<notin> P \<longrightarrow> b_data b = kb_disk s (b_blockno b)))"

definition one_copy :: "(nat \<Rightarrow> buf) \<Rightarrow> bool" where
  "one_copy B \<longleftrightarrow> (\<forall>i < NBUF. \<forall>j < NBUF. b_dev (B i) = ROOTDEV \<and> b_dev (B j) = ROOTDEV \<and>
     b_blockno (B i) = b_blockno (B j) \<longrightarrow> i = j)"

definition bc_inv :: "nat set \<Rightarrow> nat set \<Rightarrow> 'z kbio_scheme \<Rightarrow> bool" where
  "bc_inv H P s \<longleftrightarrow> (\<exists>xs. lru (kb_buf s) xs \<and> set xs = {..<NBUF}) \<and> H \<subseteq> {..<NBUF} \<and> P \<subseteq> {..<NBUF} \<and>
     (\<forall>i < NBUF. buf_ok s H P i) \<and> one_copy (kb_buf s) \<and> (\<forall>n. length (kb_disk s n) = BSIZE) \<and>
     kp_me s < length (kp_procs s)"

lemma bc_invD:
  assumes "bc_inv H P s"
  shows "\<exists>xs. lru (kb_buf s) xs \<and> set xs = {..<NBUF}" and "H \<subseteq> {..<NBUF}" and "P \<subseteq> {..<NBUF}"
    and "i < NBUF \<Longrightarrow> buf_ok s H P i" and "one_copy (kb_buf s)" and "length (kb_disk s n) = BSIZE"
    and "kp_me s < length (kp_procs s)"
  using assms by (auto simp: bc_inv_def)

lemma one_copyD:
  "one_copy B \<Longrightarrow> i < NBUF \<Longrightarrow> j < NBUF \<Longrightarrow> b_dev (B i) = ROOTDEV \<Longrightarrow> b_dev (B j) = ROOTDEV \<Longrightarrow>
     b_blockno (B i) = b_blockno (B j) \<Longrightarrow> i = j"
  by (auto simp: one_copy_def)

lemma cached_Some:
  assumes "one_copy B" and "i < NBUF" and "b_dev (B i) = ROOTDEV" and "b_valid (B i)"
  shows "cached B (b_blockno (B i)) = Some i"
proof -
  have "cached B (b_blockno (B i)) \<noteq> None"
    using assms by (auto simp: cached_def find_None_iff)
  then obtain j where j: "cached B (b_blockno (B i)) = Some j" by auto
  then have "j < NBUF" "b_dev (B j) = ROOTDEV" "b_blockno (B j) = b_blockno (B i)"
    by (auto simp: cached_def find_Some_iff)
  with assms j show ?thesis using one_copyD [OF assms(1), of j i] by simp
qed

lemma cached_None:
  "cached B n = None \<longleftrightarrow> (\<forall>i < NBUF. b_dev (B i) = ROOTDEV \<longrightarrow> b_blockno (B i) = n \<longrightarrow> \<not> b_valid (B i))"
  by (auto simp: cached_def find_None_iff)

lemma view_buf:
  assumes "one_copy (kb_buf s)" and "i < NBUF" and "b_dev (kb_buf s i) = ROOTDEV" and "b_valid (kb_buf s i)"
  shows "view s (b_blockno (kb_buf s i)) = b_data (kb_buf s i)"
  using cached_Some [OF assms] by (simp add: view_def)

lemma view_held: "bc_inv H P s \<Longrightarrow> i \<in> H \<Longrightarrow> view s (b_blockno (kb_buf s i)) = b_data (kb_buf s i)"
  using bc_invD [of H P s] by (intro view_buf) (auto simp: buf_ok_def Let_def)

lemma view_cong:
  assumes "\<And>i. i < NBUF \<Longrightarrow> b_dev (kb_buf t i) = b_dev (kb_buf s i)" "\<And>i. i < NBUF \<Longrightarrow> b_blockno (kb_buf t i) = b_blockno (kb_buf s i)"
    "\<And>i. i < NBUF \<Longrightarrow> b_valid (kb_buf t i) = b_valid (kb_buf s i)" "\<And>i. i < NBUF \<Longrightarrow> b_data (kb_buf t i) = b_data (kb_buf s i)"
    "kb_disk t = kb_disk s"
  shows "view t = view s"
proof
  fix n
  have "cached (kb_buf t) n = cached (kb_buf s) n"
    unfolding cached_def by (rule find_cong) (use assms in auto)
  moreover have "cached (kb_buf s) n = Some i \<Longrightarrow> i < NBUF" for i by (auto simp: cached_def find_Some_iff)
  ultimately show "view t n = view s n" using assms by (auto simp: view_def split: option.split)
qed

lemma bc_inv_upd:
  assumes inv: "bc_inv H P s" and b: "b < NBUF"
    and links: "b_prev x = b_prev (kb_buf s b)" "b_next x = b_next (kb_buf s b)"
    and ok: "buf_ok (s\<lparr>kb_buf := (kb_buf s)(b := x)\<rparr>) H' P' b"
    and others: "\<And>i. i \<noteq> b \<Longrightarrow> (i \<in> H') = (i \<in> H) \<and> (i \<in> P') = (i \<in> P)"
    and uniq: "\<And>j. b_dev x = ROOTDEV \<Longrightarrow> j < NBUF \<Longrightarrow> j \<noteq> b \<Longrightarrow> b_dev (kb_buf s j) = ROOTDEV \<Longrightarrow> b_blockno (kb_buf s j) \<noteq> b_blockno x"
  shows "bc_inv H' P' (s\<lparr>kb_buf := (kb_buf s)(b := x)\<rparr>)"
proof -
  note D = bc_invD [OF inv]
  obtain xs where "lru (kb_buf s) xs" "set xs = {..<NBUF}" using D(1) by blast
  moreover from this have "lru ((kb_buf s)(b := x)) xs" using links lru_cong [of "(kb_buf s)(b := x)" "kb_buf s" xs] by simp
  ultimately have "\<exists>xs. lru ((kb_buf s)(b := x)) xs \<and> set xs = {..<NBUF}" by blast
  moreover have "H' \<subseteq> {..<NBUF}" and "P' \<subseteq> {..<NBUF}" using others D(2,3) b by (auto, (metis subsetD lessThan_iff)+)
  moreover have "buf_ok (s\<lparr>kb_buf := (kb_buf s)(b := x)\<rparr>) H' P' i" if "i < NBUF" for i
    using that ok D(4) [OF that] others [of i] by (cases "i = b") (simp_all add: buf_ok_def Let_def myproc_def)
  moreover have "one_copy ((kb_buf s)(b := x))"
    using D(5) uniq by (fastforce simp: one_copy_def)
  ultimately show ?thesis using D(6,7) by (simp add: bc_inv_def)
qed

lemma lru_find:
  assumes "lru B xs" and "set xs = {..<NBUF}"
  shows "bget_cached (Suc NBUF) B dev n (b_next (B bhead)) = Some (find (\<lambda>b. b_dev (B b) = dev \<and> b_blockno (B b) = n) xs)"
    and "bget_unused (Suc NBUF) B (b_prev (B bhead)) = Some (find (\<lambda>b. b_refcnt (B b) = 0) (rev xs))"
proof -
  have "length xs = NBUF" using assms by (metis card_lessThan distinct.simps(2) distinct_card lru_def)
  then show "bget_cached (Suc NBUF) B dev n (b_next (B bhead)) = Some (find (\<lambda>b. b_dev (B b) = dev \<and> b_blockno (B b) = n) xs)"
    and "bget_unused (Suc NBUF) B (b_prev (B bhead)) = Some (find (\<lambda>b. b_refcnt (B b) = 0) (rev xs))"
    using assms bget_cached_find [of B bhead xs "Suc NBUF"] bget_unused_find [of B "rev xs" bhead "Suc NBUF"]
    by (auto simp: lru_def)
qed

lemma upd_buf_apply [simp]: "upd_buf b f s = Ret () (s\<lparr>kb_buf := (kb_buf s)(b := f (kb_buf s b))\<rparr>)"
  by (simp add: upd_buf_def)

lemma acquire_buf_apply:
  assumes "\<not> sl_locked (b_lock (kb_buf s b))"
  shows "acquire_buf b s = Ret () (s\<lparr>kb_buf := (kb_buf s)(b := (kb_buf s b)\<lparr>b_lock := (b_lock (kb_buf s b))\<lparr>sl_locked := True, sl_pid := p_pid (myproc s)\<rparr>\<rparr>)\<rparr>)"
  using assms by (simp add: acquire_buf_def acquiresleep_def)

text \<open>The buffer \<open>bread\<close> returns, as it is afterwards.\<close>

definition taken :: "'z kbio_scheme \<Rightarrow> u32 \<Rightarrow> nat set \<Rightarrow> nat \<Rightarrow> buf \<Rightarrow> bool" where
  "taken s n P b x \<longleftrightarrow> b_dev x = ROOTDEV \<and> b_blockno x = n \<and> b_valid x \<and> b_data x = view s n \<and>
     sl_locked (b_lock x) \<and> sl_pid (b_lock x) = p_pid (myproc s) \<and> b_refcnt x = 1 + (if b \<in> P then 1 else 0) \<and>
     b_prev x = b_prev (kb_buf s b) \<and> b_next x = b_next (kb_buf s b)"

lemma find_SomeD:
  assumes "find P xs = Some x"
  shows "x \<in> set xs" and "P x"
  using assms by (auto simp: find_Some_iff)

lemma bread_taken:
  assumes inv: "bc_inv H P s" and nheld: "\<forall>i \<in> H. b_blockno (kb_buf s i) \<noteq> n" and room: "(\<exists>i \<in> P. b_blockno (kb_buf s i) = n) \<or> card (H \<union> P) < NBUF"
  shows "\<exists>b x. bread ROOTDEV n s = Ret b (s\<lparr>kb_buf := (kb_buf s)(b := x)\<rparr>) \<and> b < NBUF \<and> b \<notin> H \<and>
    (b \<in> P \<longrightarrow> b_blockno (kb_buf s b) = n) \<and> (b \<in> P \<or> view s n = kb_disk s n) \<and> taken s n P b x \<and>
    (\<forall>j < NBUF. j \<noteq> b \<longrightarrow> b_dev (kb_buf s j) = ROOTDEV \<longrightarrow> b_blockno (kb_buf s j) \<noteq> n)"
proof -
  note D = bc_invD [OF inv]
  obtain xs where xs: "lru (kb_buf s) xs" "set xs = {..<NBUF}" using D(1) by blast
  note fnd = lru_find [OF xs]
  show ?thesis
  proof (cases "find (\<lambda>b. b_dev (kb_buf s b) = ROOTDEV \<and> b_blockno (kb_buf s b) = n) xs")
    case (Some b)
    then have b: "b < NBUF" "b_dev (kb_buf s b) = ROOTDEV" "b_blockno (kb_buf s b) = n"
      using xs(2) by (auto simp: find_Some_iff dest: nth_mem)
    then have H: "b \<notin> H" using nheld by auto
    note ok = D(4) [OF b(1), unfolded buf_ok_def Let_def]
    have v: "view s n = (if b_valid (kb_buf s b) then b_data (kb_buf s b) else kb_disk s n)"
    proof (cases "b_valid (kb_buf s b)")
      case True
      with view_buf [OF D(5) b(1,2)] b(3) show ?thesis by simp
    next
      case False
      have "cached (kb_buf s) n = None" unfolding cached_None
      proof (intro allI impI)
        fix i assume "i < NBUF" "b_dev (kb_buf s i) = ROOTDEV" "b_blockno (kb_buf s i) = n"
        then have "i = b" using one_copyD [OF D(5) _ b(1) _ b(2)] b(3) by simp
        with False show "\<not> b_valid (kb_buf s i)" by simp
      qed
      with False show ?thesis by (simp add: view_def)
    qed
    let ?l = "(b_lock (kb_buf s b))\<lparr>sl_locked := True, sl_pid := p_pid (myproc s)\<rparr>"
    let ?y = "(kb_buf s b)\<lparr>b_refcnt := b_refcnt (kb_buf s b) + 1, b_lock := ?l\<rparr>"
    have "bget ROOTDEV n s = Ret b (s\<lparr>kb_buf := (kb_buf s)(b := ?y)\<rparr>)"
      using Some fnd(1) ok H by (simp add: bget_def kseq_apply acquire_buf_apply myproc_def)
    then have "bread ROOTDEV n s = Ret b (s\<lparr>kb_buf := (kb_buf s)(b := if b_valid (kb_buf s b) then ?y else ?y\<lparr>b_data := kb_disk s n, b_valid := True\<rparr>)\<rparr>)"
      using b(3) by (simp add: bread_def disk_read_def kseq_apply)
    moreover have "taken s n P b (if b_valid (kb_buf s b) then ?y else ?y\<lparr>b_data := kb_disk s n, b_valid := True\<rparr>)"
      using ok H b v by (auto simp: taken_def)
    moreover have "\<forall>j < NBUF. j \<noteq> b \<longrightarrow> b_dev (kb_buf s j) = ROOTDEV \<longrightarrow> b_blockno (kb_buf s j) \<noteq> n"
      using one_copyD [OF D(5) _ b(1) _ b(2)] b(3) by auto
    moreover have "b \<in> P \<or> view s n = kb_disk s n" using v ok H b by auto
    ultimately show ?thesis using b H by blast
  next
    case None
    then have none: "\<forall>j < NBUF. b_dev (kb_buf s j) = ROOTDEV \<longrightarrow> b_blockno (kb_buf s j) \<noteq> n"
      using xs(2) by (auto simp: find_None_iff)
    have "b_blockno (kb_buf s i) \<noteq> n" if "i \<in> P" for i
      using that none D(3) D(4) [of i] by (auto simp: buf_ok_def Let_def)
    with room have "card (H \<union> P) < NBUF" by blast
    then have "\<exists>i < NBUF. i \<notin> H \<union> P"
      using D(2,3) by (metis Un_subset_iff card_lessThan lessThan_iff subsetI subset_antisym nless_le)
    then obtain i where "i < NBUF" "i \<notin> H \<union> P" by blast
    then have "b_refcnt (kb_buf s i) = 0" using D(4) [of i] by (simp add: buf_ok_def Let_def)
    then have "find (\<lambda>b. b_refcnt (kb_buf s b) = 0) (rev xs) \<noteq> None"
      using \<open>i < NBUF\<close> xs(2) by (auto simp: find_None_iff)
    then obtain b where fb: "find (\<lambda>b. b_refcnt (kb_buf s b) = 0) (rev xs) = Some b" by auto
    from find_SomeD [OF fb] have b: "b < NBUF" and r0: "b_refcnt (kb_buf s b) = 0" using xs(2) by simp_all
    note ok = D(4) [OF b, unfolded buf_ok_def Let_def]
    have HP: "b \<notin> H" "b \<notin> P" using ok r0 by (auto split: if_splits)
    have "cached (kb_buf s) n = None" using none unfolding cached_None by blast
    then have v: "view s n = kb_disk s n" by (simp add: view_def)
    let ?l = "(b_lock (kb_buf s b))\<lparr>sl_locked := True, sl_pid := p_pid (myproc s)\<rparr>"
    let ?y = "(kb_buf s b)\<lparr>b_dev := ROOTDEV, b_blockno := n, b_valid := False, b_refcnt := 1, b_lock := ?l\<rparr>"
    have "bget ROOTDEV n s = Ret b (s\<lparr>kb_buf := (kb_buf s)(b := ?y)\<rparr>)"
      using None fnd fb ok HP by (simp add: bget_def kseq_apply acquire_buf_apply myproc_def)
    then have "bread ROOTDEV n s = Ret b (s\<lparr>kb_buf := (kb_buf s)(b := ?y\<lparr>b_data := kb_disk s n, b_valid := True\<rparr>)\<rparr>)"
      by (simp add: bread_def disk_read_def kseq_apply)
    moreover have "taken s n P b (?y\<lparr>b_data := kb_disk s n, b_valid := True\<rparr>)" using HP v by (simp add: taken_def)
    ultimately show ?thesis using b HP none v by blast
  qed
qed

lemma view_length: "bc_inv H P s \<Longrightarrow> length (view s n) = BSIZE"
  unfolding view_def
  by (auto simp: bc_inv_def buf_ok_def Let_def cached_def find_Some_iff split: option.split)

lemma view_taken:
  assumes "bc_inv H P s" and "b < NBUF" and "b_dev x = ROOTDEV" and "b_valid x"
    and "\<forall>j < NBUF. j \<noteq> b \<longrightarrow> b_dev (kb_buf s j) = ROOTDEV \<longrightarrow> b_blockno (kb_buf s j) \<noteq> b_blockno x"
    and "b_dev (kb_buf s b) = ROOTDEV \<and> b_valid (kb_buf s b) \<and> b_blockno (kb_buf s b) \<noteq> b_blockno x \<longrightarrow>
      b_data (kb_buf s b) = kb_disk s (b_blockno (kb_buf s b))"
  shows "view (s\<lparr>kb_buf := (kb_buf s)(b := x)\<rparr>) n = (if n = b_blockno x then b_data x else view s n)"
proof -
  let ?B = "(kb_buf s)(b := x)"
  note D = bc_invD [OF assms(1)]
  have one: "one_copy ?B" using D(5) assms(3,5) by (fastforce simp: one_copy_def)
  show ?thesis
  proof (cases "n = b_blockno x")
    case True
    with cached_Some [OF one assms(2)] assms(3,4) show ?thesis by (simp add: view_def)
  next
    case n: False
    show ?thesis
    proof (cases "cached (kb_buf s) n")
      case None
      then have "cached ?B n = None" using n unfolding cached_None by auto
      with None n show ?thesis by (simp add: view_def)
    next
      case (Some i)
      then have i: "i < NBUF" "b_dev (kb_buf s i) = ROOTDEV" "b_blockno (kb_buf s i) = n" "b_valid (kb_buf s i)"
        by (auto simp: cached_def dest: find_SomeD)
      show ?thesis
      proof (cases "i = b")
        case False
        with i cached_Some [OF one i(1)] have "cached ?B n = Some i" by simp
        with Some n False show ?thesis by (simp add: view_def)
      next
        case True
        have "cached ?B n = None" unfolding cached_None
        proof (intro allI impI)
          fix j assume j: "j < NBUF" "b_dev (?B j) = ROOTDEV" "b_blockno (?B j) = n"
          show "\<not> b_valid (?B j)"
          proof (cases "j = b")
            case True
            with j n show ?thesis by simp
          next
            case jb: False
            then have "j = i" using one_copyD [OF D(5) j(1) i(1) _ i(2)] j i by simp
            with True jb show ?thesis by simp
          qed
        qed
        with Some n True i assms(6) show ?thesis by (simp add: view_def)
      qed
    qed
  qed
qed

lemma bread_ok:
  assumes "bc_inv H P s" and "\<forall>i \<in> H. b_blockno (kb_buf s i) \<noteq> n"
    and "(\<exists>i \<in> P. b_blockno (kb_buf s i) = n) \<or> card (H \<union> P) < NBUF"
  shows "\<exists>b t. bread ROOTDEV n s = Ret b t \<and> b \<notin> H \<and> b < NBUF \<and> bc_inv (insert b H) P t \<and> b_blockno (kb_buf t b) = n \<and>
    b_data (kb_buf t b) = view s n \<and> view t = view s \<and> (\<forall>i. i \<noteq> b \<longrightarrow> kb_buf t i = kb_buf s i) \<and>
    (b \<in> P \<longrightarrow> b_blockno (kb_buf s b) = n) \<and> (b \<in> P \<or> view s n = kb_disk s n) \<and>
    kb_disk t = kb_disk s \<and> kb_writes t = kb_writes s \<and> bio_step s t"
proof -
  from bread_taken [OF assms] obtain b x where
    r: "bread ROOTDEV n s = Ret b (s\<lparr>kb_buf := (kb_buf s)(b := x)\<rparr>)" (is "_ = Ret b ?t") and b: "b < NBUF" "b \<notin> H"
    and P: "b \<in> P \<longrightarrow> b_blockno (kb_buf s b) = n" "b \<in> P \<or> view s n = kb_disk s n" and x: "taken s n P b x"
    and u: "\<forall>j < NBUF. j \<noteq> b \<longrightarrow> b_dev (kb_buf s j) = ROOTDEV \<longrightarrow> b_blockno (kb_buf s j) \<noteq> n" by blast
  note D = bc_invD [OF assms(1)]
  note ok = D(4) [OF b(1), unfolded buf_ok_def Let_def]
  have "bc_inv (insert b H) P ?t"
    by (rule bc_inv_upd [OF assms(1) b(1)])
      (use x u view_length [OF assms(1), of n] in \<open>auto simp: taken_def buf_ok_def Let_def myproc_def\<close>)
  moreover have "view ?t m = view s m" for m
  proof -
    have "b_dev (kb_buf s b) = ROOTDEV \<and> b_valid (kb_buf s b) \<and> b_blockno (kb_buf s b) \<noteq> b_blockno x \<longrightarrow>
        b_data (kb_buf s b) = kb_disk s (b_blockno (kb_buf s b))"
      using ok b P x by (auto simp: taken_def)
    from view_taken [OF assms(1) b(1) _ _ _ this, of m] have
      "view ?t m = (if m = b_blockno x then b_data x else view s m)" using x u by (simp add: taken_def)
    then show ?thesis using x by (simp add: taken_def)
  qed
  moreover have "bio_step s ?t"
    by (rule bio_stepI) simp_all
  ultimately show ?thesis using r b P x by (intro exI [of _ b] exI [of _ ?t]) (auto simp: taken_def)
qed

lemma set_data_ok:
  assumes inv: "bc_inv H P s" and b: "b \<in> H" and d: "length d = BSIZE"
  defines "t \<equiv> s\<lparr>kb_buf := (kb_buf s)(b := (kb_buf s b)\<lparr>b_data := d\<rparr>)\<rparr>"
  shows "bc_inv H P t" and "view t = (view s)(b_blockno (kb_buf s b) := d)" and "bio_step s t"
proof -
  note D = bc_invD [OF inv]
  have bN: "b < NBUF" using b D(2) by auto
  note ok = D(4) [OF bN, unfolded buf_ok_def Let_def]
  have uniq: "b_blockno (kb_buf s j) \<noteq> b_blockno (kb_buf s b)"
    if "j < NBUF" "j \<noteq> b" "b_dev (kb_buf s j) = ROOTDEV" for j
    using one_copyD [OF D(5) that(1) bN that(3)] that(2) ok b by auto
  show "bc_inv H P t" unfolding t_def
    by (rule bc_inv_upd [OF inv bN]) (use ok b d uniq in \<open>auto simp: buf_ok_def Let_def myproc_def\<close>)
  show "view t = (view s)(b_blockno (kb_buf s b) := d)"
    using view_taken [OF inv bN, of "(kb_buf s b)\<lparr>b_data := d\<rparr>"] ok b uniq by (auto simp: t_def)
  show "bio_step s t"
    unfolding t_def by (rule bio_stepI) simp_all
qed

lemma holding_buf_held: "bc_inv H P s \<Longrightarrow> b \<in> H \<Longrightarrow> holding_buf b s"
  using bc_invD(2) [of H P s] bc_invD(4) [of H P s b]
  by (auto simp: holding_buf_def holdingsleep_def buf_ok_def Let_def)

lemma bwrite_ok:
  assumes inv: "bc_inv H P s" and b: "b \<in> H"
  defines "n \<equiv> b_blockno (kb_buf s b)"
  defines "t \<equiv> s\<lparr>kb_disk := (kb_disk s)(n := view s n), kb_writes := kb_writes s @ [(n, view s n)]\<rparr>"
  shows "bwrite b s = Ret () t" and "bc_inv H P t" and "view t = view s" and "bio_step s t"
proof -
  note D = bc_invD [OF inv]
  have bN: "b < NBUF" using b D(2) by auto
  note ok = D(4) [OF bN, unfolded buf_ok_def Let_def]
  have v: "view s n = b_data (kb_buf s b)" unfolding n_def by (rule view_held [OF inv b])
  show "bwrite b s = Ret () t"
    using holding_buf_held [OF inv b] v by (simp add: bwrite_def disk_write_def t_def Let_def n_def)
  have "buf_ok t H P i" if i: "i < NBUF" for i
  proof (cases "i = b")
    case True
    then show ?thesis using ok b by (simp add: t_def buf_ok_def Let_def myproc_def)
  next
    case False
    have "b_dev (kb_buf s i) = ROOTDEV \<Longrightarrow> b_blockno (kb_buf s i) \<noteq> n"
      using one_copyD [OF D(5) i bN] False ok b by (auto simp: n_def)
    then show ?thesis using D(4) [OF i] by (auto simp: t_def buf_ok_def Let_def myproc_def)
  qed
  then show "bc_inv H P t"
    using inv view_length [OF inv, of n] by (simp add: bc_inv_def t_def)
  show "view t = view s"
  proof
    fix m
    have "cached (kb_buf s) n = Some b" using cached_Some [OF D(5) bN] ok b by (simp add: n_def)
    then show "view t m = view s m" by (auto simp: view_def t_def split: option.split)
  qed
  show "bio_step s t"
    unfolding t_def by (rule bio_stepI) simp_all
qed

lemma lru_move_front:
  assumes "lru B xs" and "set xs = {..<NBUF}" and "b < NBUF"
  shows "\<exists>ys. lru (link_front b (unlink b B)) ys \<and> set ys = {..<NBUF}"
proof -
  obtain us vs where xs: "xs = us @ b # vs" using assms(2,3) by (metis lessThan_iff split_list)
  have "distinct (bhead # xs)" using assms(1) by (simp add: lru_def)
  moreover from lru_unlink [of B us b vs] assms(1) have "lru (unlink b B) (us @ vs)" by (simp add: xs)
  ultimately have "lru (link_front b (unlink b B)) (b # us @ vs)"
    using assms(3) by (intro lru_link_front) (auto simp: xs)
  moreover have "set (b # us @ vs) = {..<NBUF}" using assms(2) by (auto simp: xs)
  ultimately show ?thesis by blast
qed

lemma brelse_ok:
  assumes inv: "bc_inv H P s" and b: "b \<in> H"
    and clean: "b \<in> P \<or> view s (b_blockno (kb_buf s b)) = kb_disk s (b_blockno (kb_buf s b))"
  shows "\<exists>t. brelse b s = Ret () t \<and> bc_inv (H - {b}) P t \<and> view t = view s \<and>
    (\<forall>i. b_blockno (kb_buf t i) = b_blockno (kb_buf s i) \<and> b_data (kb_buf t i) = b_data (kb_buf s i) \<and>
      b_dev (kb_buf t i) = b_dev (kb_buf s i)) \<and>
    kb_disk t = kb_disk s \<and> kb_writes t = kb_writes s \<and> bio_step s t"
proof -
  note D = bc_invD [OF inv]
  have bN: "b < NBUF" using b D(2) by auto
  note ok = D(4) [OF bN, unfolded buf_ok_def Let_def]
  let ?x = "kb_buf s b"
  let ?B = "(kb_buf s)(b := ?x\<lparr>b_lock := (b_lock ?x)\<lparr>sl_locked := False, sl_pid := 0\<rparr>, b_refcnt := b_refcnt ?x - 1\<rparr>)"
  let ?ps = "wakeup (Some (AddrBufLock b)) (kp_procs s)"
  let ?C = "if b \<in> P then ?B else link_front b (unlink b ?B)"
  let ?t = "s\<lparr>kb_buf := ?C, kp_procs := ?ps\<rparr>"
  have r0: "b_refcnt ?x - 1 = 0 \<longleftrightarrow> b \<notin> P" using ok b by auto
  have run: "brelse b s = Ret () ?t"
    using holding_buf_held [OF inv b] r0
    by (simp add: brelse_def release_buf_def releasesleep_def kseq_apply)
  obtain xs where xs: "lru (kb_buf s) xs" "set xs = {..<NBUF}" using D(1) by blast
  then have "lru ?B xs" using lru_cong [of ?B "kb_buf s" xs] by simp
  with xs(2) have L: "\<exists>xs. lru ?C xs \<and> set xs = {..<NBUF}"
    using lru_move_front [of ?B xs b] bN by auto
  have same: "b_valid (?C i) = b_valid (kb_buf s i)" "b_dev (?C i) = b_dev (kb_buf s i)"
    "b_blockno (?C i) = b_blockno (kb_buf s i)" "b_data (?C i) = b_data (kb_buf s i)"
    "i \<noteq> b \<Longrightarrow> b_lock (?C i) = b_lock (kb_buf s i)" "i \<noteq> b \<Longrightarrow> b_refcnt (?C i) = b_refcnt (kb_buf s i)"
    "\<not> sl_locked (b_lock (?C b))" "b_refcnt (?C b) = b_refcnt ?x - 1" for i
    by simp_all
  have vb: "view s (b_blockno ?x) = b_data ?x" by (rule view_held [OF inv b])
  have pid: "p_pid (myproc ?t) = p_pid (myproc s)" using D(7) by (simp add: myproc_def)
  have "buf_ok ?t (H - {b}) P i" if i: "i < NBUF" for i
  proof (cases "i = b")
    case True
    have "b \<notin> P \<Longrightarrow> b_data ?x = kb_disk s (b_blockno ?x)" using clean vb by simp
    then show ?thesis using True ok b same(1-4) [of b] same(7,8) by (simp add: buf_ok_def Let_def)
  next
    case False
    then show ?thesis using D(4) [OF i] same(1-6) [of i] pid by (simp add: buf_ok_def Let_def)
  qed
  moreover have "one_copy ?C" using D(5) same(2,3) by (simp add: one_copy_def)
  ultimately have "bc_inv (H - {b}) P ?t" using D L by (auto simp: bc_inv_def)
  moreover have "view ?t = view s" by (rule view_cong) (simp_all add: same)
  moreover have "bio_step s ?t"
    by (rule bio_stepI) simp_all
  ultimately show ?thesis using run same by auto
qed

lemma bpin_ok:
  assumes inv: "bc_inv H P s" and b: "b \<in> H" and "b \<notin> P"
  shows "\<exists>t. bpin b s = Ret () t \<and> bc_inv H (insert b P) t \<and> view t = view s \<and>
    (\<forall>i. b_blockno (kb_buf t i) = b_blockno (kb_buf s i) \<and> b_data (kb_buf t i) = b_data (kb_buf s i)) \<and>
    kb_disk t = kb_disk s \<and> kb_writes t = kb_writes s \<and> bio_step s t"
proof -
  note D = bc_invD [OF inv]
  have bN: "b < NBUF" using b D(2) by auto
  note ok = D(4) [OF bN, unfolded buf_ok_def Let_def]
  let ?x = "(kb_buf s b)\<lparr>b_refcnt := b_refcnt (kb_buf s b) + 1\<rparr>"
  let ?t = "s\<lparr>kb_buf := (kb_buf s)(b := ?x)\<rparr>"
  have "bc_inv H (insert b P) ?t"
    by (rule bc_inv_upd [OF inv bN]) (use ok b assms(3) one_copyD [OF D(5) _ bN] in \<open>auto simp: buf_ok_def Let_def myproc_def\<close>)
  moreover have "view ?t = view s" by (rule view_cong) simp_all
  moreover have "bio_step s ?t"
    by (rule bio_stepI) simp_all
  ultimately show ?thesis by (simp add: bpin_def)
qed

lemma bunpin_ok:
  assumes inv: "bc_inv H P s" and b: "b \<in> H" and "b \<in> P"
  shows "\<exists>t. bunpin b s = Ret () t \<and> bc_inv H (P - {b}) t \<and> view t = view s \<and>
    (\<forall>i. b_blockno (kb_buf t i) = b_blockno (kb_buf s i) \<and> b_data (kb_buf t i) = b_data (kb_buf s i) \<and>
      b_dev (kb_buf t i) = b_dev (kb_buf s i)) \<and>
    kb_disk t = kb_disk s \<and> kb_writes t = kb_writes s \<and> bio_step s t"
proof -
  note D = bc_invD [OF inv]
  have bN: "b < NBUF" using b D(2) by auto
  note ok = D(4) [OF bN, unfolded buf_ok_def Let_def]
  let ?x = "(kb_buf s b)\<lparr>b_refcnt := b_refcnt (kb_buf s b) - 1\<rparr>"
  let ?t = "s\<lparr>kb_buf := (kb_buf s)(b := ?x)\<rparr>"
  have "bc_inv H (P - {b}) ?t"
    by (rule bc_inv_upd [OF inv bN]) (use ok b assms(3) one_copyD [OF D(5) _ bN] in \<open>auto simp: buf_ok_def Let_def myproc_def\<close>)
  moreover have "view ?t = view s" by (rule view_cong) simp_all
  moreover have "bio_step s ?t"
    by (rule bio_stepI) simp_all
  ultimately show ?thesis by (simp add: bunpin_def)
qed

section \<open>The interface of the cache\<close>

text \<open>
  What the users of the cache rely on: a buffer that was taken holds the contents of its
  block, giving it back changes no contents, and the thread's set of buffers is what it
  took and did not give back.
\<close>

locale block_cache =
  fixes inv :: "nat set \<Rightarrow> nat set \<Rightarrow> 's \<Rightarrow> bool"
    and contents :: "'s \<Rightarrow> u32 \<Rightarrow> u8 list"
    and stored :: "'s \<Rightarrow> u32 \<Rightarrow> u8 list"
    and blk :: "'s \<Rightarrow> nat \<Rightarrow> u32"
    and dat :: "'s \<Rightarrow> nat \<Rightarrow> u8 list"
    and take_buf :: "u32 \<Rightarrow> ('s, nat) kop"
    and give_buf :: "nat \<Rightarrow> ('s, unit) kop"
    and quiet :: "'s \<Rightarrow> 's \<Rightarrow> bool"
  assumes take_buf: "inv H P s \<Longrightarrow> \<forall>i \<in> H. blk s i \<noteq> n \<Longrightarrow> (\<exists>i \<in> P. blk s i = n) \<or> card (H \<union> P) < NBUF \<Longrightarrow>
      \<exists>b t. take_buf n s = Ret b t \<and> b \<notin> H \<and> inv (insert b H) P t \<and> blk t b = n \<and> dat t b = contents s n \<and>
        contents t = contents s \<and> stored t = stored s \<and> (b \<in> P \<or> contents s n = stored s n) \<and>
        (b \<in> P \<longrightarrow> blk s b = n) \<and> (\<forall>i. i \<noteq> b \<longrightarrow> blk t i = blk s i) \<and> quiet s t"
    and give_buf: "inv H P s \<Longrightarrow> b \<in> H \<Longrightarrow> b \<in> P \<or> contents s (blk s b) = stored s (blk s b) \<Longrightarrow>
      \<exists>t. give_buf b s = Ret () t \<and> inv (H - {b}) P t \<and> contents t = contents s \<and> stored t = stored s \<and>
        (\<forall>i. blk t i = blk s i) \<and> quiet s t"
    and quiet_trans: "quiet s t \<Longrightarrow> quiet t u \<Longrightarrow> quiet s u"
begin

text \<open>Looking at a block and giving it back at once.\<close>

lemma look_at_block:
  assumes "inv H P s" and "\<forall>i \<in> H. blk s i \<noteq> n" and "(\<exists>i \<in> P. blk s i = n) \<or> card (H \<union> P) < NBUF"
  shows "\<exists>t. kbind (take_buf n) (\<lambda>b. kbind (kget (\<lambda>s. dat s b)) (\<lambda>d. kseq (give_buf b) (kret d))) s = Ret (contents s n) t \<and>
    inv H P t \<and> contents t = contents s \<and> stored t = stored s \<and> (\<forall>i \<in> H. blk t i = blk s i) \<and> quiet s t"
proof -
  from take_buf [OF assms] obtain b t where t: "take_buf n s = Ret b t" "b \<notin> H" "inv (insert b H) P t" "blk t b = n"
    "dat t b = contents s n" "contents t = contents s" "stored t = stored s" "b \<in> P \<or> contents s n = stored s n"
    "\<forall>i. i \<noteq> b \<longrightarrow> blk t i = blk s i" "quiet s t" by blast
  have "b \<in> P \<or> contents t (blk t b) = stored t (blk t b)" using t by simp
  from give_buf [OF t(3) _ this] obtain u where "give_buf b t = Ret () u" "inv (insert b H - {b}) P u"
    "contents u = contents t" "stored u = stored t" "\<forall>i. blk u i = blk t i" "quiet t u" by blast
  then show ?thesis using t quiet_trans [of s t u] by (auto simp: kseq_apply)
qed

end

lemma bio_step_procs:
  assumes "bio_step s t"
  shows "kp_me t = kp_me s" and "woken (kp_procs s) (kp_procs t)"
  using assms by (auto simp: bio_step_def)

interpretation bcache: block_cache bc_inv view kb_disk "\<lambda>s b. b_blockno (kb_buf s b)" "\<lambda>s b. b_data (kb_buf s b)"
  "bread ROOTDEV" brelse bio_step
proof
  fix H P n and s :: "'z kbio_scheme"
  assume "bc_inv H P s" "\<forall>i \<in> H. b_blockno (kb_buf s i) \<noteq> n"
    "(\<exists>i \<in> P. b_blockno (kb_buf s i) = n) \<or> card (H \<union> P) < NBUF"
  from bread_ok [OF this] show "\<exists>b t. bread ROOTDEV n s = Ret b t \<and> b \<notin> H \<and> bc_inv (insert b H) P t \<and>
      b_blockno (kb_buf t b) = n \<and> b_data (kb_buf t b) = view s n \<and> view t = view s \<and> kb_disk t = kb_disk s \<and>
      (b \<in> P \<or> view s n = kb_disk s n) \<and>
      (b \<in> P \<longrightarrow> b_blockno (kb_buf s b) = n) \<and> (\<forall>i. i \<noteq> b \<longrightarrow> b_blockno (kb_buf t i) = b_blockno (kb_buf s i)) \<and> bio_step s t"
    by fastforce
next
  fix H P b and s :: "'z kbio_scheme"
  assume "bc_inv H P s" "b \<in> H" "b \<in> P \<or> view s (b_blockno (kb_buf s b)) = kb_disk s (b_blockno (kb_buf s b))"
  from brelse_ok [OF this] show "\<exists>t. brelse b s = Ret () t \<and> bc_inv (H - {b}) P t \<and> view t = view s \<and>
      kb_disk t = kb_disk s \<and> (\<forall>i. b_blockno (kb_buf t i) = b_blockno (kb_buf s i)) \<and> bio_step s t" by blast
qed (rule bio_step_trans)

lemma bread_data_ok:
  assumes "bc_inv H P s" and "\<forall>i \<in> H. b_blockno (kb_buf s i) \<noteq> n"
    and "(\<exists>i \<in> P. b_blockno (kb_buf s i) = n) \<or> card (H \<union> P) < NBUF"
  shows "\<exists>t. bread_data ROOTDEV n s = Ret (view s n) t \<and> bc_inv H P t \<and> view t = view s \<and> kb_disk t = kb_disk s \<and>
    (\<forall>i \<in> H. b_blockno (kb_buf t i) = b_blockno (kb_buf s i)) \<and> bio_step s t"
  unfolding bread_data_def by (rule bcache.look_at_block [OF assms])

section \<open>The cache is transparent\<close>

definition zero_buf :: buf where
  "zero_buf = \<lparr>b_valid = False, b_dev = 0, b_blockno = 0, b_lock = \<lparr>sl_locked = False, sl_pid = 0\<rparr>, b_refcnt = 0,
     b_prev = 0, b_next = 0, b_data = replicate BSIZE 0\<rparr>"

lemma binit_step_lru: "lru B xs \<Longrightarrow> n \<notin> set xs \<Longrightarrow> n \<noteq> bhead \<Longrightarrow> lru (binit_step n B) (n # xs)"
  unfolding binit_step_def by (intro lru_link_front) (simp_all add: lru_cong [of "B(n := (B n)\<lparr>b_lock := initsleeplock\<rparr>)" B])

lemma binit_lru:
  assumes "n \<le> NBUF"
  shows "lru (fold binit_step [0..<n] (set_next bhead bhead (set_prev bhead bhead B))) (rev [0..<n])"
  using assms
proof (induction n)
  case 0
  show ?case by (simp add: lru_def)
next
  case (Suc n)
  let ?B = "fold binit_step [0..<n] (set_next bhead bhead (set_prev bhead bhead B))"
  have "lru ?B (rev [0..<n])" by (rule Suc.IH [OF Suc_leD [OF Suc.prems]])
  then have "lru (binit_step n ?B) (n # rev [0..<n])" by (rule binit_step_lru) (use Suc.prems in auto)
  then show ?case by simp
qed

lemma binit_fields:
  "b_valid (fold binit_step xs B i) = b_valid (B i)" "b_dev (fold binit_step xs B i) = b_dev (B i)"
  "b_refcnt (fold binit_step xs B i) = b_refcnt (B i)"
  "b_lock (fold binit_step xs B i) = (if i \<in> set xs then initsleeplock else b_lock (B i))"
  by (induction xs arbitrary: B) (auto simp: binit_step_def)

lemma bc_inv_boot:
  assumes "kb_buf s = binit (\<lambda>_. zero_buf)" and "\<forall>n. length (kb_disk s n) = BSIZE" and "kp_me s < length (kp_procs s)"
  shows "bc_inv {} {} s"
proof -
  have "\<exists>xs. lru (kb_buf s) xs \<and> set xs = {..<NBUF}"
    using binit_lru [OF order_refl, of "\<lambda>_. zero_buf"] assms(1)
    by (intro exI [of _ "rev [0..<NBUF]"]) (auto simp: binit_def)
  moreover have "buf_ok s {} {} i" if "i < NBUF" for i
    using that by (simp add: buf_ok_def Let_def assms(1) binit_def binit_fields initsleeplock_def zero_buf_def ROOTDEV_def)
  moreover have "one_copy (kb_buf s)"
    by (simp add: one_copy_def assms(1) binit_def binit_fields zero_buf_def ROOTDEV_def)
  ultimately show ?thesis using assms by (simp add: bc_inv_def)
qed

lemma view_clean:
  assumes "bc_inv H P s" and "\<forall>i \<in> H \<union> P. b_blockno (kb_buf s i) \<noteq> n"
  shows "view s n = kb_disk s n"
proof (cases "cached (kb_buf s) n")
  case None
  then show ?thesis by (simp add: view_def)
next
  case (Some i)
  then have i: "i < NBUF" "b_dev (kb_buf s i) = ROOTDEV" "b_blockno (kb_buf s i) = n" "b_valid (kb_buf s i)"
    by (auto simp: cached_def dest: find_SomeD)
  then have "i \<notin> H" "i \<notin> P" using assms(2) by auto
  then show ?thesis using Some i bc_invD(4) [OF assms(1) i(1)] by (simp add: view_def buf_ok_def Let_def)
qed

datatype bop = BRead u32 | BWrite u32 "u8 list"

primrec bop_run :: "bop list \<Rightarrow> ('z kbio_scheme, u8 list list) kop" where
  "bop_run [] = kret []"
| "bop_run (op # ops) =
     (case op of
        BRead n \<Rightarrow> kbind (bread_data ROOTDEV n) (\<lambda>d. kbind (bop_run ops) (\<lambda>ds. kret (d # ds)))
      | BWrite n d \<Rightarrow> kbind (bread ROOTDEV n) (\<lambda>b. kseq (upd_buf b (\<lambda>x. x\<lparr>b_data := d\<rparr>))
          (kseq (bwrite b) (kseq (brelse b) (bop_run ops)))))"

primrec disk_run :: "bop list \<Rightarrow> (u32 \<Rightarrow> u8 list) \<Rightarrow> u8 list list \<times> (u32 \<Rightarrow> u8 list)" where
  "disk_run [] D = ([], D)"
| "disk_run (op # ops) D =
     (case op of
        BRead n \<Rightarrow> (let (ds, D') = disk_run ops D in (D n # ds, D'))
      | BWrite n d \<Rightarrow> disk_run ops (D(n := d)))"

lemma write_through:
  assumes "bc_inv {} {} s" and "length d = BSIZE"
  shows "\<exists>b t u v. bread ROOTDEV n s = Ret b t \<and> upd_buf b (\<lambda>x. x\<lparr>b_data := d\<rparr>) t = Ret () u \<and>
    kseq (bwrite b) (brelse b) u = Ret () v \<and> bc_inv {} {} v \<and> kb_disk v = (kb_disk s)(n := d)"
proof -
  obtain b t where t: "bread ROOTDEV n s = Ret b t" "bc_inv {b} {} t" "b_blockno (kb_buf t b) = n" "kb_disk t = kb_disk s"
    using bread_ok [OF assms(1), of n] by (auto simp: NBUF_def)
  let ?u = "t\<lparr>kb_buf := (kb_buf t)(b := (kb_buf t b)\<lparr>b_data := d\<rparr>)\<rparr>"
  note u = set_data_ok(1,2) [OF t(2) singletonI assms(2)]
  note w = bwrite_ok [OF u(1) singletonI]
  let ?w = "?u\<lparr>kb_disk := (kb_disk ?u)(n := d), kb_writes := kb_writes ?u @ [(n, d)]\<rparr>"
  have w': "bwrite b ?u = Ret () ?w" "bc_inv {b} {} ?w" "view ?w = view ?u" using w u(2) t(3) by simp_all
  have "view ?w (b_blockno (kb_buf ?w b)) = kb_disk ?w (b_blockno (kb_buf ?w b))"
    using w'(3) u(2) t(3) by simp
  then obtain v where v: "brelse b ?w = Ret () v" "bc_inv {} {} v" "kb_disk v = kb_disk ?w"
    using brelse_ok [OF w'(2), of b] by auto
  then have "kseq (bwrite b) (brelse b) ?u = Ret () v" using w'(1) by (simp add: kseq_apply)
  with v t(1,4) show ?thesis by fastforce
qed

text \<open>
  C18: the buffer cache is transparent. Starting from the cache as \<open>binit\<close> leaves
  it, any sequence of block reads and writes through \<open>bread\<close>, \<open>bwrite\<close> and
  \<open>brelse\<close> returns what the same sequence returns on the plain disk, and leaves the
  disk with the same contents, however blocks are evicted from the 30 buffers. No call
  panics or sleeps.
\<close>

theorem bcache_transparent:
  assumes "kb_buf s = binit (\<lambda>_. zero_buf)" and "\<forall>n. length (kb_disk s n) = BSIZE" and "kp_me s < length (kp_procs s)"
    and "\<forall>n d. BWrite n d \<in> set ops \<longrightarrow> length d = BSIZE"
  shows "\<exists>t. bop_run ops s = Ret (fst (disk_run ops (kb_disk s))) t \<and> kb_disk t = snd (disk_run ops (kb_disk s))"
proof -
  have "bc_inv {} {} s" using assms(1-3) by (rule bc_inv_boot)
  then have "\<exists>t. bop_run ops s = Ret (fst (disk_run ops (kb_disk s))) t \<and> kb_disk t = snd (disk_run ops (kb_disk s)) \<and> bc_inv {} {} t"
    using assms(4)
  proof (induction ops arbitrary: s)
    case (Cons op ops)
    show ?case
    proof (cases op)
      case (BRead n)
      from bread_data_ok [OF Cons.prems(1), of n] obtain t where
        t: "bread_data ROOTDEV n s = Ret (view s n) t" "bc_inv {} {} t" "kb_disk t = kb_disk s" by (auto simp: NBUF_def)
      have "view s n = kb_disk s n" using view_clean [OF Cons.prems(1)] by simp
      with Cons.IH [OF t(2)] Cons.prems(2) t BRead show ?thesis by (auto simp: case_prod_beta)
    next
      case (BWrite n d)
      with Cons.prems(2) have "length d = BSIZE" by simp
      from write_through [OF Cons.prems(1) this, of n] obtain b t u v where
        w: "bread ROOTDEV n s = Ret b t" "upd_buf b (\<lambda>x. x\<lparr>b_data := d\<rparr>) t = Ret () u"
          "kseq (bwrite b) (brelse b) u = Ret () v" "bc_inv {} {} v" "kb_disk v = (kb_disk s)(n := d)" by blast
      then have "bop_run (op # ops) s = bop_run ops v"
        using BWrite by (auto simp: kseq_apply elim!: kbind_RetD)
      moreover have "disk_run (op # ops) (kb_disk s) = disk_run ops (kb_disk v)"
        unfolding w(5) BWrite disk_run.simps bop.case ..
      ultimately show ?thesis using Cons.IH [OF w(4)] Cons.prems(2) by auto
    qed
  qed simp
  then show ?thesis by blast
qed

definition demo_bio :: kbio where
  "demo_bio = \<lparr>km_mem = demo_user_mem, km_freelist = 0, km_end = 0x80020000,
     kp_procs = [demo_user_proc], kp_nextpid = 4, kp_initproc = Some 0, kp_me = 0,
     kc_out = [], kc_rx = [], kc_lsr = [], kc_txlock = initsleeplock, kc_cons = demo_cons,
     kp_pipes = \<lambda>_. \<lparr>pi_data = demo_ring, pi_nread = -2, pi_nwrite = 0, pi_readopen = True, pi_writeopen = True\<rparr>,
     kb_buf = binit (\<lambda>_. zero_buf), kb_disk = \<lambda>n. replicate BSIZE (ucast n), kb_writes = []\<rparr>"

theorem bcache_transparent_witness:
  "\<exists>t. bop_run [BRead 7, BWrite 7 (replicate BSIZE 1), BRead 7] demo_bio = Ret [replicate BSIZE 7, replicate BSIZE 1] t"
  using bcache_transparent [of demo_bio "[BRead 7, BWrite 7 (replicate BSIZE 1), BRead 7]"]
  by (auto simp: demo_bio_def)

end
