(* ===== verification/Block.thy ===== *)
theory Block
  imports CMemory
begin

text \<open>
  Fields inside a block of bytes. The kernel overlays C structures on \<open>bp->data\<close>; a
  field is a little-endian integer at an offset.
\<close>

definition put_at :: "nat \<Rightarrow> 'a list \<Rightarrow> 'a list \<Rightarrow> 'a list" where
  "put_at off bs d = take off d @ bs @ drop (off + length bs) d"

definition slice :: "nat \<Rightarrow> nat \<Rightarrow> 'a list \<Rightarrow> 'a list" where
  "slice off n d = take n (drop off d)"

definition get16 :: "nat \<Rightarrow> u8 list \<Rightarrow> u16" where
  "get16 off d = word_of_bytes (slice off 2 d)"

definition put16 :: "nat \<Rightarrow> u16 \<Rightarrow> u8 list \<Rightarrow> u8 list" where
  "put16 off w d = put_at off (bytes_of_word 2 w) d"

definition get32 :: "nat \<Rightarrow> u8 list \<Rightarrow> u32" where
  "get32 off d = word_of_bytes (slice off 4 d)"

definition put32 :: "nat \<Rightarrow> u32 \<Rightarrow> u8 list \<Rightarrow> u8 list" where
  "put32 off w d = put_at off (bytes_of_word 4 w) d"

lemma length_put_at [simp]: "off + length bs \<le> length d \<Longrightarrow> length (put_at off bs d) = length d"
  by (simp add: put_at_def)

lemma nth_put_at:
  assumes "off + length bs \<le> length d" and "i < length d"
  shows "put_at off bs d ! i = (if off \<le> i \<and> i < off + length bs then bs ! (i - off) else d ! i)"
  using assms by (auto simp: put_at_def nth_append min_def)

lemma length_slice [simp]: "off + n \<le> length d \<Longrightarrow> length (slice off n d) = n"
  by (simp add: slice_def)

lemma nth_slice [simp]: "off + n \<le> length d \<Longrightarrow> i < n \<Longrightarrow> slice off n d ! i = d ! (off + i)"
  by (simp add: slice_def)

lemma slice_put_same [simp]:
  "off + length bs \<le> length d \<Longrightarrow> n = length bs \<Longrightarrow> slice off n (put_at off bs d) = bs"
  by (simp add: slice_def put_at_def)

lemma slice_put_other:
  assumes "off + length bs \<le> length d" and "o2 + n \<le> length d" and "o2 + n \<le> off \<or> off + length bs \<le> o2"
  shows "slice o2 n (put_at off bs d) = slice o2 n d"
  using assms by (intro nth_equalityI) (auto simp: nth_put_at)

lemma put_at_self: "off + n \<le> length d \<Longrightarrow> put_at off (slice off n d) d = d"
  by (intro nth_equalityI) (auto simp: nth_put_at)

lemma length_put [simp]:
  "off + 2 \<le> length d \<Longrightarrow> length (put16 off v d) = length d" "off + 4 \<le> length d \<Longrightarrow> length (put32 off w d) = length d"
  by (simp_all add: put16_def put32_def)

lemma get_put_same [simp]:
  "off + 2 \<le> length d \<Longrightarrow> get16 off (put16 off v d) = v" "off + 4 \<le> length d \<Longrightarrow> get32 off (put32 off w d) = w"
  by (simp_all add: get16_def put16_def get32_def put32_def word_of_bytes_of_word)

lemma get_put_other:
  "off + 4 \<le> length d \<Longrightarrow> o2 + 4 \<le> length d \<Longrightarrow> o2 + 4 \<le> off \<or> off + 4 \<le> o2 \<Longrightarrow> get32 o2 (put32 off w d) = get32 o2 d"
  "off + 2 \<le> length d \<Longrightarrow> o2 + 4 \<le> length d \<Longrightarrow> o2 + 4 \<le> off \<or> off + 2 \<le> o2 \<Longrightarrow> get32 o2 (put16 off v d) = get32 o2 d"
  "off + 4 \<le> length d \<Longrightarrow> o2 + 2 \<le> length d \<Longrightarrow> o2 + 2 \<le> off \<or> off + 4 \<le> o2 \<Longrightarrow> get16 o2 (put32 off w d) = get16 o2 d"
  "off + 2 \<le> length d \<Longrightarrow> o2 + 2 \<le> length d \<Longrightarrow> o2 + 2 \<le> off \<or> off + 2 \<le> o2 \<Longrightarrow> get16 o2 (put16 off v d) = get16 o2 d"
  by (simp_all add: get16_def put16_def get32_def put32_def slice_put_other)

end
