(* ===== verification/Log.thy ===== *)
theory Log
  imports Bio Block
begin

text \<open>
  The write-ahead log, \<open>kernel/log.c\<close>. The header block on disk is the C structure
  \<open>struct logheader\<close>: the number of logged blocks at offset 0 and their numbers
  after it. The facts show that a transaction is atomic: if the machine stops after any
  number of the disk writes of a commit, recovery leaves either all the old or
  all the new contents.
\<close>

section \<open>The code\<close>

definition MAXOPBLOCKS :: nat where "MAXOPBLOCKS = 10"
definition LOGBLOCKS :: nat where "LOGBLOCKS = MAXOPBLOCKS * 3"

record log =
  lg_start :: int
  lg_outstanding :: int
  lg_committing :: bool
  lg_dev :: u32
  lg_ncommit :: int
  lh_n :: int
  lh_block :: "int list"

record klog = kbio +
  kl_log :: log

definition upd_log :: "(log \<Rightarrow> log) \<Rightarrow> ('z klog_scheme, unit) kop" where
  "upd_log f = kmod (\<lambda>s. s\<lparr>kl_log := f (kl_log s)\<rparr>)"

definition set_data :: "nat \<Rightarrow> u8 list \<Rightarrow> ('z kbio_scheme, unit) kop" where
  "set_data b d = upd_buf b (\<lambda>x. x\<lparr>b_data := d\<rparr>)"

text \<open>The number of the log block for entry \<open>tail\<close>, and the home block of the entry.\<close>

definition log_block :: "log \<Rightarrow> nat \<Rightarrow> u32" where
  "log_block l tail = word_of_int (lg_start l + int tail + 1)"

definition home_block :: "log \<Rightarrow> nat \<Rightarrow> u32" where
  "home_block l tail = word_of_int (lh_block l ! tail)"

definition install_one :: "bool \<Rightarrow> nat \<Rightarrow> ('z klog_scheme, unit) kop" where
  "install_one recovering tail = (\<lambda>s. let l = kl_log s in
     kseq (if recovering
           then kprintk (''recovering tail %d dst %d'' @ [CHR 0x0A]) [KWord (of_nat tail), KWord (word_of_int (lh_block l ! tail))]
           else kret ())
       (kbind (bread (lg_dev l) (log_block l tail)) (\<lambda>lbuf.
         kbind (bread (lg_dev l) (home_block l tail)) (\<lambda>dbuf.
           kbind (kget (\<lambda>s. b_data (kb_buf s lbuf))) (\<lambda>d.
             kseq (set_data dbuf d)
               (kseq (bwrite dbuf)
                 (kseq (if \<not> recovering then bunpin dbuf else kret ())
                   (kseq (brelse lbuf) (brelse dbuf)))))))) s)"

definition install_trans :: "bool \<Rightarrow> ('z klog_scheme, unit) kop" where
  "install_trans recovering = (\<lambda>s. kfor [0..<nat (lh_n (kl_log s))] (install_one recovering) s)"

text \<open>
  The header is read and written in place. More than \<open>LOGBLOCKS\<close> entries would be read
  from outside the arrays.
\<close>

definition read_head :: "('z klog_scheme, unit) kop" where
  "read_head = (\<lambda>s. kbind (bread_data (lg_dev (kl_log s)) (word_of_int (lg_start (kl_log s)))) (\<lambda>d.
     let n = sint (get32 0 d) in
     if nat n > LOGBLOCKS then (\<lambda>s. Fault)
     else upd_log (\<lambda>l. l\<lparr>lh_n := n,
            lh_block := map (\<lambda>i. sint (get32 (4 + 4 * i) d)) [0..<nat n] @ drop (nat n) (lh_block l)\<rparr>)) s)"

definition header_data :: "log \<Rightarrow> u8 list \<Rightarrow> u8 list" where
  "header_data l d = fold (\<lambda>i. put32 (4 + 4 * i) (word_of_int (lh_block l ! i))) [0..<nat (lh_n l)]
     (put32 0 (word_of_int (lh_n l)) d)"

definition write_head :: "('z klog_scheme, unit) kop" where
  "write_head = (\<lambda>s. let l = kl_log s in
     kbind (bread (lg_dev l) (word_of_int (lg_start l))) (\<lambda>b.
       kbind (kget (\<lambda>s. b_data (kb_buf s b))) (\<lambda>d.
         kseq (set_data b (header_data l d)) (kseq (bwrite b) (brelse b)))) s)"

definition recover_from_log :: "('z klog_scheme, unit) kop" where
  "recover_from_log =
     kseq read_head (kseq (install_trans True) (kseq (upd_log (\<lambda>l. l\<lparr>lh_n := 0\<rparr>)) write_head))"

definition initlog :: "u32 \<Rightarrow> u32 \<Rightarrow> ('z klog_scheme, unit) kop" where
  "initlog dev logstart =
     (if 4 + 4 * LOGBLOCKS \<ge> BSIZE then kpanic ''initlog: too big logheader''
      else kseq (upd_log (\<lambda>l. l\<lparr>lg_start := sint logstart, lg_dev := dev\<rparr>)) recover_from_log)"

definition begin_op :: "('z klog_scheme, unit) kop" where
  "begin_op = (\<lambda>s. let l = kl_log s in
     if lg_committing l then ksleep AddrLog s
     else if lh_n l + (lg_outstanding l + 1) * int MAXOPBLOCKS > int LOGBLOCKS then ksleep AddrLog s
     else upd_log (\<lambda>l. l\<lparr>lg_outstanding := lg_outstanding l + 1\<rparr>) s)"

definition write_log_one :: "nat \<Rightarrow> ('z klog_scheme, unit) kop" where
  "write_log_one tail = (\<lambda>s. let l = kl_log s in
     kbind (bread (lg_dev l) (log_block l tail)) (\<lambda>to_b.
       kbind (bread (lg_dev l) (home_block l tail)) (\<lambda>from_b.
         kbind (kget (\<lambda>s. b_data (kb_buf s from_b))) (\<lambda>d.
           kseq (set_data to_b d) (kseq (bwrite to_b) (kseq (brelse from_b) (brelse to_b)))))) s)"

definition write_log :: "('z klog_scheme, unit) kop" where
  "write_log = (\<lambda>s. kfor [0..<nat (lh_n (kl_log s))] write_log_one s)"

definition commit :: "('z klog_scheme, unit) kop" where
  "commit = (\<lambda>s.
     if lh_n (kl_log s) > 0
     then kseq write_log (kseq write_head (kseq (install_trans False)
            (kseq (upd_log (\<lambda>l. l\<lparr>lh_n := 0\<rparr>)) write_head))) s
     else Ret () s)"

definition end_op :: "('z klog_scheme, unit) kop" where
  "end_op =
     kseq (upd_log (\<lambda>l. l\<lparr>lg_outstanding := lg_outstanding l - 1\<rparr>))
       (\<lambda>s. if lg_committing (kl_log s) then Panic ''log.committing''
            else if lg_outstanding (kl_log s) = 0
            then kseq (upd_log (\<lambda>l. l\<lparr>lg_committing := True\<rparr>))
                   (kseq commit
                     (kseq (upd_log (\<lambda>l. l\<lparr>lg_committing := False, lg_ncommit := lg_ncommit l + 1\<rparr>))
                       (kwakeup AddrLog))) s
            else kwakeup AddrLog s)"

text \<open>The entry that \<open>b\<close> goes to: its own one if it is in the log, else the next free one.\<close>

primrec absorb :: "int list \<Rightarrow> u32 \<Rightarrow> nat" where
  "absorb [] b = 0"
| "absorb (x # xs) b = (if word_of_int x = b then 0 else Suc (absorb xs b))"

definition log_write :: "nat \<Rightarrow> ('z klog_scheme, unit) kop" where
  "log_write b = (\<lambda>s. let l = kl_log s; n = nat (lh_n l); bn = b_blockno (kb_buf s b) in
     if lh_n l \<ge> int LOGBLOCKS then Panic ''too big a transaction''
     else if lg_outstanding l < 1 then Panic ''log_write outside of trans''
     else let i = absorb (take n (lh_block l)) bn in
       kseq (upd_log (\<lambda>l. l\<lparr>lh_block := (lh_block l)[i := sint bn]\<rparr>))
         (if i = n then kseq (bpin b) (upd_log (\<lambda>l. l\<lparr>lh_n := lh_n l + 1\<rparr>)) else kret ()) s)"

text \<open>
  \<open>sys_sync\<close>: the count that ends the wait is fixed when the call starts. It is
  \<open>None\<close> when nothing is going on.
\<close>

definition sync_target :: "log \<Rightarrow> int option" where
  "sync_target l = (if lg_committing l \<or> lg_outstanding l > 0 then Some (lg_ncommit l + 1) else None)"

definition sync_wait :: "int option \<Rightarrow> ('z klog_scheme, int) kop" where
  "sync_wait target = (\<lambda>s. case target of
       None \<Rightarrow> Ret 0 s
     | Some n \<Rightarrow> if lg_ncommit (kl_log s) < n then ksleep AddrLog s else Ret 0 s)"

definition sys_sync :: "('z klog_scheme, int) kop" where
  "sys_sync = (\<lambda>s. sync_wait (sync_target (kl_log s)) s)"

section \<open>Writing one block\<close>

lemma bc_inv_more [simp]:
  "bc_inv H P (s\<lparr>kc_out := out, kc_lsr := lsr\<rparr>) = bc_inv H P s" "view (s\<lparr>kc_out := out, kc_lsr := lsr\<rparr>) = view s"
  by (simp_all add: bc_inv_def buf_ok_def Let_def myproc_def view_def fun_eq_iff split: option.split)

lemma bc_inv_log [simp]:
  "bc_inv H P (s\<lparr>kl_log := l\<rparr>) = bc_inv H P s" "view (s\<lparr>kl_log := l\<rparr>) = view s"
  by (simp_all add: bc_inv_def buf_ok_def Let_def myproc_def view_def fun_eq_iff split: option.split)

lemma bio_step_log: "bio_step s t \<Longrightarrow> kl_log t = kl_log s"
  by (auto simp: bio_step_def)

lemma bio_step_upd_log:
  assumes "bio_step s t"
  shows "bio_step (s\<lparr>kl_log := l\<rparr>) (t\<lparr>kl_log := l\<rparr>)"
proof -
  obtain B D W ps out lsr where
    "t = s\<lparr>kb_buf := B, kb_disk := D, kb_writes := W, kp_procs := ps, kc_out := out, kc_lsr := lsr\<rparr>" "woken (kp_procs s) ps"
    using assms by (auto simp: bio_step_def)
  then show ?thesis by (intro bio_stepI) simp_all
qed

lemma upd_log_apply [simp]: "upd_log f s = Ret () (s\<lparr>kl_log := f (kl_log s)\<rparr>)"
  by (simp add: upd_log_def)

text \<open>Storing new contents in a buffer and writing it to the disk.\<close>

lemma store_block:
  assumes "bc_inv H P s" and "b \<in> H" and "length d = BSIZE"
  defines "n \<equiv> b_blockno (kb_buf s b)"
  shows "\<exists>t. kseq (set_data b d) (bwrite b) s = Ret () t \<and> bc_inv H P t \<and> view t = (view s)(n := d) \<and>
    kb_disk t = (kb_disk s)(n := d) \<and> kb_writes t = kb_writes s @ [(n, d)] \<and>
    (\<forall>i. b_blockno (kb_buf t i) = b_blockno (kb_buf s i)) \<and> bio_step s t"
proof -
  let ?u = "s\<lparr>kb_buf := (kb_buf s)(b := (kb_buf s b)\<lparr>b_data := d\<rparr>)\<rparr>"
  note u = set_data_ok [OF assms(1-3)]
  have bn: "b_blockno (kb_buf ?u b) = n" by (simp add: n_def)
  have v: "view ?u n = d" using u(2) by (simp add: n_def)
  note w = bwrite_ok [OF u(1) assms(2), unfolded bn v]
  have "kseq (set_data b d) (bwrite b) s = Ret () (?u\<lparr>kb_disk := (kb_disk ?u)(n := d), kb_writes := kb_writes ?u @ [(n, d)]\<rparr>)"
    using w(1) by (simp add: set_data_def kseq_apply)
  moreover note w(2,3) u(2) bio_step_trans [OF u(3) w(4)]
  ultimately show ?thesis by (auto simp: n_def)
qed

text \<open>A pinned block is found in its buffer.\<close>

lemma bread_pinned:
  assumes "bc_inv H P s" and "\<forall>i \<in> H. b_blockno (kb_buf s i) \<noteq> n" and "j \<in> P" and "b_blockno (kb_buf s j) = n"
  shows "\<exists>t. bread ROOTDEV n s = Ret j t \<and> j \<notin> H \<and> bc_inv (insert j H) P t \<and> b_blockno (kb_buf t j) = n \<and>
    view t = view s \<and> (\<forall>i. b_blockno (kb_buf t i) = b_blockno (kb_buf s i)) \<and> kb_disk t = kb_disk s \<and> kb_writes t = kb_writes s \<and> bio_step s t"
proof -
  from bread_ok [OF assms(1,2)] assms(3,4) obtain b t where
    b: "bread ROOTDEV n s = Ret b t" "b \<notin> H" "bc_inv (insert b H) P t" "b_blockno (kb_buf t b) = n" "view t = view s"
      "\<forall>i. i \<noteq> b \<longrightarrow> kb_buf t i = kb_buf s i" "kb_disk t = kb_disk s" "kb_writes t = kb_writes s" "bio_step s t" by blast
  have jN: "j < NBUF" using assms(3) bc_invD(3) [OF assms(1)] by auto
  have bN: "b < NBUF" using bc_invD(2) [OF b(3)] by auto
  have dev: "b_dev (kb_buf s j) = ROOTDEV" using bc_invD(4) [OF assms(1) jN] assms(3) by (simp add: buf_ok_def Let_def)
  have "b_dev (kb_buf t b) = ROOTDEV" using bc_invD(4) [OF b(3) bN] by (simp add: buf_ok_def Let_def)
  then have "b = j"
  proof (rule_tac ccontr)
    assume ne: "b \<noteq> j" and d: "b_dev (kb_buf t b) = ROOTDEV"
    have "kb_buf t j = kb_buf s j" using b(6) ne by metis
    then have "j = b" using one_copyD [OF bc_invD(5) [OF b(3)] jN bN _ d] dev assms(4) b(4) by simp
    with ne show False by simp
  qed
  with b assms(4) show ?thesis by (metis (no_types))
qed

lemma write_log_one_ok:
  assumes inv: "bc_inv {} P s" and dev: "lg_dev (kl_log s) = ROOTDEV"
    and j: "j \<in> P" "b_blockno (kb_buf s j) = home_block (kl_log s) i"
    and apart: "\<forall>p \<in> P. b_blockno (kb_buf s p) \<noteq> log_block (kl_log s) i" and room: "card P < NBUF"
  defines "lb \<equiv> log_block (kl_log s) i" and "d \<equiv> view s (home_block (kl_log s) i)"
  shows "\<exists>t. write_log_one i s = Ret () t \<and> bc_inv {} P t \<and> view t = (view s)(lb := d) \<and> kb_disk t = (kb_disk s)(lb := d) \<and>
    kb_writes t = kb_writes s @ [(lb, d)] \<and> (\<forall>p \<in> P. b_blockno (kb_buf t p) = b_blockno (kb_buf s p)) \<and> bio_step s t"
proof -
  let ?hb = "home_block (kl_log s) i"
  have ne: "lb \<noteq> ?hb" using apart j by (auto simp: lb_def)
  obtain b t1 where t1: "bread ROOTDEV lb s = Ret b t1" "bc_inv {b} P t1" "b_blockno (kb_buf t1 b) = lb" "view t1 = view s"
      "\<forall>p. p \<noteq> b \<longrightarrow> kb_buf t1 p = kb_buf s p" "b \<in> P \<longrightarrow> b_blockno (kb_buf s b) = lb" "kb_disk t1 = kb_disk s"
      "kb_writes t1 = kb_writes s" "bio_step s t1"
    using bread_ok [OF inv, of lb] room by auto
  have bP: "b \<notin> P" using t1(6) apart by (auto simp: lb_def)
  then have P1: "\<forall>p \<in> P. b_blockno (kb_buf t1 p) = b_blockno (kb_buf s p)" using t1(5) by metis
  obtain t2 where t2: "bread ROOTDEV ?hb t1 = Ret j t2" "bc_inv {j, b} P t2" "view t2 = view s"
      "\<forall>p. b_blockno (kb_buf t2 p) = b_blockno (kb_buf t1 p)" "kb_disk t2 = kb_disk s" "kb_writes t2 = kb_writes s" "bio_step t1 t2"
    using bread_pinned [OF t1(2) _ j(1), of ?hb] ne t1 P1 j by auto
  have dd: "b_data (kb_buf t2 j) = d"
    using view_held [OF t2(2), of j] t2(3,4) P1 j by (simp add: d_def)
  have len: "length d = BSIZE" unfolding d_def by (rule view_length [OF inv])
  obtain t3 where t3: "kseq (set_data b d) (bwrite b) t2 = Ret () t3" "bc_inv {j, b} P t3" "view t3 = (view s)(lb := d)"
      "kb_disk t3 = (kb_disk s)(lb := d)" "kb_writes t3 = kb_writes s @ [(lb, d)]"
      "\<forall>p. b_blockno (kb_buf t3 p) = b_blockno (kb_buf t2 p)" "bio_step t2 t3"
    using store_block [OF t2(2) _ len, of b] t2 t1(3) by auto
  obtain t4 where t4: "brelse j t3 = Ret () t4" "bc_inv ({j, b} - {j}) P t4" "view t4 = view t3"
      "\<forall>p. b_blockno (kb_buf t4 p) = b_blockno (kb_buf t3 p)" "kb_disk t4 = kb_disk t3" "kb_writes t4 = kb_writes t3" "bio_step t3 t4"
    using brelse_ok [OF t3(2), of j] j(1) by auto
  have jb: "j \<noteq> b" using bP j(1) by auto
  have "view t4 (b_blockno (kb_buf t4 b)) = kb_disk t4 (b_blockno (kb_buf t4 b))"
    using t4 t3 t2(4) t1(3) by simp
  then obtain t5 where t5: "brelse b t4 = Ret () t5" "bc_inv ({j, b} - {j} - {b}) P t5" "view t5 = view t4"
      "\<forall>p. b_blockno (kb_buf t5 p) = b_blockno (kb_buf t4 p)" "kb_disk t5 = kb_disk t4" "kb_writes t5 = kb_writes t4" "bio_step t4 t5"
    using brelse_ok [OF t4(2), of b] jb by auto
  have empty: "{j, b} - {j} - {b} = {}" by auto
  have inv5: "bc_inv {} P t5" using t5(2) unfolding empty .
  have "write_log_one i s = Ret () t5"
    using t1(1) t2(1) t3(1) t4(1) t5(1) dev dd
    by (auto simp: write_log_one_def Let_def lb_def kseq_apply elim!: kbind_RetD)
  moreover have "bio_step s t5"
    using t1(9) t2(7) t3(7) t4(7) t5(7) by (meson bio_step_trans)
  ultimately show ?thesis
    using inv5 t5(3-6) t4(3-6) t3(3-6) t2(4) P1 by auto
qed

lemma recover_format: "printk (''recovering tail %d dst %d'' @ [CHR 0x0A]) [KWord a, KWord b] \<noteq> None"
  by (simp add: printk_def printk_dir_def peek_def Let_def)

lemma install_one_ok:
  assumes inv: "bc_inv {} P s" and dev: "lg_dev (kl_log s) = ROOTDEV"
    and pins: "if recovering then P = {} else \<exists>j \<in> P. b_blockno (kb_buf s j) = home_block (kl_log s) i"
    and apart: "\<forall>p \<in> P. b_blockno (kb_buf s p) \<noteq> log_block (kl_log s) i" and room: "card P < NBUF"
    and ne: "log_block (kl_log s) i \<noteq> home_block (kl_log s) i"
  defines "hb \<equiv> home_block (kl_log s) i" and "d \<equiv> view s (log_block (kl_log s) i)"
  shows "\<exists>t Q. install_one recovering i s = Ret () t \<and> bc_inv {} Q t \<and> Q = {p \<in> P. b_blockno (kb_buf s p) \<noteq> hb} \<and>
    view t = (view s)(hb := d) \<and> kb_disk t = (kb_disk s)(hb := d) \<and>
    kb_writes t = kb_writes s @ [(hb, d)] \<and> (\<forall>p \<in> P. b_blockno (kb_buf t p) = b_blockno (kb_buf s p)) \<and> bio_step s t"
proof -
  let ?lb = "log_block (kl_log s) i"
  obtain out lsr where s0: "(if recovering
           then kprintk (''recovering tail %d dst %d'' @ [CHR 0x0A]) [KWord (of_nat i), KWord (word_of_int (lh_block (kl_log s) ! i))]
           else kret ()) s = Ret () (s\<lparr>kc_out := out, kc_lsr := lsr\<rparr>)" (is "?print s = Ret () ?sp")
  proof (cases recovering)
    case True
    then show ?thesis
      using that kprintk_state [OF recover_format [of "of_nat i" "word_of_int (lh_block (kl_log s) ! i)"], of s] by auto
  next
    case False
    then show ?thesis using that [of "kc_lsr s" "kc_out s"] by simp
  qed
  have inv0: "bc_inv {} P ?sp" using inv by simp
  obtain b t1 where t1: "bread ROOTDEV ?lb ?sp = Ret b t1" "bc_inv {b} P t1" "b_blockno (kb_buf t1 b) = ?lb" "view t1 = view s"
      "\<forall>p. p \<noteq> b \<longrightarrow> kb_buf t1 p = kb_buf s p" "b \<in> P \<longrightarrow> b_blockno (kb_buf s b) = ?lb"
      "b \<in> P \<or> view s ?lb = kb_disk s ?lb" "kb_disk t1 = kb_disk s" "kb_writes t1 = kb_writes s" "bio_step ?sp t1"
    using bread_ok [OF inv0, of ?lb] room by auto
  have bP: "b \<notin> P" using t1(6) apart by auto
  then have P1: "\<forall>p \<in> P. b_blockno (kb_buf t1 p) = b_blockno (kb_buf s p)" using t1(5) by metis
  have hbne: "\<forall>p \<in> {b}. b_blockno (kb_buf t1 p) \<noteq> hb" using ne t1(3) by (simp add: hb_def)
  obtain j t2 where t2: "bread ROOTDEV hb t1 = Ret j t2" "j \<noteq> b" "bc_inv {j, b} P t2" "view t2 = view s" "b_blockno (kb_buf t2 j) = hb"
      "b_blockno (kb_buf t2 b) = ?lb" "\<forall>p \<in> P. b_blockno (kb_buf t2 p) = b_blockno (kb_buf s p)"
      "kb_disk t2 = kb_disk s" "kb_writes t2 = kb_writes s" "bio_step t1 t2" and jP: "\<not> recovering \<longrightarrow> j \<in> P"
  proof (cases recovering)
    case True
    then have "card ({b} \<union> P) < NBUF" using pins by (simp add: NBUF_def)
    from bread_ok [OF t1(2) hbne disjI2 [OF this]] obtain q u where
      "bread ROOTDEV hb t1 = Ret q u" "q \<notin> {b}" "bc_inv (insert q {b}) P u" "b_blockno (kb_buf u q) = hb" "view u = view t1"
      "\<forall>p. p \<noteq> q \<longrightarrow> kb_buf u p = kb_buf t1 p" "kb_disk u = kb_disk t1" "kb_writes u = kb_writes t1" "bio_step t1 u" by blast
    then show ?thesis using that [of q u] True pins t1 by auto
  next
    case False
    then obtain q where q: "q \<in> P" "b_blockno (kb_buf t1 q) = hb" using pins P1 by (auto simp: hb_def)
    from bread_pinned [OF t1(2) hbne q] show ?thesis using that [of q] q t1 P1 bP by auto
  qed
  have dd: "b_data (kb_buf t2 b) = d" using view_held [OF t2(3), of b] t2(4,6) by (simp add: d_def)
  have len: "length d = BSIZE" unfolding d_def by (rule view_length [OF inv])
  obtain t3 where t3: "kseq (set_data j d) (bwrite j) t2 = Ret () t3" "bc_inv {j, b} P t3" "view t3 = (view s)(hb := d)"
      "kb_disk t3 = (kb_disk s)(hb := d)" "kb_writes t3 = kb_writes s @ [(hb, d)]"
      "\<forall>p. b_blockno (kb_buf t3 p) = b_blockno (kb_buf t2 p)" "bio_step t2 t3"
    using store_block [OF t2(3) _ len, of j] t2 by auto
  obtain t4 where t4: "(if \<not> recovering then bunpin j else kret ()) t3 = Ret () t4" "bc_inv {j, b} (P - {j}) t4" "view t4 = view t3"
      "\<forall>p. b_blockno (kb_buf t4 p) = b_blockno (kb_buf t3 p)" "kb_disk t4 = kb_disk t3" "kb_writes t4 = kb_writes t3" "bio_step t3 t4"
  proof (cases recovering)
    case True
    then show ?thesis using that [of t3] t3(2) pins by simp
  next
    case False
    with bunpin_ok [OF t3(2), of j] jP show ?thesis using that by auto
  qed
  have "view t4 (b_blockno (kb_buf t4 b)) = kb_disk t4 (b_blockno (kb_buf t4 b))"
    using t4 t3 t2(6) t1(7) bP ne by (simp add: hb_def)
  then obtain t5 where t5: "brelse b t4 = Ret () t5" "bc_inv ({j, b} - {b}) (P - {j}) t5" "view t5 = view t4"
      "\<forall>p. b_blockno (kb_buf t5 p) = b_blockno (kb_buf t4 p)" "kb_disk t5 = kb_disk t4" "kb_writes t5 = kb_writes t4" "bio_step t4 t5"
    using brelse_ok [OF t4(2), of b] by auto
  have "view t5 (b_blockno (kb_buf t5 j)) = kb_disk t5 (b_blockno (kb_buf t5 j))"
    using t5 t4 t3 t2(5) by simp
  then obtain t6 where t6: "brelse j t5 = Ret () t6" "bc_inv ({j, b} - {b} - {j}) (P - {j}) t6" "view t6 = view t5"
      "\<forall>p. b_blockno (kb_buf t6 p) = b_blockno (kb_buf t5 p)" "kb_disk t6 = kb_disk t5" "kb_writes t6 = kb_writes t5" "bio_step t5 t6"
    using brelse_ok [OF t5(2), of j] t2(2) by auto
  have empty: "{j, b} - {b} - {j} = {}" by auto
  have inv6: "bc_inv {} (P - {j}) t6" using t6(2) unfolding empty .
  have "install_one recovering i s = Ret () t6"
    using s0 t1(1) t2(1) t3(1) t4(1) t5(1) t6(1) dev dd
    by (auto simp: install_one_def Let_def hb_def kseq_apply elim!: kbind_RetD)
  moreover have "bio_step s t6"
    by (rule bio_step_trans [OF bio_step_trans [OF bio_step_trans [OF bio_step_print t1(10)] bio_step_trans [OF t2(10) t3(7)]]
          bio_step_trans [OF bio_step_trans [OF t4(7) t5(7)] t6(7)]])
  moreover have "P - {j} = {p \<in> P. b_blockno (kb_buf s p) \<noteq> hb}"
  proof -
    have "p = j" if "p \<in> P" "b_blockno (kb_buf s p) = hb" for p
    proof -
      have pN: "p < NBUF" "j < NBUF" using that(1) bc_invD(2,3) [OF t2(3)] by auto
      have "b_dev (kb_buf t2 p) = ROOTDEV" "b_dev (kb_buf t2 j) = ROOTDEV"
        using bc_invD(4) [OF t2(3) pN(1)] bc_invD(4) [OF t2(3) pN(2)] that(1) by (auto simp: buf_ok_def Let_def)
      then show ?thesis using one_copyD [OF bc_invD(5) [OF t2(3)] pN] t2(5,7) that by simp
    qed
    moreover have "j \<in> P \<Longrightarrow> b_blockno (kb_buf s j) = hb" using t2(5,7) by simp
    ultimately show ?thesis by auto
  qed
  ultimately show ?thesis
    using inv6 t6(3-6) t5(3-6) t4(3-6) t3(3-6) t2(7) by auto
qed

section \<open>The layout of the log\<close>

definition apply_writes :: "(u32 \<times> u8 list) list \<Rightarrow> (u32 \<Rightarrow> u8 list) \<Rightarrow> u32 \<Rightarrow> u8 list" where
  "apply_writes W D = fold (\<lambda>(n, d) D. D(n := d)) W D"

lemma apply_writes_simps [simp]:
  "apply_writes [] D = D" "apply_writes ((n, d) # W) D = apply_writes W (D(n := d))"
  "apply_writes (V @ W) D = apply_writes W (apply_writes V D)"
  by (simp_all add: apply_writes_def)

lemma apply_writes_out: "n \<notin> fst ` set W \<Longrightarrow> apply_writes W D n = D n"
  by (induction W arbitrary: D) auto

lemma apply_writes_in:
  assumes "i < length W" and "distinct (map fst W)"
  shows "apply_writes W D (fst (W ! i)) = snd (W ! i)"
  using assms
proof (induction W arbitrary: D i)
  case (Cons w W)
  obtain n d where w: "w = (n, d)" by (cases w)
  show ?case
  proof (cases i)
    case 0
    with Cons.prems w apply_writes_out [of n W] show ?thesis by simp
  next
    case (Suc k)
    with Cons w show ?thesis by simp
  qed
qed simp

definition log_layout :: "log \<Rightarrow> bool" where
  "log_layout l \<longleftrightarrow> lg_dev l = ROOTDEV \<and> 0 \<le> lg_start l \<and> lg_start l + int LOGBLOCKS < 2 ^ 31 \<and>
     length (lh_block l) = LOGBLOCKS \<and> 0 \<le> lh_n l \<and> lh_n l \<le> int LOGBLOCKS"

lemma log_layout_n: "log_layout l \<Longrightarrow> nat (lh_n l) \<le> LOGBLOCKS"
  by (simp add: log_layout_def nat_le_iff)

abbreviation log_header :: "log \<Rightarrow> u32" where
  "log_header l \<equiv> word_of_int (lg_start l)"

text \<open>The blocks that the log itself occupies.\<close>

definition in_log :: "log \<Rightarrow> u32 \<Rightarrow> bool" where
  "in_log l n \<longleftrightarrow> (\<exists>k \<le> LOGBLOCKS. n = word_of_int (lg_start l + int k))"

definition log_entries :: "log \<Rightarrow> bool" where
  "log_entries l \<longleftrightarrow> distinct (map (home_block l) [0..<nat (lh_n l)]) \<and> (\<forall>i < nat (lh_n l). \<not> in_log l (home_block l i))"

lemma small_word_inj:
  assumes "0 \<le> a" and "a < 2 ^ 31" and "0 \<le> b" and "b < 2 ^ 31" and "(word_of_int a :: u32) = word_of_int b"
  shows "a = b"
proof -
  have "uint (word_of_int a :: u32) = a" "uint (word_of_int b :: u32) = b"
    using assms(1-4) by (simp_all add: uint_word_of_int)
  with assms(5) show ?thesis by metis
qed

lemma in_log_blocks:
  assumes "log_layout l"
  shows "in_log l (log_header l)" and "i < LOGBLOCKS \<Longrightarrow> in_log l (log_block l i)"
    and "i < LOGBLOCKS \<Longrightarrow> log_block l i \<noteq> log_header l"
    and "i < LOGBLOCKS \<Longrightarrow> k < LOGBLOCKS \<Longrightarrow> log_block l i = log_block l k \<longleftrightarrow> i = k"
proof -
  show "in_log l (log_header l)" unfolding in_log_def by (rule exI [of _ 0]) simp
  show "in_log l (log_block l i)" if "i < LOGBLOCKS"
    unfolding in_log_def using that by (intro exI [of _ "Suc i"]) (simp add: log_block_def algebra_simps)
  have L: "0 \<le> lg_start l" "lg_start l + int LOGBLOCKS < 2 ^ 31" using assms by (auto simp: log_layout_def)
  show "log_block l i \<noteq> log_header l" if "i < LOGBLOCKS"
    using small_word_inj [of "lg_start l + int i + 1" "lg_start l"] that L by (auto simp: log_block_def)
  show "log_block l i = log_block l k \<longleftrightarrow> i = k" if "i < LOGBLOCKS" "k < LOGBLOCKS"
    using small_word_inj [of "lg_start l + int i + 1" "lg_start l + int k + 1"] that L by (auto simp: log_block_def)
qed

text \<open>The pinned buffers are those of the blocks in the log.\<close>

definition log_pins :: "nat set \<Rightarrow> 'z klog_scheme \<Rightarrow> bool" where
  "log_pins P s \<longleftrightarrow> (\<forall>i < nat (lh_n (kl_log s)). \<exists>j \<in> P. b_blockno (kb_buf s j) = home_block (kl_log s) i) \<and>
     (\<forall>p \<in> P. \<exists>i < nat (lh_n (kl_log s)). b_blockno (kb_buf s p) = home_block (kl_log s) i)"

lemma log_pins_card:
  assumes "bc_inv H P s" and "log_pins P s"
  shows "card P \<le> nat (lh_n (kl_log s))"
proof -
  have "inj_on (\<lambda>p. b_blockno (kb_buf s p)) P"
  proof (rule inj_onI)
    fix p q assume pq: "p \<in> P" "q \<in> P" "b_blockno (kb_buf s p) = b_blockno (kb_buf s q)"
    then have N: "p < NBUF" "q < NBUF" using bc_invD(3) [OF assms(1)] by auto
    have "b_dev (kb_buf s p) = ROOTDEV" "b_dev (kb_buf s q) = ROOTDEV"
      using bc_invD(4) [OF assms(1) N(1)] bc_invD(4) [OF assms(1) N(2)] pq by (auto simp: buf_ok_def Let_def)
    then show "p = q" using one_copyD [OF bc_invD(5) [OF assms(1)] N] pq(3) by simp
  qed
  moreover have "(\<lambda>p. b_blockno (kb_buf s p)) ` P \<subseteq> home_block (kl_log s) ` {..<nat (lh_n (kl_log s))}"
    using assms(2) by (auto simp: log_pins_def)
  ultimately have "card P \<le> card (home_block (kl_log s) ` {..<nat (lh_n (kl_log s))})"
    using card_inj_on_le by blast
  also have "\<dots> \<le> nat (lh_n (kl_log s))" by (metis card_image_le card_lessThan finite_lessThan)
  finally show ?thesis .
qed

lemma log_pins_out:
  assumes "log_pins P s" and "log_entries (kl_log s)" and "p \<in> P"
  shows "\<not> in_log (kl_log s) (b_blockno (kb_buf s p))"
proof -
  obtain i where "i < nat (lh_n (kl_log s))" "b_blockno (kb_buf s p) = home_block (kl_log s) i"
    using assms(1,3) unfolding log_pins_def by blast
  then show ?thesis using assms(2) by (simp add: log_entries_def)
qed

lemma write_log_loop:
  assumes "bc_inv {} P s" and "log_layout (kl_log s)" and "log_entries (kl_log s)" and "log_pins P s" and "card P < NBUF"
    and "\<forall>i \<in> set ts. i < nat (lh_n (kl_log s))"
  defines "W \<equiv> map (\<lambda>i. (log_block (kl_log s) i, view s (home_block (kl_log s) i))) ts"
  shows "\<exists>t. kfor ts write_log_one s = Ret () t \<and> bc_inv {} P t \<and> view t = apply_writes W (view s) \<and>
    kb_disk t = apply_writes W (kb_disk s) \<and> kb_writes t = kb_writes s @ W \<and>
    (\<forall>p \<in> P. b_blockno (kb_buf t p) = b_blockno (kb_buf s p)) \<and> bio_step s t"
  using assms(1-6) unfolding W_def
proof (induction ts arbitrary: s)
  case (Cons i ts)
  let ?l = "kl_log s"
  have i: "i < nat (lh_n ?l)" "i < LOGBLOCKS" using Cons.prems(2,6) by (auto simp: log_layout_def)
  have notin: "\<not> in_log ?l (home_block ?l k)" if "k < nat (lh_n ?l)" for k
    using Cons.prems(3) that by (simp add: log_entries_def)
  obtain j where j: "j \<in> P" "b_blockno (kb_buf s j) = home_block ?l i" using Cons.prems(4) i by (auto simp: log_pins_def)
  have apart: "\<forall>p \<in> P. b_blockno (kb_buf s p) \<noteq> log_block ?l i"
    using log_pins_out [OF Cons.prems(4,3)] in_log_blocks(2) [OF Cons.prems(2) i(2)] by metis
  have dev: "lg_dev ?l = ROOTDEV" using Cons.prems(2) by (simp add: log_layout_def)
  from write_log_one_ok [OF Cons.prems(1) dev j apart Cons.prems(5)] obtain t1 where
    t1: "write_log_one i s = Ret () t1" "bc_inv {} P t1" "view t1 = (view s)(log_block ?l i := view s (home_block ?l i))"
      "kb_disk t1 = (kb_disk s)(log_block ?l i := view s (home_block ?l i))"
      "kb_writes t1 = kb_writes s @ [(log_block ?l i, view s (home_block ?l i))]"
      "\<forall>p \<in> P. b_blockno (kb_buf t1 p) = b_blockno (kb_buf s p)" "bio_step s t1" by blast
  have l1: "kl_log t1 = ?l" by (rule bio_step_log [OF t1(7)])
  have "log_pins P t1" using Cons.prems(4) t1(6) by (simp add: log_pins_def l1)
  from Cons.IH [OF t1(2) _ _ this Cons.prems(5)] Cons.prems(2,3,6) obtain t where
    t: "kfor ts write_log_one t1 = Ret () t" "bc_inv {} P t"
      "view t = apply_writes (map (\<lambda>i. (log_block ?l i, view t1 (home_block ?l i))) ts) (view t1)"
      "kb_disk t = apply_writes (map (\<lambda>i. (log_block ?l i, view t1 (home_block ?l i))) ts) (kb_disk t1)"
      "kb_writes t = kb_writes t1 @ map (\<lambda>i. (log_block ?l i, view t1 (home_block ?l i))) ts"
      "\<forall>p \<in> P. b_blockno (kb_buf t p) = b_blockno (kb_buf t1 p)" "bio_step t1 t"
    by (auto simp: l1)
  have "home_block ?l x \<noteq> log_block ?l i" if "x < nat (lh_n ?l)" for x
    using notin [OF that] in_log_blocks(2) [OF Cons.prems(2) i(2)] by metis
  then have same: "map (\<lambda>i. (log_block ?l i, view t1 (home_block ?l i))) ts = map (\<lambda>i. (log_block ?l i, view s (home_block ?l i))) ts"
    using Cons.prems(6) by (simp add: t1(3))
  show ?case
  proof (intro exI conjI)
    show "kfor (i # ts) write_log_one s = Ret () t" using t1(1) t(1) by (simp add: kseq_apply)
    show "bio_step s t" by (rule bio_step_trans [OF t1(7) t(7)])
    show "bc_inv {} P t" by (rule t(2))
    show "\<forall>p \<in> P. b_blockno (kb_buf t p) = b_blockno (kb_buf s p)" using t(6) t1(6) by simp
  qed (simp_all add: t(3-5) [unfolded same] t1(3-5))
qed auto

lemma install_loop:
  assumes "bc_inv {} P s" and "log_layout (kl_log s)" and "card P < NBUF"
    and "\<forall>i \<in> set ts. i < LOGBLOCKS \<and> \<not> in_log (kl_log s) (home_block (kl_log s) i)"
    and "distinct (map (home_block (kl_log s)) ts)"
    and "if recovering then P = {} else \<forall>i \<in> set ts. \<exists>j \<in> P. b_blockno (kb_buf s j) = home_block (kl_log s) i"
    and "\<forall>p \<in> P. \<not> in_log (kl_log s) (b_blockno (kb_buf s p))"
  defines "W \<equiv> map (\<lambda>i. (home_block (kl_log s) i, view s (log_block (kl_log s) i))) ts"
  shows "\<exists>t. kfor ts (install_one recovering) s = Ret () t \<and>
    bc_inv {} {p \<in> P. \<forall>i \<in> set ts. b_blockno (kb_buf s p) \<noteq> home_block (kl_log s) i} t \<and>
    view t = apply_writes W (view s) \<and> kb_disk t = apply_writes W (kb_disk s) \<and> kb_writes t = kb_writes s @ W \<and> bio_step s t"
  using assms(1-7) unfolding W_def
proof (induction ts arbitrary: s P)
  case (Cons i ts)
  let ?l = "kl_log s" and ?hb = "home_block (kl_log s) i" and ?d = "view s (log_block (kl_log s) i)"
  have i: "i < LOGBLOCKS" and out: "\<not> in_log ?l ?hb" using Cons.prems(4) by auto
  note lb = in_log_blocks(2) [OF Cons.prems(2) i]
  have dev: "lg_dev ?l = ROOTDEV" using Cons.prems(2) by (simp add: log_layout_def)
  have apart: "\<forall>p \<in> P. b_blockno (kb_buf s p) \<noteq> log_block ?l i" using Cons.prems(7) lb by metis
  have ne: "log_block ?l i \<noteq> ?hb" using lb out by metis
  have pin: "if recovering then P = {} else \<exists>j \<in> P. b_blockno (kb_buf s j) = ?hb" using Cons.prems(6) by (auto split: if_splits)
  define Q where "Q = {p \<in> P. b_blockno (kb_buf s p) \<noteq> ?hb}"
  from install_one_ok [OF Cons.prems(1) dev pin apart Cons.prems(3) ne, folded Q_def] obtain t1 where
    t1: "install_one recovering i s = Ret () t1" "bc_inv {} Q t1" "view t1 = (view s)(?hb := ?d)"
      "kb_disk t1 = (kb_disk s)(?hb := ?d)" "kb_writes t1 = kb_writes s @ [(?hb, ?d)]"
      "\<forall>p \<in> P. b_blockno (kb_buf t1 p) = b_blockno (kb_buf s p)" "bio_step s t1" by blast
  have l1: "kl_log t1 = ?l" by (rule bio_step_log [OF t1(7)])
  have QP: "Q \<subseteq> P" by (auto simp: Q_def)
  have "finite P" using bc_invD(3) [OF Cons.prems(1)] by (rule finite_subset) simp
  then have cQ: "card Q < NBUF" using Cons.prems(3) card_mono [OF _ QP] by simp
  have pins: "if recovering then Q = {} else \<forall>k \<in> set ts. \<exists>j \<in> Q. b_blockno (kb_buf t1 j) = home_block ?l k"
  proof (cases recovering)
    case True
    then show ?thesis using Cons.prems(6) by (simp add: Q_def)
  next
    case False
    have "\<exists>j \<in> Q. b_blockno (kb_buf t1 j) = home_block ?l k" if k: "k \<in> set ts" for k
    proof -
      from False Cons.prems(6) k obtain j where j: "j \<in> P" "b_blockno (kb_buf s j) = home_block ?l k" by auto
      moreover have "home_block ?l k \<noteq> ?hb" using Cons.prems(5) k by (auto simp: image_iff)
      ultimately show ?thesis using t1(6) by (auto simp: Q_def)
    qed
    with False show ?thesis by simp
  qed
  have outQ: "\<forall>p \<in> Q. \<not> in_log ?l (b_blockno (kb_buf t1 p))" using Cons.prems(7) QP t1(6) by auto
  from Cons.IH [OF t1(2), unfolded l1, OF Cons.prems(2) cQ _ _ pins outQ] Cons.prems(4,5) obtain t where
    t: "kfor ts (install_one recovering) t1 = Ret () t"
      "bc_inv {} {p \<in> Q. \<forall>i \<in> set ts. b_blockno (kb_buf t1 p) \<noteq> home_block ?l i} t"
      "view t = apply_writes (map (\<lambda>i. (home_block ?l i, view t1 (log_block ?l i))) ts) (view t1)"
      "kb_disk t = apply_writes (map (\<lambda>i. (home_block ?l i, view t1 (log_block ?l i))) ts) (kb_disk t1)"
      "kb_writes t = kb_writes t1 @ map (\<lambda>i. (home_block ?l i, view t1 (log_block ?l i))) ts" "bio_step t1 t"
    by auto
  have "log_block ?l k \<noteq> ?hb" if "k \<in> set ts" for k
    using in_log_blocks(2) [OF Cons.prems(2), of k] that out Cons.prems(4) by fastforce
  then have same: "map (\<lambda>i. (home_block ?l i, view t1 (log_block ?l i))) ts = map (\<lambda>i. (home_block ?l i, view s (log_block ?l i))) ts"
    by (simp add: t1(3))
  have Qs: "{p \<in> Q. \<forall>i \<in> set ts. b_blockno (kb_buf t1 p) \<noteq> home_block ?l i} =
      {p \<in> P. \<forall>i \<in> set (i # ts). b_blockno (kb_buf s p) \<noteq> home_block ?l i}"
    using t1(6) by (auto simp: Q_def)
  show ?case
  proof (intro exI conjI)
    show "kfor (i # ts) (install_one recovering) s = Ret () t" using t1(1) t(1) by (simp add: kseq_apply)
    show "bio_step s t" by (rule bio_step_trans [OF t1(7) t(6)])
    show "bc_inv {} {p \<in> P. \<forall>i \<in> set (i # ts). b_blockno (kb_buf s p) \<noteq> home_block ?l i} t" using t(2) unfolding Qs .
  qed (simp_all add: t(3-5) [unfolded same] t1(3-5))
qed auto

section \<open>The header block\<close>

abbreviation put_blocks :: "int list \<Rightarrow> nat \<Rightarrow> u8 list \<Rightarrow> u8 list" where
  "put_blocks bs m \<equiv> fold (\<lambda>i. put32 (4 + 4 * i) (word_of_int (bs ! i))) [0..<m]"

lemma put_blocks_get:
  assumes "m \<le> LOGBLOCKS" and "length d = BSIZE"
  shows "length (put_blocks bs m d) = BSIZE \<and> get32 0 (put_blocks bs m d) = get32 0 d \<and>
    (\<forall>i < m. get32 (4 + 4 * i) (put_blocks bs m d) = word_of_int (bs ! i))"
  using assms(1)
proof (induction m)
  case (Suc m)
  let ?e = "put_blocks bs m d"
  have IH: "length ?e = BSIZE" "get32 0 ?e = get32 0 d" "\<forall>i < m. get32 (4 + 4 * i) ?e = word_of_int (bs ! i)"
    using Suc by simp_all
  have room: "4 + 4 * m + 4 \<le> BSIZE" using Suc.prems by (simp add: LOGBLOCKS_def MAXOPBLOCKS_def BSIZE_def)
  have "get32 (4 + 4 * i) (put32 (4 + 4 * m) (word_of_int (bs ! m)) ?e) = word_of_int (bs ! i)" if "i < Suc m" for i
  proof (cases "i = m")
    case True
    then show ?thesis using room IH(1) by simp
  next
    case False
    then show ?thesis using that room IH(1,3) by (subst get_put_other(1)) auto
  qed
  moreover have "get32 0 (put32 (4 + 4 * m) (word_of_int (bs ! m)) ?e) = get32 0 d"
    using room IH(1,2) by (subst get_put_other(1)) auto
  ultimately show ?case using room IH(1) by simp
qed (simp add: assms(2))

lemma sint_small: "- (2 ^ 31) \<le> x \<Longrightarrow> x < 2 ^ 31 \<Longrightarrow> sint (word_of_int x :: u32) = x"
  by (simp add: int_word_sint)

lemma header_get:
  assumes "log_layout l" and "length d = BSIZE"
  shows "length (header_data l d) = BSIZE" and "sint (get32 0 (header_data l d)) = lh_n l"
    and "i < nat (lh_n l) \<Longrightarrow> get32 (4 + 4 * i) (header_data l d) = home_block l i"
proof -
  have n: "nat (lh_n l) \<le> LOGBLOCKS" and r: "0 \<le> lh_n l" "lh_n l < 2 ^ 31"
    using assms(1) by (auto simp: log_layout_def LOGBLOCKS_def MAXOPBLOCKS_def)
  have len: "length (put32 0 (word_of_int (lh_n l)) d) = BSIZE" using assms(2) by (simp add: BSIZE_def)
  note p = put_blocks_get [OF n len, of "lh_block l"]
  show "length (header_data l d) = BSIZE" and "i < nat (lh_n l) \<Longrightarrow> get32 (4 + 4 * i) (header_data l d) = home_block l i"
    using p by (simp_all add: header_data_def home_block_def)
  have "get32 0 (put32 0 (word_of_int (lh_n l)) d) = word_of_int (lh_n l)" using assms(2) by (intro get_put_same) (simp add: BSIZE_def)
  then show "sint (get32 0 (header_data l d)) = lh_n l" using p sint_small [of "lh_n l"] r by (simp add: header_data_def)
qed

lemma write_head_ok:
  assumes inv: "bc_inv {} P s" and lay: "log_layout (kl_log s)" and room: "card P < NBUF"
  defines "h \<equiv> log_header (kl_log s)" and "d \<equiv> header_data (kl_log s) (view s (log_header (kl_log s)))"
  shows "\<exists>t. write_head s = Ret () t \<and> bc_inv {} P t \<and> view t = (view s)(h := d) \<and> kb_disk t = (kb_disk s)(h := d) \<and>
    kb_writes t = kb_writes s @ [(h, d)] \<and> ((\<forall>p \<in> P. b_blockno (kb_buf s p) \<noteq> h) \<longrightarrow> (\<forall>p \<in> P. b_blockno (kb_buf t p) = b_blockno (kb_buf s p))) \<and>
    bio_step s t"
proof -
  have dev: "lg_dev (kl_log s) = ROOTDEV" using lay by (simp add: log_layout_def)
  obtain b t1 where t1: "bread ROOTDEV h s = Ret b t1" "bc_inv {b} P t1" "b_blockno (kb_buf t1 b) = h" "b_data (kb_buf t1 b) = view s h"
      "view t1 = view s" "\<forall>p. p \<noteq> b \<longrightarrow> kb_buf t1 p = kb_buf s p" "b \<in> P \<longrightarrow> b_blockno (kb_buf s b) = h"
      "kb_disk t1 = kb_disk s" "kb_writes t1 = kb_writes s" "bio_step s t1"
    using bread_ok [OF inv, of h] room by auto
  have len: "length d = BSIZE" unfolding d_def by (rule header_get(1) [OF lay view_length [OF inv]])
  obtain t2 where t2: "kseq (set_data b d) (bwrite b) t1 = Ret () t2" "bc_inv {b} P t2" "view t2 = (view s)(h := d)"
      "kb_disk t2 = (kb_disk s)(h := d)" "kb_writes t2 = kb_writes s @ [(h, d)]"
      "\<forall>p. b_blockno (kb_buf t2 p) = b_blockno (kb_buf t1 p)" "bio_step t1 t2"
    using store_block [OF t1(2) _ len, of b] t1 by auto
  have "view t2 (b_blockno (kb_buf t2 b)) = kb_disk t2 (b_blockno (kb_buf t2 b))" using t2 t1(3) by simp
  then obtain t3 where t3: "brelse b t2 = Ret () t3" "bc_inv ({b} - {b}) P t3" "view t3 = view t2"
      "\<forall>p. b_blockno (kb_buf t3 p) = b_blockno (kb_buf t2 p)" "kb_disk t3 = kb_disk t2" "kb_writes t3 = kb_writes t2" "bio_step t2 t3"
    using brelse_ok [OF t2(2), of b] by auto
  have "write_head s = Ret () t3"
    using t1(1,4) t2(1) t3(1) dev by (auto simp: write_head_def Let_def h_def d_def kseq_apply elim!: kbind_RetD)
  moreover have "bio_step s t3" by (rule bio_step_trans [OF t1(10) bio_step_trans [OF t2(7) t3(7)]])
  moreover have "\<forall>p \<in> P. b_blockno (kb_buf t3 p) = b_blockno (kb_buf s p)" if "\<forall>p \<in> P. b_blockno (kb_buf s p) \<noteq> h"
  proof -
    have "b \<notin> P" using that t1(7) by auto
    then show ?thesis using t1(6) t2(6) t3(4) by metis
  qed
  ultimately show ?thesis using t3(2-6) t2(3-5) by auto
qed

section \<open>Commit\<close>

definition log_ready :: "nat set \<Rightarrow> 'z klog_scheme \<Rightarrow> bool" where
  "log_ready P s \<longleftrightarrow> bc_inv {} P s \<and> log_layout (kl_log s) \<and> log_entries (kl_log s) \<and> log_pins P s"

text \<open>The disk writes of a commit: the log, the header, the home blocks, and the header again.\<close>

definition log_writes :: "log \<Rightarrow> (u32 \<Rightarrow> u8 list) \<Rightarrow> (u32 \<times> u8 list) list" where
  "log_writes l v = map (\<lambda>i. (log_block l i, v (home_block l i))) [0..<nat (lh_n l)]"

definition home_writes :: "log \<Rightarrow> (u32 \<Rightarrow> u8 list) \<Rightarrow> (u32 \<times> u8 list) list" where
  "home_writes l v = map (\<lambda>i. (home_block l i, v (home_block l i))) [0..<nat (lh_n l)]"

definition commit_writes :: "log \<Rightarrow> (u32 \<Rightarrow> u8 list) \<Rightarrow> (u32 \<times> u8 list) list" where
  "commit_writes l v =
     (let h = log_header l; h1 = header_data l (v h); h2 = header_data (l\<lparr>lh_n := 0\<rparr>) h1
      in log_writes l v @ [(h, h1)] @ home_writes l v @ [(h, h2)])"

lemma log_writes_value:
  assumes "log_layout l"
  shows "i < nat (lh_n l) \<Longrightarrow> apply_writes (log_writes l v) D (log_block l i) = v (home_block l i)"
    and "\<not> in_log l n \<Longrightarrow> apply_writes (log_writes l v) D n = D n"
    and "apply_writes (log_writes l v) D (log_header l) = D (log_header l)"
proof -
  have N: "nat (lh_n l) \<le> LOGBLOCKS" using assms by (rule log_layout_n)
  note B = in_log_blocks [OF assms]
  have "distinct (map fst (log_writes l v))"
    using N B(4) by (auto simp: log_writes_def comp_def distinct_map inj_on_def)
  from apply_writes_in [OF _ this, of i D] show "i < nat (lh_n l) \<Longrightarrow> apply_writes (log_writes l v) D (log_block l i) = v (home_block l i)"
    by (simp add: log_writes_def)
  show "\<not> in_log l n \<Longrightarrow> apply_writes (log_writes l v) D n = D n"
    using N B(2) by (intro apply_writes_out) (auto simp: log_writes_def)
  show "apply_writes (log_writes l v) D (log_header l) = D (log_header l)"
  proof (rule apply_writes_out)
    show "log_header l \<notin> fst ` set (log_writes l v)"
    proof
      assume "log_header l \<in> fst ` set (log_writes l v)"
      then obtain i where "i < nat (lh_n l)" "log_block l i = log_header l" by (auto simp: log_writes_def)
      then show False using N B(3) [of i] by simp
    qed
  qed
qed

lemma home_writes_value:
  assumes "log_entries l"
  shows "i < nat (lh_n l) \<Longrightarrow> apply_writes (home_writes l v) D (home_block l i) = v (home_block l i)"
    and "\<forall>i < nat (lh_n l). home_block l i \<noteq> n \<Longrightarrow> apply_writes (home_writes l v) D n = D n"
    and "in_log l n \<Longrightarrow> apply_writes (home_writes l v) D n = D n"
proof -
  have "map fst (home_writes l v) = map (home_block l) [0..<nat (lh_n l)]" by (simp add: home_writes_def)
  then have "distinct (map fst (home_writes l v))" using assms by (simp add: log_entries_def)
  from apply_writes_in [OF _ this, of i D] show "i < nat (lh_n l) \<Longrightarrow> apply_writes (home_writes l v) D (home_block l i) = v (home_block l i)"
    by (simp add: home_writes_def)
  show out: "\<forall>i < nat (lh_n l). home_block l i \<noteq> n \<Longrightarrow> apply_writes (home_writes l v) D n = D n"
    by (intro apply_writes_out) (auto simp: home_writes_def)
  show "in_log l n \<Longrightarrow> apply_writes (home_writes l v) D n = D n" using assms by (intro out) (auto simp: log_entries_def)
qed

lemma commit_ok:
  assumes ready: "log_ready P s" and n: "0 < lh_n (kl_log s)" "lh_n (kl_log s) < int NBUF"
  shows "\<exists>t. commit s = Ret () t \<and> bc_inv {} {} t \<and> kb_writes t = kb_writes s @ commit_writes (kl_log s) (view s) \<and>
    kb_disk t = apply_writes (commit_writes (kl_log s) (view s)) (kb_disk s) \<and>
    kl_log t = (kl_log s)\<lparr>lh_n := 0\<rparr> \<and> bio_step (s\<lparr>kl_log := (kl_log s)\<lparr>lh_n := 0\<rparr>\<rparr>) t"
proof -
  let ?l = "kl_log s"
  have inv: "bc_inv {} P s" and lay: "log_layout ?l" and ent: "log_entries ?l" and pins: "log_pins P s"
    using ready by (auto simp: log_ready_def)
  have cP: "card P < NBUF" using log_pins_card [OF inv pins] n by simp
  note B = in_log_blocks [OF lay]
  have N: "nat (lh_n ?l) \<le> LOGBLOCKS" using lay by (rule log_layout_n)
  obtain t1 where t1: "write_log s = Ret () t1" "bc_inv {} P t1" "view t1 = apply_writes (log_writes ?l (view s)) (view s)"
      "kb_disk t1 = apply_writes (log_writes ?l (view s)) (kb_disk s)" "kb_writes t1 = kb_writes s @ log_writes ?l (view s)"
      "\<forall>p \<in> P. b_blockno (kb_buf t1 p) = b_blockno (kb_buf s p)" "bio_step s t1"
    using write_log_loop [OF inv lay ent pins cP, of "[0..<nat (lh_n ?l)]"] by (auto simp: write_log_def log_writes_def)
  have l1: "kl_log t1 = ?l" by (rule bio_step_log [OF t1(7)])
  let ?h = "log_header ?l" and ?h1 = "header_data ?l (view s (log_header ?l))"
  have v1: "view t1 ?h = view s ?h" unfolding t1(3) by (rule log_writes_value(3) [OF lay])
  have outP: "\<not> in_log ?l (b_blockno (kb_buf s p))" if "p \<in> P" for p by (rule log_pins_out [OF pins ent that])
  then have hP: "\<forall>p \<in> P. b_blockno (kb_buf t1 p) \<noteq> ?h" using t1(6) B(1) by metis
  obtain t2 where t2: "write_head t1 = Ret () t2" "bc_inv {} P t2" "view t2 = (view t1)(?h := ?h1)" "kb_disk t2 = (kb_disk t1)(?h := ?h1)"
      "kb_writes t2 = kb_writes t1 @ [(?h, ?h1)]" "\<forall>p \<in> P. b_blockno (kb_buf t2 p) = b_blockno (kb_buf s p)" "bio_step t1 t2"
    using write_head_ok [OF t1(2), unfolded l1, OF lay cP] hP t1(6) v1 by auto
  have l2: "kl_log t2 = ?l" using bio_step_log [OF t2(7)] l1 by simp
  have v2: "view t2 (log_block ?l i) = view s (home_block ?l i)" if "i < nat (lh_n ?l)" for i
    using that N B(3) [of i] log_writes_value(1) [OF lay that] by (simp add: t2(3) t1(3))
  then have W: "map (\<lambda>i. (home_block ?l i, view t2 (log_block ?l i))) [0..<nat (lh_n ?l)] = home_writes ?l (view s)"
    by (simp add: home_writes_def)
  have pins2: "\<forall>i \<in> set [0..<nat (lh_n ?l)]. \<exists>j \<in> P. b_blockno (kb_buf t2 j) = home_block ?l i"
    using pins t2(6) by (auto simp: log_pins_def)
  have ent2: "\<forall>i \<in> set [0..<nat (lh_n ?l)]. i < LOGBLOCKS \<and> \<not> in_log ?l (home_block ?l i)"
    "distinct (map (home_block ?l) [0..<nat (lh_n ?l)])" using ent N by (auto simp: log_entries_def)
  have "\<forall>p \<in> P. \<not> in_log ?l (b_blockno (kb_buf t2 p))" using outP t2(6) by simp
  from install_loop [OF t2(2), of "[0..<nat (lh_n ?l)]" False, unfolded l2 W, OF lay cP ent2 _ this] pins2
  obtain t3 where t3: "kfor [0..<nat (lh_n ?l)] (install_one False) t2 = Ret () t3"
      "bc_inv {} {p \<in> P. \<forall>i \<in> set [0..<nat (lh_n ?l)]. b_blockno (kb_buf t2 p) \<noteq> home_block ?l i} t3"
      "view t3 = apply_writes (home_writes ?l (view s)) (view t2)" "kb_disk t3 = apply_writes (home_writes ?l (view s)) (kb_disk t2)"
      "kb_writes t3 = kb_writes t2 @ home_writes ?l (view s)" "bio_step t2 t3" by auto
  have none: "{p \<in> P. \<forall>i \<in> set [0..<nat (lh_n ?l)]. b_blockno (kb_buf t2 p) \<noteq> home_block ?l i} = {}"
    using pins t2(6) by (fastforce simp: log_pins_def)
  have inv3: "bc_inv {} {} t3" using t3(2) unfolding none .
  have l3: "kl_log t3 = ?l" using bio_step_log [OF t3(6)] l2 by simp
  let ?lz = "?l\<lparr>lh_n := 0\<rparr>" and ?s4 = "t3\<lparr>kl_log := (kl_log s)\<lparr>lh_n := 0\<rparr>\<rparr>"
  have lay0: "log_layout (kl_log ?s4)" using lay by (simp add: log_layout_def)
  have v3: "view ?s4 ?h = ?h1" using home_writes_value(3) [OF ent B(1)] by (simp add: t3(3) t2(3))
  have inv4: "bc_inv {} {} ?s4" using inv3 by simp
  obtain t5 where t5: "write_head ?s4 = Ret () t5" "bc_inv {} {} t5" "kb_disk t5 = (kb_disk t3)(?h := header_data ?lz ?h1)"
      "kb_writes t5 = kb_writes t3 @ [(?h, header_data ?lz ?h1)]" "bio_step ?s4 t5"
    using write_head_ok [OF inv4 lay0] v3 by (auto simp: NBUF_def)
  have run: "commit s = Ret () t5"
    using n(1) t1(1) t2(1) t3(1) t5(1) l2 l3 by (simp add: commit_def kseq_apply install_trans_def)
  have "bio_step (s\<lparr>kl_log := ?lz\<rparr>) ?s4"
  proof -
    have "bio_step s t3" by (rule bio_step_trans [OF t1(7) bio_step_trans [OF t2(7) t3(6)]])
    then show ?thesis by (rule bio_step_upd_log)
  qed
  from bio_step_trans [OF this t5(5)] have "bio_step (s\<lparr>kl_log := ?lz\<rparr>) t5" .
  moreover have "kl_log t5 = ?lz" using bio_step_log [OF t5(5)] by simp
  moreover have "kb_writes t5 = kb_writes s @ commit_writes ?l (view s)"
    "kb_disk t5 = apply_writes (commit_writes ?l (view s)) (kb_disk s)"
    by (simp_all add: t5(3,4) t3(4,5) t2(4,5) t1(4,5) commit_writes_def Let_def)
  ultimately show ?thesis using run t5(2) by blast
qed

section \<open>Recovery\<close>

text \<open>The in-memory log after the header block \<open>d\<close> has been read.\<close>

definition loaded :: "log \<Rightarrow> int \<Rightarrow> u8 list \<Rightarrow> log" where
  "loaded l start d = (let n = sint (get32 0 d) in
     l\<lparr>lg_start := start, lg_dev := ROOTDEV, lh_n := n,
       lh_block := map (\<lambda>i. sint (get32 (4 + 4 * i) d)) [0..<nat n] @ drop (nat n) (lh_block l)\<rparr>)"

lemma loaded_simps [simp]:
  "lg_start (loaded l start d) = start" "lg_dev (loaded l start d) = ROOTDEV" "lh_n (loaded l start d) = sint (get32 0 d)"
  "i < nat (sint (get32 0 d)) \<Longrightarrow> home_block (loaded l start d) i = get32 (4 + 4 * i) d"
  by (simp_all add: loaded_def Let_def home_block_def nth_append)

lemma sint_log_start:
  "0 \<le> start \<Longrightarrow> start + int LOGBLOCKS < 2 ^ 31 \<Longrightarrow> sint (word_of_int start :: u32) = start"
  by (rule sint_small) simp_all

lemma recover_ok:
  assumes inv: "bc_inv {} {} r" and st: "0 \<le> start" "start + int LOGBLOCKS < 2 ^ 31"
    and len: "length (lh_block (kl_log r)) = LOGBLOCKS"
    and n: "0 \<le> sint (get32 0 (view r (word_of_int start)))" "sint (get32 0 (view r (word_of_int start))) \<le> int LOGBLOCKS"
    and ent: "log_entries (loaded (kl_log r) start (view r (word_of_int start)))"
  defines "l \<equiv> loaded (kl_log r) start (view r (word_of_int start))"
  shows "\<exists>u d. initlog ROOTDEV (word_of_int start) r = Ret () u \<and> bc_inv {} {} u \<and> length d = BSIZE \<and> sint (get32 0 d) = 0 \<and>
    kb_disk u = (apply_writes (map (\<lambda>i. (home_block l i, view r (log_block l i))) [0..<nat (lh_n l)]) (kb_disk r))(word_of_int start := d)"
proof -
  let ?h = "word_of_int start :: u32" and ?N = "nat (lh_n l)"
  let ?ra = "r\<lparr>kl_log := (kl_log r)\<lparr>lg_start := start, lg_dev := ROOTDEV\<rparr>\<rparr>"
  have lay: "log_layout l" using st len n by (simp add: log_layout_def l_def) (simp add: loaded_def Let_def)
  have inva: "bc_inv {} {} ?ra" using inv by simp
  obtain t1 where t1: "bread_data ROOTDEV ?h ?ra = Ret (view r ?h) t1" "bc_inv {} {} t1" "view t1 = view r" "kb_disk t1 = kb_disk r" "bio_step ?ra t1"
    using bread_data_ok [OF inva, of ?h] by (auto simp: NBUF_def)
  have la: "kl_log t1 = (kl_log r)\<lparr>lg_start := start, lg_dev := ROOTDEV\<rparr>" using bio_step_log [OF t1(5)] by simp
  let ?t2 = "t1\<lparr>kl_log := l\<rparr>"
  have "nat (sint (get32 0 (view r ?h))) \<le> LOGBLOCKS" using n by (simp add: nat_le_iff)
  then have head: "read_head ?ra = Ret () ?t2"
    using t1(1) la by (simp add: read_head_def Let_def l_def loaded_def)
  have inv2: "bc_inv {} {} ?t2" using t1(2) by simp
  have N: "?N \<le> LOGBLOCKS" by (rule log_layout_n [OF lay])
  have ent2: "\<forall>i \<in> set [0..<?N]. i < LOGBLOCKS \<and> \<not> in_log l (home_block l i)" "distinct (map (home_block l) [0..<?N])"
    using ent N by (auto simp: log_entries_def l_def)
  obtain t3 where t3: "kfor [0..<?N] (install_one True) ?t2 = Ret () t3" "bc_inv {} {} t3"
      "view t3 = apply_writes (map (\<lambda>i. (home_block l i, view r (log_block l i))) [0..<?N]) (view r)"
      "kb_disk t3 = apply_writes (map (\<lambda>i. (home_block l i, view r (log_block l i))) [0..<?N]) (kb_disk r)" "bio_step ?t2 t3"
    using install_loop [OF inv2, of "[0..<?N]" True] lay ent2 t1(3,4) by (auto simp: NBUF_def)
  have l3: "kl_log t3 = l" using bio_step_log [OF t3(5)] by simp
  let ?s4 = "t3\<lparr>kl_log := l\<lparr>lh_n := 0\<rparr>\<rparr>"
  have lay0: "log_layout (kl_log ?s4)" using lay by (simp add: log_layout_def)
  have inv4: "bc_inv {} {} ?s4" using t3(2) by simp
  have lh: "log_header (kl_log ?s4) = ?h" by (simp add: l_def)
  define d where "d = header_data (kl_log ?s4) (view ?s4 ?h)"
  obtain u where u: "write_head ?s4 = Ret () u" "bc_inv {} {} u" "kb_disk u = (kb_disk t3)(?h := d)"
    using write_head_ok [OF inv4 lay0, unfolded lh] by (auto simp: NBUF_def d_def)
  have "length d = BSIZE" "sint (get32 0 d) = 0"
    using header_get(1,2) [OF lay0 view_length [OF inv4, of ?h]] by (simp_all add: d_def)
  moreover have "initlog ROOTDEV ?h r = Ret () u"
    using head t3(1) u(1) l3 sint_log_start [OF st]
    by (simp add: initlog_def recover_from_log_def install_trans_def kseq_apply LOGBLOCKS_def MAXOPBLOCKS_def BSIZE_def)
  ultimately show ?thesis using u(2,3) t3(4) by auto
qed

text \<open>The machine after a restart with disk contents \<open>D\<close>.\<close>

definition rebooted :: "(u32 \<Rightarrow> u8 list) \<Rightarrow> 'z klog_scheme \<Rightarrow> bool" where
  "rebooted D r \<longleftrightarrow> kb_buf r = binit (\<lambda>_. zero_buf) \<and> kb_disk r = D \<and> kp_me r < length (kp_procs r) \<and>
     length (lh_block (kl_log r)) = LOGBLOCKS"

text \<open>What recovery leaves outside the log is \<open>E\<close>, and the log is empty.\<close>

definition recovers :: "log \<Rightarrow> (u32 \<Rightarrow> u8 list) \<Rightarrow> 'z klog_scheme \<Rightarrow> bool" where
  "recovers l E r \<longleftrightarrow> (\<exists>u. initlog ROOTDEV (log_header l) r = Ret () u \<and> (\<forall>n. \<not> in_log l n \<longrightarrow> kb_disk u n = E n) \<and>
     sint (get32 0 (kb_disk u (log_header l))) = 0)"

lemma apply_writes_take_out:
  "n \<notin> fst ` set W \<Longrightarrow> apply_writes (take k W) D n = D n"
  by (intro apply_writes_out) (auto dest: in_set_takeD)

lemma recovers_empty:
  assumes lay: "log_layout l" and D: "\<forall>n. length (D n) = BSIZE" and r: "rebooted D r" and h: "sint (get32 0 (D (log_header l))) = 0"
  shows "recovers l D r"
proof -
  have inv: "bc_inv {} {} r" using r D by (intro bc_inv_boot) (auto simp: rebooted_def)
  have v: "view r n = D n" for n using view_clean [OF inv] r by (simp add: rebooted_def)
  have st: "0 \<le> lg_start l" "lg_start l + int LOGBLOCKS < 2 ^ 31" using lay by (auto simp: log_layout_def)
  have "log_entries (loaded (kl_log r) (lg_start l) (view r (log_header l)))" by (simp add: log_entries_def v h)
  from recover_ok [OF inv st _ _ _ this] obtain u d where
    "initlog ROOTDEV (log_header l) r = Ret () u" "sint (get32 0 d) = 0" "kb_disk u = (kb_disk r)(log_header l := d)"
    using r by (auto simp: rebooted_def v h)
  moreover have "\<not> in_log l n \<Longrightarrow> n \<noteq> log_header l" for n using in_log_blocks(1) [OF lay] by auto
  ultimately show ?thesis using r unfolding recovers_def by (intro exI [of _ u]) (auto simp: rebooted_def)
qed

lemma recovers_full:
  assumes lay: "log_layout l" and ent: "log_entries l" and D: "\<forall>n. length (D n) = BSIZE" and r: "rebooted D r"
    and h: "D (log_header l) = header_data l e" and e: "length e = BSIZE"
    and logged: "\<forall>i < nat (lh_n l). D (log_block l i) = v (home_block l i)"
    and rest: "\<forall>n. \<not> in_log l n \<and> (\<forall>i < nat (lh_n l). home_block l i \<noteq> n) \<longrightarrow> D n = v n"
  shows "recovers l v r"
proof -
  have inv: "bc_inv {} {} r" using r D by (intro bc_inv_boot) (auto simp: rebooted_def)
  have vD: "view r n = D n" for n using view_clean [OF inv] r by (simp add: rebooted_def)
  have st: "0 \<le> lg_start l" "lg_start l + int LOGBLOCKS < 2 ^ 31" "0 \<le> lh_n l" "lh_n l \<le> int LOGBLOCKS"
    using lay by (auto simp: log_layout_def)
  let ?m = "loaded (kl_log r) (lg_start l) (view r (log_header l))" and ?N = "nat (lh_n l)"
  have n: "sint (get32 0 (view r (log_header l))) = lh_n l" using header_get(2) [OF lay e] by (simp add: vD h)
  have home: "home_block ?m i = home_block l i" if "i < ?N" for i
    using that n header_get(3) [OF lay e] by (simp add: vD h)
  have blk: "log_block ?m i = log_block l i" and inl: "in_log ?m = in_log l" for i
    by (simp_all add: log_block_def in_log_def fun_eq_iff)
  have homes: "map (home_block ?m) [0..<?N] = map (home_block l) [0..<?N]" using home by simp
  have ent': "log_entries ?m"
    unfolding log_entries_def loaded_simps(3) n homes inl using ent home
    by (simp add: log_entries_def del: loaded_simps(4))
  have W: "map (\<lambda>i. (home_block ?m i, view r (log_block ?m i))) [0..<?N] = home_writes l v"
    unfolding home_writes_def blk using home logged by (simp add: vD del: loaded_simps(4))
  from recover_ok [OF inv st(1,2) _ _ _ ent'] obtain u d where
    u: "initlog ROOTDEV (log_header l) r = Ret () u" "sint (get32 0 d) = 0"
      "kb_disk u = (apply_writes (home_writes l v) D)(log_header l := d)"
    using r n st W by (auto simp: rebooted_def)
  have "kb_disk u k = v k" if k: "\<not> in_log l k" for k
  proof -
    have "k \<noteq> log_header l" using k in_log_blocks(1) [OF lay] by auto
    then have "kb_disk u k = apply_writes (home_writes l v) D k" by (simp add: u(3))
    also have "\<dots> = v k"
    proof (cases "\<exists>i < ?N. home_block l i = k")
      case True
      then show ?thesis using home_writes_value(1) [OF ent] by auto
    next
      case False
      then show ?thesis using home_writes_value(2) [OF ent, of k v D] rest k by auto
    qed
    finally show ?thesis .
  qed
  with u(1,2) show ?thesis unfolding recovers_def by (intro exI [of _ u]) (simp add: u(3))
qed

lemma apply_writes_length:
  "\<forall>n. length (D n) = BSIZE \<Longrightarrow> \<forall>(m, d) \<in> set W. length d = BSIZE \<Longrightarrow> length (apply_writes W D n) = BSIZE"
  by (induction W arbitrary: D) auto

lemma commit_writes_length:
  assumes "bc_inv H P s" and "log_layout l"
  shows "\<forall>(m, d) \<in> set (commit_writes l (view s)). length d = BSIZE"
proof -
  note v = view_length [OF assms(1)]
  have lay0: "log_layout (l\<lparr>lh_n := 0\<rparr>)" using assms(2) by (simp add: log_layout_def)
  show ?thesis
    using header_get(1) [OF assms(2) v] header_get(1) [OF lay0 header_get(1) [OF assms(2) v]] v
    by (auto simp: commit_writes_def Let_def log_writes_def home_writes_def)
qed

lemma view_not_logged:
  assumes "log_ready P s" and "\<forall>i < nat (lh_n (kl_log s)). home_block (kl_log s) i \<noteq> n"
  shows "view s n = kb_disk s n"
proof (rule view_clean)
  show "bc_inv {} P s" using assms(1) by (simp add: log_ready_def)
  show "\<forall>i \<in> {} \<union> P. b_blockno (kb_buf s i) \<noteq> n"
    using assms by (fastforce simp: log_ready_def log_pins_def)
qed

lemma crash_recovers:
  assumes ready: "log_ready P s" and clean: "sint (get32 0 (kb_disk s (log_header (kl_log s)))) = 0"
    and r: "rebooted (apply_writes (take k (commit_writes (kl_log s) (view s))) (kb_disk s)) r"
  shows "recovers (kl_log s) (if k \<le> nat (lh_n (kl_log s)) then kb_disk s else view s) r"
proof -
  let ?l = "kl_log s" and ?N = "nat (lh_n (kl_log s))" and ?v = "view s" and ?D = "kb_disk s"
  have inv: "bc_inv {} P s" and lay: "log_layout ?l" and ent: "log_entries ?l"
    using ready by (auto simp: log_ready_def)
  define h where "h = log_header ?l"
  define f1 where "f1 = header_data ?l (?v h)"
  define f2 where "f2 = header_data (?l\<lparr>lh_n := 0\<rparr>) f1"
  define W where "W = commit_writes ?l ?v"
  define E where "E = apply_writes (take k W) ?D"
  have Weq: "W = log_writes ?l ?v @ (h, f1) # home_writes ?l ?v @ [(h, f2)]"
    by (simp add: W_def commit_writes_def Let_def h_def f1_def f2_def)
  have lens: "length (log_writes ?l ?v) = ?N" "length (home_writes ?l ?v) = ?N" by (simp_all add: log_writes_def home_writes_def)
  have len: "\<forall>n. length (?D n) = BSIZE" using bc_invD(6) [OF inv] by blast
  have "\<forall>(m, d) \<in> set (take k W). length d = BSIZE"
    using commit_writes_length [OF inv lay] unfolding W_def by (auto dest: in_set_takeD)
  then have lenE: "\<forall>n. length (E n) = BSIZE" unfolding E_def using apply_writes_length [OF len] by blast
  have rE: "rebooted E r" using r by (simp add: E_def W_def)
  note B = in_log_blocks [OF lay]
  have N: "?N \<le> LOGBLOCKS" by (rule log_layout_n [OF lay])
  have homes: "fst ` set (home_writes ?l ?v) = home_block ?l ` {..<?N}" by (auto simp: home_writes_def image_image)
  have hout: "n \<notin> fst ` set (home_writes ?l ?v)" if "in_log ?l n" for n
    using that ent by (auto simp: homes log_entries_def)
  have logs: "fst ` set (log_writes ?l ?v) = log_block ?l ` {..<?N}" by (auto simp: log_writes_def image_image)
  have lout: "n \<notin> fst ` set (log_writes ?l ?v)" if "\<not> in_log ?l n" for n
    using that B(2) N by (auto simp: logs)
  have hlog: "h \<notin> fst ` set (log_writes ?l ?v)" using B(3) N unfolding logs h_def by (metis imageE lessThan_iff order_less_le_trans)
  have rest: "?D n = ?v n" if "\<forall>i < ?N. home_block ?l i \<noteq> n" for n using view_not_logged [OF ready that] by simp
  consider (a) "k \<le> ?N" | (b) "?N < k" "k \<le> ?N + 1 + ?N" | (c) "?N + 1 + ?N < k" by linarith
  then show ?thesis
  proof cases
    case a
    then have E: "E = apply_writes (take k (log_writes ?l ?v)) ?D" by (simp add: E_def Weq lens)
    have "E h = ?D h" unfolding E by (rule apply_writes_take_out [OF hlog])
    with clean have "sint (get32 0 (E (log_header ?l))) = 0" by (simp add: h_def)
    from recovers_empty [OF lay lenE rE this] have "recovers ?l E r" .
    moreover have "E n = ?D n" if "\<not> in_log ?l n" for n unfolding E by (rule apply_writes_take_out [OF lout [OF that]])
    ultimately show ?thesis using a by (auto simp: recovers_def)
  next
    case b
    then obtain j where k: "k = ?N + 1 + j" "j \<le> ?N" by (metis le_add_diff_inverse Suc_eq_plus1 Suc_leI add_le_cancel_left)
    let ?D1 = "(apply_writes (log_writes ?l ?v) ?D)(h := f1)"
    have E: "E = apply_writes (take j (home_writes ?l ?v)) ?D1" using k by (simp add: E_def Weq lens)
    have "recovers ?l ?v r"
    proof (rule recovers_full [OF lay ent lenE rE])
      show "E (log_header ?l) = header_data ?l (?v h)"
        using apply_writes_take_out [OF hout [OF B(1)], of j ?D1] by (simp add: E h_def f1_def)
      show "length (?v h) = BSIZE" by (rule view_length [OF inv])
      show "\<forall>i < ?N. E (log_block ?l i) = ?v (home_block ?l i)"
      proof (intro allI impI)
        fix i assume i: "i < ?N"
        have "E (log_block ?l i) = ?D1 (log_block ?l i)"
          unfolding E using i N B(2) by (intro apply_writes_take_out hout) simp
        also have "\<dots> = ?v (home_block ?l i)"
          using i N B(3) log_writes_value(1) [OF lay i] by (simp add: h_def)
        finally show "E (log_block ?l i) = ?v (home_block ?l i)" .
      qed
      show "\<forall>n. \<not> in_log ?l n \<and> (\<forall>i < ?N. home_block ?l i \<noteq> n) \<longrightarrow> E n = ?v n"
      proof (intro allI impI)
        fix n assume n: "\<not> in_log ?l n \<and> (\<forall>i < ?N. home_block ?l i \<noteq> n)"
        have "E n = ?D1 n" unfolding E using n by (intro apply_writes_take_out) (auto simp: homes)
        also have "\<dots> = ?D n" using n B(1) apply_writes_out [OF lout] by (auto simp: h_def)
        finally show "E n = ?v n" using rest n by simp
      qed
    qed
    then show ?thesis using b by simp
  next
    case c
    then have "take k W = W" by (simp add: Weq lens)
    then have E: "E = (apply_writes (home_writes ?l ?v) ((apply_writes (log_writes ?l ?v) ?D)(h := f1)))(h := f2)"
      by (simp add: E_def) (simp add: Weq)
    have lay0: "log_layout (?l\<lparr>lh_n := 0\<rparr>)" using lay by (simp add: log_layout_def)
    have "sint (get32 0 (E (log_header ?l))) = 0"
      using header_get(2) [OF lay0 header_get(1) [OF lay view_length [OF inv]]] by (simp add: E f2_def f1_def h_def)
    from recovers_empty [OF lay lenE rE this] have "recovers ?l E r" .
    moreover have "E n = ?v n" if n: "\<not> in_log ?l n" for n
    proof -
      have "n \<noteq> h" using n B(1) by (auto simp: h_def)
      then have "E n = apply_writes (home_writes ?l ?v) ((apply_writes (log_writes ?l ?v) ?D)(h := f1)) n" by (simp add: E)
      also have "\<dots> = ?v n"
      proof (cases "\<exists>i < ?N. home_block ?l i = n")
        case True
        then show ?thesis using home_writes_value(1) [OF ent] by auto
      next
        case False
        then show ?thesis
          using home_writes_value(2) [OF ent, of n] apply_writes_out [OF lout [OF n]] rest \<open>n \<noteq> h\<close> by auto
      qed
      finally show ?thesis .
    qed
    ultimately show ?thesis using c by (auto simp: recovers_def)
  qed
qed

text \<open>
  C17: transactions are atomic. Take any state in which the log holds a transaction of
  fewer blocks than there are buffers, and the log on disk is empty. \<open>commit\<close> succeeds
  with some sequence of disk writes \<open>W\<close>. If the machine stops after any prefix of these
  writes and restarts, \<open>initlog\<close> recovers, outside the log area, the old contents of
  all blocks if the header had not been written, and the new contents of all blocks if
  it had; without a crash the new contents are on disk.
\<close>

theorem commit_atomic:
  assumes "log_ready P s" and "0 < lh_n (kl_log s)" and "lh_n (kl_log s) < int NBUF"
    and "sint (get32 0 (kb_disk s (log_header (kl_log s)))) = 0"
  shows "\<exists>t W. commit s = Ret () t \<and> kb_writes t = kb_writes s @ W \<and> nat (lh_n (kl_log s)) < length W \<and>
    kb_disk t = apply_writes W (kb_disk s) \<and> (\<forall>n. \<not> in_log (kl_log s) n \<longrightarrow> kb_disk t n = view s n) \<and>
    (\<forall>k r. rebooted (apply_writes (take k W) (kb_disk s)) r \<longrightarrow>
      recovers (kl_log s) (if k \<le> nat (lh_n (kl_log s)) then kb_disk s else view s) r)"
proof -
  let ?W = "commit_writes (kl_log s) (view s)" and ?l = "kl_log s"
  obtain t where t: "commit s = Ret () t" "kb_writes t = kb_writes s @ ?W" "kb_disk t = apply_writes ?W (kb_disk s)"
    using commit_ok [OF assms(1-3)] by blast
  have inv: "bc_inv {} P s" and lay: "log_layout ?l" and ent: "log_entries ?l" using assms(1) by (auto simp: log_ready_def)
  have "kb_disk t n = view s n" if n: "\<not> in_log ?l n" for n
  proof -
    have h: "n \<noteq> log_header ?l" using n in_log_blocks(1) [OF lay] by auto
    show ?thesis
    proof (cases "\<exists>i < nat (lh_n ?l). home_block ?l i = n")
      case True
      then show ?thesis using home_writes_value(1) [OF ent] h by (auto simp: t(3) commit_writes_def Let_def)
    next
      case False
      then show ?thesis
        using home_writes_value(2) [OF ent, of n] log_writes_value(2) [OF lay n] view_not_logged [OF assms(1)] h
        by (simp add: t(3) commit_writes_def Let_def)
    qed
  qed
  moreover have "nat (lh_n ?l) < length ?W" by (simp add: commit_writes_def Let_def log_writes_def)
  ultimately show ?thesis using t crash_recovers [OF assms(1,4)] by blast
qed

section \<open>Updates inside a transaction\<close>

text \<open>The log and the cache while a system call holds the buffers \<open>H\<close>.\<close>

definition log_inv :: "nat set \<Rightarrow> nat set \<Rightarrow> 'z klog_scheme \<Rightarrow> bool" where
  "log_inv H P s \<longleftrightarrow> bc_inv H P s \<and> log_layout (kl_log s) \<and> log_entries (kl_log s) \<and> log_pins P s"

lemma log_inv_ready: "log_inv {} P s \<longleftrightarrow> log_ready P s"
  by (simp add: log_inv_def log_ready_def)

lemma log_invD:
  assumes "log_inv H P s"
  shows "bc_inv H P s" and "log_layout (kl_log s)" and "log_entries (kl_log s)" and "log_pins P s"
  using assms by (auto simp: log_inv_def)

lemma absorb_le: "absorb xs b \<le> length xs"
  by (induction xs) auto

lemma absorb_hit: "absorb xs b < length xs \<Longrightarrow> word_of_int (xs ! absorb xs b) = b"
  by (induction xs) (auto split: if_splits)

lemma absorb_miss: "absorb xs b = length xs \<longleftrightarrow> (\<forall>x \<in> set xs. word_of_int x \<noteq> b)"
  by (induction xs) auto

lemma pinned_unique:
  assumes "bc_inv H P s" and "b \<in> H" and "j \<in> P" and "b_blockno (kb_buf s j) = b_blockno (kb_buf s b)"
  shows "j = b"
proof -
  have N: "j < NBUF" "b < NBUF" using assms(2,3) bc_invD(2,3) [OF assms(1)] by auto
  have "b_dev (kb_buf s j) = ROOTDEV" "b_dev (kb_buf s b) = ROOTDEV"
    using bc_invD(4) [OF assms(1) N(1)] bc_invD(4) [OF assms(1) N(2)] assms(2,3) by (auto simp: buf_ok_def Let_def)
  then show ?thesis using one_copyD [OF bc_invD(5) [OF assms(1)] N] assms(4) by simp
qed

text \<open>A block that is already in the log is absorbed, another one takes the next entry.\<close>

lemma log_write_absorbs:
  assumes inv: "log_inv H P s" and b: "b \<in> H" and n: "lh_n (kl_log s) < int LOGBLOCKS" "1 \<le> lg_outstanding (kl_log s)"
    and i: "i < nat (lh_n (kl_log s))" "home_block (kl_log s) i = b_blockno (kb_buf s b)"
  shows "\<exists>t. log_write b s = Ret () t \<and> log_inv H P t \<and> b \<in> P \<and> lh_n (kl_log t) = lh_n (kl_log s) \<and>
    (\<exists>bl. t = s\<lparr>kl_log := (kl_log s)\<lparr>lh_block := bl\<rparr>\<rparr>)"
proof -
  let ?l = "kl_log s" and ?bn = "b_blockno (kb_buf s b)"
  let ?xs = "take (nat (lh_n ?l)) (lh_block ?l)"
  note D = log_invD [OF inv]
  have len: "length ?xs = nat (lh_n ?l)" "length (lh_block ?l) = LOGBLOCKS"
    using log_layout_n [OF D(2)] D(2) by (auto simp: log_layout_def)
  define k where "k = absorb ?xs ?bn"
  have "\<not> (\<forall>x \<in> set ?xs. word_of_int x \<noteq> ?bn)"
    using i len by (metis home_block_def nth_mem nth_take)
  then have "k \<noteq> length ?xs" unfolding k_def absorb_miss .
  then have k: "k < nat (lh_n ?l)" using absorb_le [of ?xs ?bn] len(1) unfolding k_def by linarith
  have hk: "home_block ?l k = ?bn"
    using absorb_hit [of ?xs ?bn] k len(1) by (simp add: k_def home_block_def)
  let ?m = "?l\<lparr>lh_block := (lh_block ?l)[k := sint ?bn]\<rparr>"
  have home: "home_block ?m j = home_block ?l j" for j
    using hk k len by (cases "j = k") (auto simp: home_block_def nth_list_update)
  then have hm: "home_block ?m = home_block ?l" by blast
  have same: "log_layout ?m" "log_entries ?m" using D(2,3) by (simp_all add: log_layout_def log_entries_def hm in_log_def)
  have run: "log_write b s = Ret () (s\<lparr>kl_log := ?m\<rparr>)"
    using n k by (simp add: log_write_def Let_def k_def [symmetric])
  have "log_inv H P (s\<lparr>kl_log := ?m\<rparr>)"
    using D same by (simp add: log_inv_def log_pins_def hm)
  moreover have "b \<in> P"
  proof -
    obtain j where j: "j \<in> P" "b_blockno (kb_buf s j) = ?bn" using D(4) i by (auto simp: log_pins_def)
    then show ?thesis using pinned_unique [OF D(1) b j] by simp
  qed
  ultimately show ?thesis using run by (intro exI [of _ "s\<lparr>kl_log := ?m\<rparr>"]) auto
qed

text \<open>What a step of a transaction keeps: all but the buffers and the list of logged blocks.\<close>

definition log_step :: "'z klog_scheme \<Rightarrow> 'z klog_scheme \<Rightarrow> bool" where
  "log_step s t \<longleftrightarrow> bio_step s (t\<lparr>kl_log := kl_log s\<rparr>) \<and>
     (\<exists>n bl. kl_log t = (kl_log s)\<lparr>lh_n := n, lh_block := bl\<rparr>)"

lemma log_step_refl [simp]: "log_step s s"
  unfolding log_step_def by (simp, rule exI [of _ "lh_n (kl_log s)"], rule exI [of _ "lh_block (kl_log s)"]) simp

lemma log_step_trans:
  assumes "log_step s t" and "log_step t u"
  shows "log_step s u"
proof -
  have "bio_step (t\<lparr>kl_log := kl_log s\<rparr>) (u\<lparr>kl_log := kl_log s\<rparr>)"
    using bio_step_upd_log [of t "u\<lparr>kl_log := kl_log t\<rparr>" "kl_log s"] assms(2) by (simp add: log_step_def)
  then have "bio_step s (u\<lparr>kl_log := kl_log s\<rparr>)" using assms(1) bio_step_trans by (auto simp: log_step_def)
  moreover obtain n bl n' bl' where "kl_log t = (kl_log s)\<lparr>lh_n := n, lh_block := bl\<rparr>" "kl_log u = (kl_log t)\<lparr>lh_n := n', lh_block := bl'\<rparr>"
    using assms by (auto simp: log_step_def)
  then have "kl_log u = (kl_log s)\<lparr>lh_n := n', lh_block := bl'\<rparr>" by simp
  ultimately show ?thesis unfolding log_step_def by blast
qed

lemma bio_log_step:
  assumes "bio_step s t"
  shows "log_step s t"
proof -
  have l: "kl_log t = kl_log s" using assms by (rule bio_step_log)
  have t: "t\<lparr>kl_log := kl_log s\<rparr> = t" unfolding l [symmetric] by simp
  show ?thesis unfolding log_step_def t
    by (intro conjI assms exI [of _ "lh_n (kl_log s)"] exI [of _ "lh_block (kl_log s)"]) (simp add: l)
qed

lemma log_step_log:
  assumes "log_step s t"
  shows "lg_start (kl_log t) = lg_start (kl_log s)" and "lg_outstanding (kl_log t) = lg_outstanding (kl_log s)"
    and "in_log (kl_log t) = in_log (kl_log s)" and "lg_committing (kl_log t) = lg_committing (kl_log s)"
  using assms by (auto simp: log_step_def in_log_def fun_eq_iff)

lemma log_write_new:
  assumes inv: "log_inv H P s" and b: "b \<in> H" and n: "lh_n (kl_log s) < int LOGBLOCKS" "1 \<le> lg_outstanding (kl_log s)"
    and new: "\<forall>i < nat (lh_n (kl_log s)). home_block (kl_log s) i \<noteq> b_blockno (kb_buf s b)"
    and out: "\<not> in_log (kl_log s) (b_blockno (kb_buf s b))"
  shows "\<exists>t. log_write b s = Ret () t \<and> log_inv H (insert b P) t \<and> view t = view s \<and> kb_disk t = kb_disk s \<and>
    lh_n (kl_log t) = lh_n (kl_log s) + 1 \<and> (\<forall>i. b_blockno (kb_buf t i) = b_blockno (kb_buf s i)) \<and>
    log_step s t"
proof -
  let ?l = "kl_log s" and ?bn = "b_blockno (kb_buf s b)" and ?N = "nat (lh_n (kl_log s))"
  let ?xs = "take (nat (lh_n ?l)) (lh_block ?l)"
  note D = log_invD [OF inv]
  have len: "length ?xs = ?N" "length (lh_block ?l) = LOGBLOCKS"
    using log_layout_n [OF D(2)] D(2) by (auto simp: log_layout_def)
  have "\<forall>x \<in> set ?xs. word_of_int x \<noteq> ?bn"
  proof
    fix x assume "x \<in> set ?xs"
    then obtain i where "i < ?N" "x = lh_block ?l ! i" using len by (auto simp: in_set_conv_nth)
    then show "word_of_int x \<noteq> ?bn" using new by (simp add: home_block_def)
  qed
  then have k: "absorb ?xs ?bn = ?N" using absorb_miss [of ?xs ?bn] len(1) by simp
  have bP: "b \<notin> P" using D(4) new by (force simp: log_pins_def)
  let ?m = "?l\<lparr>lh_block := (lh_block ?l)[?N := sint ?bn]\<rparr>"
  obtain u where u: "bpin b (s\<lparr>kl_log := ?m\<rparr>) = Ret () u" "bc_inv H (insert b P) u" "view u = view s"
      "\<forall>i. b_blockno (kb_buf u i) = b_blockno (kb_buf s i)" "kb_disk u = kb_disk s" "bio_step (s\<lparr>kl_log := ?m\<rparr>) u"
    using bpin_ok [of H P "s\<lparr>kl_log := ?m\<rparr>" b] D(1) b bP by auto
  have lu: "kl_log u = ?m" using bio_step_log [OF u(6)] by simp
  let ?q = "?m\<lparr>lh_n := lh_n ?l + 1\<rparr>" and ?t = "u\<lparr>kl_log := (kl_log s)\<lparr>lh_block := (lh_block (kl_log s))[nat (lh_n (kl_log s)) := sint (b_blockno (kb_buf s b))], lh_n := lh_n (kl_log s) + 1\<rparr>\<rparr>"
  have run: "log_write b s = Ret () ?t"
    using n u(1) lu by (simp add: log_write_def Let_def k kseq_apply)
  have n0: "0 \<le> lh_n ?l" using D(2) by (simp add: log_layout_def)
  have NL: "?N < LOGBLOCKS" using n n0 by linarith
  have N1: "nat (lh_n ?l + 1) = Suc ?N" using n0 by (simp add: nat_add_distrib)
  have home: "home_block ?q i = (if i = ?N then ?bn else home_block ?l i)" for i
    using len NL by (simp add: home_block_def nth_list_update)
  have inl: "in_log ?q = in_log ?l" by (simp add: in_log_def fun_eq_iff)
  have "log_layout ?q" using D(2) n by (simp add: log_layout_def)
  moreover have "log_entries ?q"
  proof -
    have eq: "map (home_block ?q) [0..<Suc ?N] = map (home_block ?l) [0..<?N] @ [?bn]" using home by simp
    have "distinct (map (home_block ?q) [0..<Suc ?N])"
      unfolding eq using D(3) new by (auto simp: log_entries_def)
    then show ?thesis using D(3) out by (simp add: log_entries_def N1 home inl less_Suc_eq)
  qed
  moreover have "log_pins (insert b P) ?t"
  proof -
    have 1: "\<exists>j \<in> insert b P. b_blockno (kb_buf s j) = home_block ?q i" if "i < Suc ?N" for i
      using that D(4) by (cases "i = ?N") (auto simp: home log_pins_def)
    have 2: "\<exists>i < Suc ?N. b_blockno (kb_buf s p) = home_block ?q i" if "p \<in> insert b P" for p
    proof (cases "p = b")
      case True
      then show ?thesis using home [of ?N] by (intro exI [of _ ?N]) simp
    next
      case False
      with that obtain i where "i < ?N" "b_blockno (kb_buf s p) = home_block ?l i" using D(4) by (auto simp: log_pins_def)
      then show ?thesis using home [of i] by (intro exI [of _ i]) simp
    qed
    have q: "kl_log ?t = ?q" by simp
    show ?thesis unfolding log_pins_def q using 1 2 by (simp add: u(4) N1)
  qed
  ultimately have "log_inv H (insert b P) ?t" using u(2) by (simp add: log_inv_def)
  moreover have "log_step s ?t"
    unfolding log_step_def using bio_step_upd_log [OF u(6), of ?l] by (intro conjI exI [of _ "lh_n ?l + 1"] exI [of _ "(lh_block ?l)[?N := sint ?bn]"]) simp_all
  ultimately show ?thesis using run u(3-5) by (intro exI [of _ ?t]) simp
qed

text \<open>The blocks of the transaction; as their buffers are pinned, there is one buffer for each.\<close>

definition logged :: "'z klog_scheme \<Rightarrow> u32 set" where
  "logged s = home_block (kl_log s) ` {0..<nat (lh_n (kl_log s))}"

lemma logged_pins: "log_inv H P s \<Longrightarrow> logged s = (\<lambda>i. b_blockno (kb_buf s i)) ` P"
  unfolding logged_def log_inv_def log_pins_def by force

lemma logged_card: "log_inv H P s \<Longrightarrow> card (logged s) = nat (lh_n (kl_log s))"
  unfolding logged_def log_inv_def log_entries_def by (simp add: card_image distinct_map)

text \<open>Reading, changing, logging and releasing a block inside a transaction.\<close>

definition can_log :: "nat \<Rightarrow> 'z klog_scheme \<Rightarrow> bool" where
  "can_log k s \<longleftrightarrow> 1 \<le> lg_outstanding (kl_log s) \<and> lh_n (kl_log s) + int k \<le> int LOGBLOCKS"

lemma log_bread_ok:
  assumes inv: "log_inv H P s" and "\<forall>i \<in> H. b_blockno (kb_buf s i) \<noteq> n"
    and "(\<exists>i \<in> P. b_blockno (kb_buf s i) = n) \<or> card (H \<union> P) < NBUF"
  shows "\<exists>b t. bread ROOTDEV n s = Ret b t \<and> b \<notin> H \<and> b < NBUF \<and> log_inv (insert b H) P t \<and> b_blockno (kb_buf t b) = n \<and>
    b_data (kb_buf t b) = view s n \<and> view t = view s \<and> (\<forall>i. i \<noteq> b \<longrightarrow> kb_buf t i = kb_buf s i) \<and>
    (\<forall>i \<in> P. b_blockno (kb_buf t i) = b_blockno (kb_buf s i)) \<and>
    (b \<in> P \<or> view s n = kb_disk s n) \<and> kb_disk t = kb_disk s \<and> bio_step s t"
proof -
  note D = log_invD [OF inv]
  from bread_ok [OF D(1) assms(2,3)] obtain b t where
    b: "bread ROOTDEV n s = Ret b t" "b \<notin> H" "b < NBUF" "bc_inv (insert b H) P t" "b_blockno (kb_buf t b) = n"
      "b_data (kb_buf t b) = view s n" "view t = view s" "\<forall>i. i \<noteq> b \<longrightarrow> kb_buf t i = kb_buf s i"
      "b \<in> P \<longrightarrow> b_blockno (kb_buf s b) = n" "b \<in> P \<or> view s n = kb_disk s n" "kb_disk t = kb_disk s" "bio_step s t" by blast
  have bn: "b_blockno (kb_buf t i) = b_blockno (kb_buf s i)" if "i \<in> P" for i
    using that b(5,8,9) by (cases "i = b") auto
  have "log_inv (insert b H) P t"
    using D(2-4) b(4) bn by (simp add: log_inv_def bio_step_log [OF b(12)] log_pins_def)
  with b bn show ?thesis by (intro exI [of _ b] exI [of _ t] conjI ballI)
qed

lemma log_brelse_ok:
  assumes inv: "log_inv H P s" and b: "b \<in> H" and clean: "b \<in> P \<or> b_data (kb_buf s b) = kb_disk s (b_blockno (kb_buf s b))"
  shows "\<exists>t. brelse b s = Ret () t \<and> log_inv (H - {b}) P t \<and> view t = view s \<and>
    (\<forall>i. b_blockno (kb_buf t i) = b_blockno (kb_buf s i) \<and> b_data (kb_buf t i) = b_data (kb_buf s i)) \<and>
    kb_disk t = kb_disk s \<and> bio_step s t"
proof -
  note D = log_invD [OF inv]
  have "b \<in> P \<or> view s (b_blockno (kb_buf s b)) = kb_disk s (b_blockno (kb_buf s b))"
    using clean view_held [OF D(1) b] by simp
  from brelse_ok [OF D(1) b this] obtain t where
    t: "brelse b s = Ret () t" "bc_inv (H - {b}) P t" "view t = view s"
      "\<forall>i. b_blockno (kb_buf t i) = b_blockno (kb_buf s i) \<and> b_data (kb_buf t i) = b_data (kb_buf s i) \<and> b_dev (kb_buf t i) = b_dev (kb_buf s i)"
      "kb_disk t = kb_disk s" "bio_step s t" by blast
  have "log_inv (H - {b}) P t" using D(2-4) t(2,4) by (simp add: log_inv_def bio_step_log [OF t(6)] log_pins_def)
  with t show ?thesis by blast
qed

lemma log_set_data_ok:
  assumes inv: "log_inv H P s" and b: "b \<in> H" and d: "length d = BSIZE"
  defines "t \<equiv> s\<lparr>kb_buf := (kb_buf s)(b := (kb_buf s b)\<lparr>b_data := d\<rparr>)\<rparr>"
  shows "set_data b d s = Ret () t" and "log_inv H P t" and "view t = (view s)(b_blockno (kb_buf s b) := d)" and "bio_step s t"
proof -
  note D = log_invD [OF inv]
  note u = set_data_ok [OF D(1) b d]
  show "set_data b d s = Ret () t" by (simp add: set_data_def t_def)
  have same: "b_blockno (kb_buf t i) = b_blockno (kb_buf s i)" "kl_log t = kl_log s" for i by (simp_all add: t_def)
  show "log_inv H P t" using D(2-4) u(1) [folded t_def] by (simp add: log_inv_def same log_pins_def)
  show "view t = (view s)(b_blockno (kb_buf s b) := d)" "bio_step s t" using u(2,3) by (simp_all add: t_def)
qed

text \<open>Logging a held buffer, whether its block is already in the log or not.\<close>

lemma log_write_ok:
  assumes inv: "log_inv H P s" and b: "b \<in> H" and c: "can_log (Suc k) s" and out: "\<not> in_log (kl_log s) (b_blockno (kb_buf s b))"
  shows "\<exists>t. log_write b s = Ret () t \<and> log_inv H (insert b P) t \<and> view t = view s \<and> kb_disk t = kb_disk s \<and> can_log k t \<and>
    (\<forall>i. b_blockno (kb_buf t i) = b_blockno (kb_buf s i)) \<and> log_step s t"
proof (cases "\<exists>i < nat (lh_n (kl_log s)). home_block (kl_log s) i = b_blockno (kb_buf s b)")
  case True
  then obtain i where i: "i < nat (lh_n (kl_log s))" "home_block (kl_log s) i = b_blockno (kb_buf s b)" by blast
  have n: "lh_n (kl_log s) < int LOGBLOCKS" "1 \<le> lg_outstanding (kl_log s)" using c by (auto simp: can_log_def)
  from log_write_absorbs [OF inv b n i] obtain t bl where
    t: "log_write b s = Ret () t" "log_inv H P t" "b \<in> P" "lh_n (kl_log t) = lh_n (kl_log s)"
      "t = s\<lparr>kl_log := (kl_log s)\<lparr>lh_block := bl\<rparr>\<rparr>" by blast
  have "log_step s t" unfolding log_step_def t(5) by (simp, rule exI [of _ "lh_n (kl_log s)"], rule exI [of _ bl]) simp
  moreover have "can_log k t" using c by (simp add: can_log_def t(5))
  ultimately show ?thesis using t by (simp add: insert_absorb)
next
  case False
  have n: "lh_n (kl_log s) < int LOGBLOCKS" "1 \<le> lg_outstanding (kl_log s)" using c by (auto simp: can_log_def)
  from False have "\<forall>i < nat (lh_n (kl_log s)). home_block (kl_log s) i \<noteq> b_blockno (kb_buf s b)" by blast
  from log_write_new [OF inv b n this out] obtain t where
    t: "log_write b s = Ret () t" "log_inv H (insert b P) t" "view t = view s" "kb_disk t = kb_disk s"
      "lh_n (kl_log t) = lh_n (kl_log s) + 1" "\<forall>i. b_blockno (kb_buf t i) = b_blockno (kb_buf s i)" "log_step s t" by blast
  have "can_log k t" using c t(5) log_step_log(2) [OF t(7)] by (simp add: can_log_def)
  with t show ?thesis by blast
qed

lemma log_room:
  assumes "log_inv H P s" and "can_log k s" and "card H < k"
  shows "card (H \<union> P) < NBUF"
proof -
  note D = log_invD [OF assms(1)]
  have "card P \<le> nat (lh_n (kl_log s))" using D(1,4) by (rule log_pins_card)
  moreover have "0 \<le> lh_n (kl_log s)" using D(2) by (simp add: log_layout_def)
  moreover have "lh_n (kl_log s) + int k \<le> 30" using assms(2) by (simp add: can_log_def LOGBLOCKS_def MAXOPBLOCKS_def)
  ultimately have "card H + card P < 30" using assms(3) by linarith
  then show ?thesis using card_Un_le [of H P] by (simp add: NBUF_def)
qed

text \<open>The pattern of every update of the file system: read, change, log, release.\<close>

definition log_edit :: "u32 \<Rightarrow> (u8 list \<Rightarrow> u8 list) \<Rightarrow> ('z klog_scheme, unit) kop" where
  "log_edit n f = kbind (bread ROOTDEV n) (\<lambda>b.
     kbind (kget (\<lambda>s. b_data (kb_buf s b))) (\<lambda>d. kseq (set_data b (f d)) (kseq (log_write b) (brelse b))))"

text \<open>The second half of the pattern, from a held clean buffer.\<close>

lemma log_store_ok:
  assumes inv: "log_inv H P s" and b: "b \<in> H" and c: "can_log (Suc k) s" and out: "\<not> in_log (kl_log s) (b_blockno (kb_buf s b))"
    and d: "length d = BSIZE"
  defines "n \<equiv> b_blockno (kb_buf s b)"
  shows "\<exists>t. kseq (set_data b d) (kseq (log_write b) (brelse b)) s = Ret () t \<and> log_inv (H - {b}) (insert b P) t \<and>
    view t = (view s)(n := d) \<and> kb_disk t = kb_disk s \<and> can_log k t \<and>
    (\<forall>i. b_blockno (kb_buf t i) = b_blockno (kb_buf s i)) \<and> log_step s t"
proof -
  let ?u = "s\<lparr>kb_buf := (kb_buf s)(b := (kb_buf s b)\<lparr>b_data := d\<rparr>)\<rparr>"
  note u = log_set_data_ok [OF inv b d]
  have "can_log (Suc k) ?u" "\<not> in_log (kl_log ?u) (b_blockno (kb_buf ?u b))" using c out by (simp_all add: can_log_def)
  from log_write_ok [OF u(2) b this] obtain v where
    v: "log_write b ?u = Ret () v" "log_inv H (insert b P) v" "view v = view ?u" "kb_disk v = kb_disk ?u" "can_log k v"
      "\<forall>i. b_blockno (kb_buf v i) = b_blockno (kb_buf ?u i)" "log_step ?u v" by blast
  have bn: "b_blockno (kb_buf v i) = b_blockno (kb_buf s i)" for i using v(6) by simp
  from log_brelse_ok [OF v(2) b] obtain t where
    t: "brelse b v = Ret () t" "log_inv (H - {b}) (insert b P) t" "view t = view v"
      "\<forall>i. b_blockno (kb_buf t i) = b_blockno (kb_buf v i)" "kb_disk t = kb_disk v" "bio_step v t" by blast
  have "can_log k t" using v(5) by (simp add: can_log_def bio_step_log [OF t(6)])
  moreover have "log_step s t"
    by (rule log_step_trans [OF bio_log_step [OF u(4)] log_step_trans [OF v(7) bio_log_step [OF t(6)]]])
  moreover have "kseq (set_data b d) (kseq (log_write b) (brelse b)) s = Ret () t" using u(1) v(1) t(1) by (simp add: kseq_apply)
  moreover have "view t = (view s)(n := d)" unfolding n_def t(3) v(3) u(3) ..
  moreover have "kb_disk t = kb_disk s" using t(5) v(4) by simp
  moreover have "\<forall>i. b_blockno (kb_buf t i) = b_blockno (kb_buf s i)" using t(4) bn by presburger
  ultimately show ?thesis using t(2) by blast
qed

lemma log_edit_ok:
  assumes inv: "log_inv H P s" and H: "\<forall>i \<in> H. b_blockno (kb_buf s i) \<noteq> n" and c: "can_log (Suc k) s" "card H \<le> k"
    and out: "\<not> in_log (kl_log s) n" and f: "\<And>d. length d = BSIZE \<Longrightarrow> length (f d) = BSIZE"
  shows "\<exists>t P'. log_edit n f s = Ret () t \<and> log_inv H P' t \<and> view t = (view s)(n := f (view s n)) \<and> kb_disk t = kb_disk s \<and>
    can_log k t \<and> logged t = insert n (logged s) \<and> (\<forall>i \<in> H. b_blockno (kb_buf t i) = b_blockno (kb_buf s i)) \<and> log_step s t"
proof -
  have "card (H \<union> P) < NBUF" using log_room [OF inv c(1)] c(2) by simp
  then have room: "(\<exists>i \<in> P. b_blockno (kb_buf s i) = n) \<or> card (H \<union> P) < NBUF" by simp
  from log_bread_ok [OF inv H room] obtain b u where
    u: "bread ROOTDEV n s = Ret b u" "b \<notin> H" "log_inv (insert b H) P u" "b_blockno (kb_buf u b) = n" "b_data (kb_buf u b) = view s n"
      "view u = view s" "\<forall>i. i \<noteq> b \<longrightarrow> kb_buf u i = kb_buf s i" "kb_disk u = kb_disk s" "bio_step s u"
      "\<forall>i \<in> P. b_blockno (kb_buf u i) = b_blockno (kb_buf s i)" by blast
  have lu: "kl_log u = kl_log s" using u(9) by (rule bio_step_log)
  have len: "length (f (view s n)) = BSIZE" using f view_length [OF log_invD(1) [OF inv]] by simp
  have "can_log (Suc k) u" "\<not> in_log (kl_log u) (b_blockno (kb_buf u b))" using c out u(4) by (simp_all add: can_log_def lu)
  from log_store_ok [OF u(3) insertI1 this len] obtain t where
    t: "kseq (set_data b (f (view s n))) (kseq (log_write b) (brelse b)) u = Ret () t" "log_inv (insert b H - {b}) (insert b P) t"
      "view t = (view u)(n := f (view s n))" "kb_disk t = kb_disk u" "can_log k t"
      "\<forall>i. b_blockno (kb_buf t i) = b_blockno (kb_buf u i)" "log_step u t" unfolding u(4) by blast
  have "insert b H - {b} = H" using u(2) by auto
  moreover have "b_blockno (kb_buf t i) = b_blockno (kb_buf s i)" if "i \<in> H" for i
    using that t(6) u(2,7) by (cases "i = b") auto
  moreover have "log_step s t" by (rule log_step_trans [OF bio_log_step [OF u(9)] t(7)])
  moreover have "log_edit n f s = Ret () t" using u(1,5) t(1) by (simp add: log_edit_def)
  moreover have "view t = (view s)(n := f (view s n))" unfolding t(3) u(6) ..
  moreover have "logged t = insert n (logged s)"
    unfolding logged_pins [OF t(2)] logged_pins [OF inv] using t(6) u(4,10) by simp
  ultimately show ?thesis using t(2,4,5) u(8) by (intro exI [of _ t] exI [of _ "insert b P"]) simp
qed

section \<open>A full log\<close>

lemma bread_full:
  assumes inv: "bc_inv {} P s" and full: "card P = NBUF" and n: "\<forall>i \<in> P. b_blockno (kb_buf s i) \<noteq> n"
  shows "bread ROOTDEV n s = Panic ''bget: no buffers''"
proof -
  note D = bc_invD [OF inv]
  have P: "P = {..<NBUF}" using full D(3) by (intro card_subset_eq) simp_all
  obtain xs where xs: "lru (kb_buf s) xs" "set xs = {..<NBUF}" using D(1) by blast
  note fnd = lru_find [OF xs]
  have "find (\<lambda>b. b_dev (kb_buf s b) = ROOTDEV \<and> b_blockno (kb_buf s b) = n) xs = None"
    using n xs(2) by (auto simp: find_None_iff P)
  moreover have "b_refcnt (kb_buf s i) \<noteq> 0" if "i < NBUF" for i
    using D(4) [OF that] that by (simp add: P buf_ok_def Let_def)
  then have "find (\<lambda>b. b_refcnt (kb_buf s b) = 0) (rev xs) = None" using xs(2) by (auto simp: find_None_iff)
  ultimately have "bget ROOTDEV n s = Panic ''bget: no buffers''" using fnd by (simp add: bget_def)
  then show ?thesis by (simp add: bread_def)
qed

lemma commit_full:
  assumes inv: "log_inv {} P s" and full: "lh_n (kl_log s) = int NBUF"
  shows "commit s = Panic ''bget: no buffers''"
proof -
  note D = log_invD [OF inv]
  have "card (logged s) = NBUF" using logged_card [OF inv] full by simp
  then have "NBUF \<le> card P"
    unfolding logged_pins [OF inv] using card_image_le [of P "\<lambda>i. b_blockno (kb_buf s i)"] finite_subset [OF bc_invD(3) [OF D(1)]] by simp
  then have "card P = NBUF" using card_mono [OF _ bc_invD(3) [OF D(1)]] by simp
  moreover have "b_blockno (kb_buf s i) \<noteq> log_block (kl_log s) 0" if i: "i \<in> P" for i
  proof
    assume eq: "b_blockno (kb_buf s i) = log_block (kl_log s) 0"
    obtain j where "j < nat (lh_n (kl_log s))" "b_blockno (kb_buf s i) = home_block (kl_log s) j"
      using D(4) i by (auto simp: log_pins_def)
    then have "\<not> in_log (kl_log s) (log_block (kl_log s) 0)" using D(3) eq by (simp add: log_entries_def)
    moreover have "in_log (kl_log s) (log_block (kl_log s) 0)"
      unfolding in_log_def log_block_def by (rule exI [of _ 1]) (simp add: LOGBLOCKS_def MAXOPBLOCKS_def)
    ultimately show False by simp
  qed
  ultimately have "bread ROOTDEV (log_block (kl_log s) 0) s = Panic ''bget: no buffers''"
    by (intro bread_full [OF D(1)]) auto
  then have "write_log_one 0 s = Panic ''bget: no buffers''" using D(2) by (simp add: write_log_one_def log_layout_def)
  moreover have "[0..<nat (lh_n (kl_log s))] = 0 # [1..<NBUF]" unfolding full by (simp add: NBUF_def upt_conv_Cons)
  ultimately have "write_log s = Panic ''bget: no buffers''" by (simp add: write_log_def kseq_apply)
  then show ?thesis using full by (simp add: commit_def kseq_apply NBUF_def)
qed

lemma log_edits_ok:
  assumes "log_inv {} P s" and "can_log (length ns + k) s" and "\<forall>n \<in> set ns. \<not> in_log (kl_log s) n"
    and "length d = BSIZE"
  shows "\<exists>t P'. kfor ns (\<lambda>n. log_edit n (\<lambda>_. d)) s = Ret () t \<and> log_inv {} P' t \<and> can_log k t \<and>
    logged t = set ns \<union> logged s \<and> log_step s t"
  using assms
proof (induction ns arbitrary: s P)
  case (Cons n ns)
  have c: "can_log (Suc (length ns + k)) s" "\<not> in_log (kl_log s) n" using Cons.prems(2,3) by simp_all
  from log_edit_ok [OF Cons.prems(1) _ c(1) _ c(2), of "\<lambda>_. d"] Cons.prems(4) obtain u Q where
    u: "log_edit n (\<lambda>_. d) s = Ret () u" "log_inv {} Q u" "can_log (length ns + k) u" "logged u = insert n (logged s)" "log_step s u"
    by auto
  have "\<forall>m \<in> set ns. \<not> in_log (kl_log u) m" using Cons.prems(3) log_step_log(3) [OF u(5)] by simp
  from Cons.IH [OF u(2,3) this Cons.prems(4)] obtain t P' where
    t: "kfor ns (\<lambda>n. log_edit n (\<lambda>_. d)) u = Ret () t" "log_inv {} P' t" "can_log k t" "logged t = set ns \<union> logged u" "log_step u t"
    by blast
  show ?case using u t log_step_trans [OF u(5) t(5)] by (intro exI [of _ t] exI [of _ P']) (simp add: kseq_apply)
qed (use log_step_refl in auto)

lemma log_inv_woken:
  "log_inv {} P (s\<lparr>kl_log := (kl_log s)\<lparr>lg_outstanding := k\<rparr>, kp_procs := wakeup c (kp_procs s)\<rparr>) = log_inv {} P s"
  "log_inv {} P (s\<lparr>kl_log := (kl_log s)\<lparr>lg_outstanding := k\<rparr>\<rparr>) = log_inv {} P s"
  "log_inv {} P (s\<lparr>kl_log := (kl_log s)\<lparr>lg_outstanding := k, lg_committing := c'\<rparr>\<rparr>) = log_inv {} P s"
  by (simp_all add: log_inv_def bc_inv_def buf_ok_def Let_def log_layout_def log_entries_def log_pins_def home_block_def [abs_def] in_log_def)

lemma end_op_waits:
  assumes "\<not> lg_committing (kl_log s)" and "1 < lg_outstanding (kl_log s)"
  shows "end_op s = Ret () (s\<lparr>kl_log := (kl_log s)\<lparr>lg_outstanding := lg_outstanding (kl_log s) - 1\<rparr>,
    kp_procs := wakeup (Some AddrLog) (kp_procs s)\<rparr>)"
  using assms by (simp add: end_op_def kseq_apply)

lemma end_op_full:
  assumes "log_inv {} P s" and "lh_n (kl_log s) = int NBUF" and "\<not> lg_committing (kl_log s)" and "lg_outstanding (kl_log s) = 1"
  shows "end_op s = Panic ''bget: no buffers''"
proof -
  let ?u = "s\<lparr>kl_log := (kl_log s)\<lparr>lg_outstanding := 0, lg_committing := True\<rparr>\<rparr>"
  have "commit ?u = Panic ''bget: no buffers''"
    by (rule commit_full [of P]) (use assms in \<open>simp_all add: log_inv_woken\<close>)
  then show ?thesis using assms(3,4) by (simp add: end_op_def kseq_apply)
qed

lemma begin_ops:
  assumes "\<not> lg_committing (kl_log s)" and "lg_outstanding (kl_log s) = 0" and "lh_n (kl_log s) = 0"
  shows "kfor [0, 1, 2::nat] (\<lambda>_. begin_op) s = Ret () (s\<lparr>kl_log := (kl_log s)\<lparr>lg_outstanding := 3\<rparr>\<rparr>)"
  using assms by (simp add: begin_op_def Let_def kseq_apply LOGBLOCKS_def MAXOPBLOCKS_def)

text \<open>
  C29: the log may take more blocks than the cache can commit. Three system calls start
  with an empty log, which \<open>begin_op\<close> admits, and together log \<open>LOGBLOCKS\<close> different
  blocks, as many as the reservation allows. All buffers of the cache are then pinned, and the last
  \<open>end_op\<close> panics in \<open>bget\<close>, because the commit needs a buffer for the first log block.
\<close>

theorem full_log_panics:
  assumes "log_ready {} s" and "lh_n (kl_log s) = 0" and "lg_outstanding (kl_log s) = 0" and "\<not> lg_committing (kl_log s)"
    and "distinct ns" and "length ns = 3 * MAXOPBLOCKS" and "\<forall>n \<in> set ns. \<not> in_log (kl_log s) n" and "length d = BSIZE"
  shows "kseq (kfor [0, 1, 2::nat] (\<lambda>_. begin_op))
    (kseq (kfor ns (\<lambda>n. log_edit n (\<lambda>_. d))) (kfor [0, 1, 2::nat] (\<lambda>_. end_op))) s = Panic ''bget: no buffers''"
proof -
  let ?u = "s\<lparr>kl_log := (kl_log s)\<lparr>lg_outstanding := 3\<rparr>\<rparr>"
  have "log_inv {} {} ?u" unfolding log_inv_woken unfolding log_inv_ready by (rule assms(1))
  moreover have "can_log (length ns + 0) ?u" using assms(2,6) by (simp add: can_log_def LOGBLOCKS_def)
  moreover have "\<forall>n \<in> set ns. \<not> in_log (kl_log ?u) n" using assms(7) by (simp add: in_log_def)
  ultimately obtain t P where t: "kfor ns (\<lambda>n. log_edit n (\<lambda>_. d)) ?u = Ret () t" "log_inv {} P t"
      "logged t = set ns \<union> logged ?u" "log_step ?u t"
    using log_edits_ok [of "{}" ?u ns 0 d] assms(8) by blast
  have "logged t = set ns" using t(3) assms(2) by (simp add: logged_def)
  then have "nat (lh_n (kl_log t)) = NBUF"
    using logged_card [OF t(2)] assms(5,6) by (simp add: distinct_card NBUF_def MAXOPBLOCKS_def)
  then have n: "lh_n (kl_log t) = int NBUF" by (simp add: NBUF_def)
  have l: "lg_outstanding (kl_log t) = 3" "\<not> lg_committing (kl_log t)"
    using log_step_log(2,4) [OF t(4)] assms(4) by simp_all
  let ?l1 = "t\<lparr>kl_log := (kl_log t)\<lparr>lg_outstanding := 2\<rparr>, kp_procs := wakeup (Some AddrLog) (kp_procs t)\<rparr>"
  let ?l2 = "?l1\<lparr>kl_log := (kl_log ?l1)\<lparr>lg_outstanding := 1\<rparr>, kp_procs := wakeup (Some AddrLog) (kp_procs ?l1)\<rparr>"
  have e: "end_op t = Ret () ?l1" "end_op ?l1 = Ret () ?l2" using l by (simp_all add: end_op_waits)
  have "log_inv {} P ?l2" unfolding log_inv_woken by (rule t(2))
  then have "end_op ?l2 = Panic ''bget: no buffers''" by (rule end_op_full) (use n l in simp_all)
  then have "kfor [0, 1, 2::nat] (\<lambda>_. end_op) t = Panic ''bget: no buffers''" using e by (simp add: kseq_apply)
  then show ?thesis using begin_ops [OF assms(4,3,2)] t(1) by (simp add: kseq_apply)
qed

definition demo_klog :: klog where
  "demo_klog = \<lparr>km_mem = demo_user_mem, km_freelist = 0, km_end = 0x80020000,
     kp_procs = [demo_user_proc], kp_nextpid = 4, kp_initproc = Some 0, kp_me = 0,
     kc_out = [], kc_rx = [], kc_lsr = [], kc_txlock = initsleeplock, kc_cons = demo_cons,
     kp_pipes = \<lambda>_. \<lparr>pi_data = demo_ring, pi_nread = -2, pi_nwrite = 0, pi_readopen = True, pi_writeopen = True\<rparr>,
     kb_buf = binit (\<lambda>_. zero_buf), kb_disk = \<lambda>n. replicate BSIZE 0, kb_writes = [],
     kl_log = \<lparr>lg_start = 2, lg_outstanding = 0, lg_committing = False, lg_dev = ROOTDEV, lg_ncommit = 0,
       lh_n = 0, lh_block = replicate LOGBLOCKS 0\<rparr>\<rparr>"

lemma demo_klog_ready: "log_ready {} demo_klog"
  using bc_inv_boot [of demo_klog]
  by (simp add: log_ready_def demo_klog_def log_layout_def log_entries_def log_pins_def LOGBLOCKS_def MAXOPBLOCKS_def)

lemma demo_not_in_log:
  assumes "32 < n" and "n < 1000"
  shows "\<not> in_log (kl_log demo_klog) (word_of_nat n)"
proof
  assume "in_log (kl_log demo_klog) (word_of_nat n)"
  then obtain k where k: "k \<le> 30" "(word_of_nat n :: u32) = word_of_int (2 + int k)"
    by (auto simp: in_log_def demo_klog_def LOGBLOCKS_def MAXOPBLOCKS_def)
  then have "(word_of_int (int n) :: u32) = word_of_int (2 + int k)" by simp
  then have "int n = 2 + int k" using assms k(1) by (intro small_word_inj) simp_all
  then show False using assms k(1) by simp
qed

theorem full_log_panics_witness:
  "kseq (kfor [0, 1, 2::nat] (\<lambda>_. begin_op))
    (kseq (kfor (map word_of_nat [100..<130]) (\<lambda>n. log_edit n (\<lambda>_. replicate BSIZE 1))) (kfor [0, 1, 2::nat] (\<lambda>_. end_op))) demo_klog
    = Panic ''bget: no buffers''"
proof (rule full_log_panics [OF demo_klog_ready])
  have "inj_on (word_of_nat :: nat \<Rightarrow> u32) {100..<130}"
    by (rule inj_onI) (simp add: word_of_nat_eq_iff take_bit_nat_eq_self)
  then show "distinct (map word_of_nat [100..<130] :: u32 list)" by (simp add: distinct_map)
  show "\<forall>n \<in> set (map word_of_nat [100..<130]). \<not> in_log (kl_log demo_klog) n"
  proof
    fix n :: u32 assume "n \<in> set (map word_of_nat [100..<130])"
    then obtain m where "n = word_of_nat m" "100 \<le> m" "m < 130" unfolding set_map set_upt by auto
    then show "\<not> in_log (kl_log demo_klog) n" by (simp add: demo_not_in_log)
  qed
qed (simp_all add: demo_klog_def MAXOPBLOCKS_def)

text \<open>A transaction of one block, for the atomicity of \<open>commit\<close>.\<close>

definition demo_logged :: klog where
  "demo_logged = (case log_edit 40 (\<lambda>_. replicate BSIZE 1) (demo_klog\<lparr>kl_log := (kl_log demo_klog)\<lparr>lg_outstanding := 1\<rparr>\<rparr>)
     of Ret _ t \<Rightarrow> t | _ \<Rightarrow> demo_klog)"

lemma demo_logged_ready:
  "\<exists>P. log_ready P demo_logged \<and> logged demo_logged = {40} \<and> kb_disk demo_logged = (\<lambda>n. replicate BSIZE 0) \<and>
     view demo_logged 40 = replicate BSIZE 1 \<and> in_log (kl_log demo_logged) = in_log (kl_log demo_klog)"
proof -
  let ?u = "demo_klog\<lparr>kl_log := (kl_log demo_klog)\<lparr>lg_outstanding := 1\<rparr>\<rparr>"
  have inv: "log_inv {} {} ?u" unfolding log_inv_woken unfolding log_inv_ready by (rule demo_klog_ready)
  have c: "can_log (Suc 9) ?u" by (simp add: can_log_def demo_klog_def LOGBLOCKS_def MAXOPBLOCKS_def)
  have il: "in_log (kl_log ?u) = in_log (kl_log demo_klog)" by (simp add: in_log_def fun_eq_iff)
  have out: "\<not> in_log (kl_log ?u) 40" unfolding il using demo_not_in_log [of 40] by simp
  have "\<forall>i \<in> {}. b_blockno (kb_buf ?u i) \<noteq> 40" "card ({} :: nat set) \<le> 9" by simp_all
  from log_edit_ok [OF inv this(1) c this(2) out, of "\<lambda>_. replicate BSIZE 1"] obtain t P where
    t: "log_edit 40 (\<lambda>_. replicate BSIZE 1) ?u = Ret () t" "log_inv {} P t" "view t = (view ?u)(40 := replicate BSIZE 1)"
      "kb_disk t = kb_disk ?u" "logged t = insert 40 (logged ?u)" "log_step ?u t" by auto
  have dl: "demo_logged = t" unfolding demo_logged_def t(1) by simp
  have "logged t = {40}" using t(5) by (simp add: logged_def demo_klog_def)
  moreover have "in_log (kl_log t) = in_log (kl_log demo_klog)" using log_step_log(3) [OF t(6)] il by simp
  ultimately show ?thesis
    unfolding dl using t(2,3,4) by (intro exI [of _ P]) (simp add: log_inv_ready [symmetric], simp add: demo_klog_def)
qed

theorem commit_atomic_witness:
  "\<exists>t W. commit demo_logged = Ret () t \<and> kb_disk t = apply_writes W (kb_disk demo_logged) \<and> kb_disk t 40 = replicate BSIZE 1"
proof -
  obtain P where P: "log_ready P demo_logged" "logged demo_logged = {40}" "kb_disk demo_logged = (\<lambda>n. replicate BSIZE 0)"
      "view demo_logged 40 = replicate BSIZE 1" "in_log (kl_log demo_logged) = in_log (kl_log demo_klog)"
    using demo_logged_ready by blast
  have "nat (lh_n (kl_log demo_logged)) = 1" using logged_card [of "{}" P demo_logged] P(1,2) by (simp add: log_inv_ready)
  then have n: "lh_n (kl_log demo_logged) = 1" by simp
  have z: "sint (get32 0 (replicate BSIZE 0)) = 0" by (simp add: get32_def slice_def BSIZE_def numeral_nat)
  have out: "\<not> in_log (kl_log demo_logged) 40" using demo_not_in_log [of 40] P(5) by simp
  obtain t W where "commit demo_logged = Ret () t" "kb_disk t = apply_writes W (kb_disk demo_logged)"
      "\<forall>n. \<not> in_log (kl_log demo_logged) n \<longrightarrow> kb_disk t n = view demo_logged n"
    using commit_atomic [OF P(1)] n z P(3) by (auto simp: NBUF_def)
  then show ?thesis using out P(4) by auto
qed

end
