(* ===== verification/Fs.thy ===== *)
theory Fs
  imports Log
begin

text \<open>
  The lower layers of the file system, \<open>kernel/fs.c\<close> and \<open>kernel/fs.h\<close>: the block
  allocator on the free map, inodes on disk and in the inode table, and the contents of
  files. A C structure inside a block is read and written at its byte offsets. A \<open>short\<close> is a
  16 bit word. The facts about these operations are in the theories \<open>FreeMap\<close>, \<open>Itable\<close> and
  \<open>Content\<close>.
\<close>

section \<open>On-disk format\<close>

definition NINODE :: nat where "NINODE = 50"
definition ROOTINO :: u32 where "ROOTINO = 1"
definition FSMAGIC :: u32 where "FSMAGIC = 0x10203040"
definition NDIRECT :: nat where "NDIRECT = 12"
definition NINDIRECT :: nat where "NINDIRECT = BSIZE div 4"
definition MAXFILE :: nat where "MAXFILE = NDIRECT + NINDIRECT"

definition T_DIR :: u16 where "T_DIR = 1"
definition T_FILE :: u16 where "T_FILE = 2"
definition T_DEVICE :: u16 where "T_DEVICE = 3"

record superblock =
  sb_magic :: u32
  sb_size :: u32
  sb_nblocks :: u32
  sb_ninodes :: u32
  sb_nlog :: u32
  sb_logstart :: u32
  sb_inodestart :: u32
  sb_bmapstart :: u32

definition get_superblock :: "u8 list \<Rightarrow> superblock" where
  "get_superblock d = \<lparr>sb_magic = get32 0 d, sb_size = get32 4 d, sb_nblocks = get32 8 d, sb_ninodes = get32 12 d,
     sb_nlog = get32 16 d, sb_logstart = get32 20 d, sb_inodestart = get32 24 d, sb_bmapstart = get32 28 d\<rparr>"

text \<open>\<open>struct dinode\<close> has 64 bytes: four shorts, the size, and the block addresses at offset 12.\<close>

record dinode =
  di_type :: u16
  di_major :: u16
  di_minor :: u16
  di_nlink :: u16
  di_size :: u32
  di_addrs :: "u32 list"

definition DINODE_SIZE :: nat where "DINODE_SIZE = 64"

definition IPB :: nat where "IPB = BSIZE div DINODE_SIZE"
definition IBLOCK :: "u32 \<Rightarrow> superblock \<Rightarrow> u32" where "IBLOCK i sb = i div of_nat IPB + sb_inodestart sb"
definition BPB :: nat where "BPB = BSIZE * 8"
definition BBLOCK :: "u32 \<Rightarrow> superblock \<Rightarrow> u32" where "BBLOCK b sb = b div of_nat BPB + sb_bmapstart sb"

definition dinode_off :: "u32 \<Rightarrow> nat" where
  "dinode_off inum = DINODE_SIZE * (unat inum mod IPB)"

definition get_dinode :: "nat \<Rightarrow> u8 list \<Rightarrow> dinode" where
  "get_dinode off d = \<lparr>di_type = get16 off d, di_major = get16 (off + 2) d, di_minor = get16 (off + 4) d,
     di_nlink = get16 (off + 6) d, di_size = get32 (off + 8) d,
     di_addrs = map (\<lambda>i. get32 (off + 12 + 4 * i) d) [0..<NDIRECT + 1]\<rparr>"

definition put_dinode :: "nat \<Rightarrow> dinode \<Rightarrow> u8 list \<Rightarrow> u8 list" where
  "put_dinode off di d =
     fold (\<lambda>i. put32 (off + 12 + 4 * i) (di_addrs di ! i)) [0..<NDIRECT + 1]
       (put32 (off + 8) (di_size di) (put16 (off + 6) (di_nlink di) (put16 (off + 4) (di_minor di)
         (put16 (off + 2) (di_major di) (put16 off (di_type di) d)))))"

section \<open>State\<close>

record inode =
  i_dev :: u32
  i_inum :: u32
  i_ref :: int
  i_lock :: sleeplock
  i_valid :: bool
  i_type :: u16
  i_major :: u16
  i_minor :: u16
  i_nlink :: u16
  i_size :: u32
  i_addrs :: "u32 list"

record kfs = klog +
  kf_sb :: superblock
  kf_itable :: "inode list"

definition get_inode :: "nat \<Rightarrow> 'z kfs_scheme \<Rightarrow> inode" where
  "get_inode ip s = kf_itable s ! ip"

definition upd_inode :: "nat \<Rightarrow> (inode \<Rightarrow> inode) \<Rightarrow> ('z kfs_scheme, unit) kop" where
  "upd_inode ip f = kmod (\<lambda>s. s\<lparr>kf_itable := (kf_itable s)[ip := f (kf_itable s ! ip)]\<rparr>)"

section \<open>Blocks\<close>

definition readsb :: "u32 \<Rightarrow> ('z kfs_scheme, unit) kop" where
  "readsb dev = kbind (bread dev 1) (\<lambda>bp.
     kbind (kget (\<lambda>s. b_data (kb_buf s bp))) (\<lambda>d.
       kseq (kmod (\<lambda>s. s\<lparr>kf_sb := get_superblock d\<rparr>)) (brelse bp)))"

definition bzero :: "u32 \<Rightarrow> u32 \<Rightarrow> ('z klog_scheme, unit) kop" where
  "bzero dev bno = kbind (bread dev bno) (\<lambda>bp.
     kseq (set_data bp (replicate BSIZE 0)) (kseq (log_write bp) (brelse bp)))"

definition bit_mask :: "nat \<Rightarrow> u8" where
  "bit_mask bi = push_bit (bi mod 8) 1"

text \<open>The inner loop of \<open>balloc\<close>: the first clear bit, from bit \<open>bi\<close>.\<close>

primrec balloc_scan :: "nat \<Rightarrow> nat \<Rightarrow> nat \<Rightarrow> u8 list \<Rightarrow> nat \<Rightarrow> nat option" where
  "balloc_scan 0 sz b d bi = None"
| "balloc_scan (Suc k) sz b d bi =
     (if bi < BPB \<and> b + bi < sz
      then if d ! (bi div 8) AND bit_mask bi = 0 then Some bi else balloc_scan k sz b d (bi + 1)
      else None)"

primrec balloc_loop :: "nat \<Rightarrow> u32 \<Rightarrow> nat \<Rightarrow> ('z kfs_scheme, u32) kop" where
  "balloc_loop 0 dev b = (\<lambda>s. Fault)"
| "balloc_loop (Suc k) dev b = (\<lambda>s. let sz = unat (sb_size (kf_sb s)) in
     if b < sz
     then kbind (bread dev (BBLOCK (of_nat b) (kf_sb s))) (\<lambda>bp.
       kbind (kget (\<lambda>s. b_data (kb_buf s bp))) (\<lambda>d.
         case balloc_scan BPB sz b d 0 of
           Some bi \<Rightarrow>
             kseq (set_data bp (d[bi div 8 := d ! (bi div 8) OR bit_mask bi]))
               (kseq (log_write bp) (kseq (brelse bp)
                 (kseq (bzero dev (of_nat (b + bi))) (kret (of_nat (b + bi))))))
         | None \<Rightarrow> kseq (brelse bp) (balloc_loop k dev (b + BPB)))) s
     else kseq (kprintk (''balloc: out of blocks'' @ [CHR 0x0A]) []) (kret 0) s)"

text \<open>Every turn covers \<open>BPB\<close> blocks.\<close>

definition balloc :: "u32 \<Rightarrow> ('z kfs_scheme, u32) kop" where
  "balloc dev = (\<lambda>s. balloc_loop (Suc (Suc (unat (sb_size (kf_sb s)) div BPB))) dev 0 s)"

definition bfree :: "u32 \<Rightarrow> u32 \<Rightarrow> ('z kfs_scheme, unit) kop" where
  "bfree dev b = (\<lambda>s. kbind (bread dev (BBLOCK b (kf_sb s))) (\<lambda>bp.
     kbind (kget (\<lambda>s. b_data (kb_buf s bp))) (\<lambda>d.
       let bi = unat b mod BPB in
       if d ! (bi div 8) AND bit_mask bi = 0 then kpanic ''freeing free block''
       else kseq (set_data bp (d[bi div 8 := d ! (bi div 8) AND NOT (bit_mask bi)]))
              (kseq (log_write bp) (brelse bp)))) s)"

section \<open>Inodes\<close>

definition iinit :: "inode list \<Rightarrow> inode list" where
  "iinit tab = map (\<lambda>ip. ip\<lparr>i_lock := initsleeplock\<rparr>) tab"

text \<open>The scan of \<open>iget\<close>: the entry in use for the inode, and the first free entry before it.\<close>

definition iget_hit :: "u32 \<Rightarrow> u32 \<Rightarrow> inode \<Rightarrow> bool" where
  "iget_hit dev inum ip \<longleftrightarrow> i_ref ip > 0 \<and> i_dev ip = dev \<and> i_inum ip = inum"

definition iget :: "u32 \<Rightarrow> u32 \<Rightarrow> ('z kfs_scheme, nat) kop" where
  "iget dev inum = (\<lambda>s.
     case scan_idx (iget_hit dev inum) (kf_itable s) of
       Some ip \<Rightarrow> kseq (upd_inode ip (\<lambda>i. i\<lparr>i_ref := i_ref i + 1\<rparr>)) (kret ip) s
     | None \<Rightarrow>
         (case scan_idx (\<lambda>i. i_ref i = 0) (kf_itable s) of
            None \<Rightarrow> Panic ''iget: no inodes''
          | Some ip \<Rightarrow>
              kseq (upd_inode ip (\<lambda>i. i\<lparr>i_dev := dev, i_inum := inum, i_ref := 1, i_valid := False\<rparr>)) (kret ip) s))"

definition idup :: "nat \<Rightarrow> ('z kfs_scheme, nat) kop" where
  "idup ip = kseq (upd_inode ip (\<lambda>i. i\<lparr>i_ref := i_ref i + 1\<rparr>)) (kret ip)"

primrec ialloc_loop :: "nat \<Rightarrow> u32 \<Rightarrow> u16 \<Rightarrow> u32 \<Rightarrow> ('z kfs_scheme, nat option) kop" where
  "ialloc_loop 0 dev type inum = (\<lambda>s. Fault)"
| "ialloc_loop (Suc k) dev type inum = (\<lambda>s.
     if inum < sb_ninodes (kf_sb s)
     then kbind (bread dev (IBLOCK inum (kf_sb s))) (\<lambda>bp.
       kbind (kget (\<lambda>s. b_data (kb_buf s bp))) (\<lambda>d.
         if get16 (dinode_off inum) d = 0
         then kseq (set_data bp (put16 (dinode_off inum) type (put_at (dinode_off inum) (replicate DINODE_SIZE 0) d)))
                (kseq (log_write bp) (kseq (brelse bp) (kbind (iget dev inum) (\<lambda>ip. kret (Some ip)))))
         else kseq (brelse bp) (ialloc_loop k dev type (inum + 1)))) s
     else kseq (kprintk (''ialloc: no inodes'' @ [CHR 0x0A]) []) (kret None) s)"

definition ialloc :: "u32 \<Rightarrow> u16 \<Rightarrow> ('z kfs_scheme, nat option) kop" where
  "ialloc dev type = (\<lambda>s. ialloc_loop (Suc (unat (sb_ninodes (kf_sb s)))) dev type 1 s)"

definition iupdate :: "nat \<Rightarrow> ('z kfs_scheme, unit) kop" where
  "iupdate ip = (\<lambda>s. let i = get_inode ip s in
     kbind (bread (i_dev i) (IBLOCK (i_inum i) (kf_sb s))) (\<lambda>bp.
       kbind (kget (\<lambda>s. b_data (kb_buf s bp))) (\<lambda>d.
         kseq (set_data bp (put_dinode (dinode_off (i_inum i))
             \<lparr>di_type = i_type i, di_major = i_major i, di_minor = i_minor i, di_nlink = i_nlink i,
              di_size = i_size i, di_addrs = i_addrs i\<rparr> d))
           (kseq (log_write bp) (brelse bp)))) s)"

definition lock_inode :: "nat \<Rightarrow> ('z kfs_scheme, unit) kop" where
  "lock_inode ip = acquiresleep (\<lambda>s. i_lock (get_inode ip s))
     (\<lambda>l s. s\<lparr>kf_itable := (kf_itable s)[ip := (kf_itable s ! ip)\<lparr>i_lock := l\<rparr>]\<rparr>) (AddrInodeLock ip)"

definition unlock_inode :: "nat \<Rightarrow> ('z kfs_scheme, unit) kop" where
  "unlock_inode ip = releasesleep (\<lambda>s. i_lock (get_inode ip s))
     (\<lambda>l s. s\<lparr>kf_itable := (kf_itable s)[ip := (kf_itable s ! ip)\<lparr>i_lock := l\<rparr>]\<rparr>) (AddrInodeLock ip)"

definition load_inode :: "dinode \<Rightarrow> inode \<Rightarrow> inode" where
  "load_inode di i = i\<lparr>i_type := di_type di, i_major := di_major di, i_minor := di_minor di, i_nlink := di_nlink di,
     i_size := di_size di, i_addrs := di_addrs di\<rparr>"

definition ilock :: "nat \<Rightarrow> ('z kfs_scheme, unit) kop" where
  "ilock ip = (\<lambda>s.
     if i_ref (get_inode ip s) < 1 then Panic ''ilock''
     else kseq (lock_inode ip)
       (\<lambda>s. let i = get_inode ip s in
         if \<not> i_valid i
         then kbind (bread (i_dev i) (IBLOCK (i_inum i) (kf_sb s))) (\<lambda>bp.
           kbind (kget (\<lambda>s. get_dinode (dinode_off (i_inum i)) (b_data (kb_buf s bp)))) (\<lambda>di.
             kseq (upd_inode ip (load_inode di))
               (kseq (brelse bp)
                 (kseq (upd_inode ip (\<lambda>i. i\<lparr>i_valid := True\<rparr>))
                   (\<lambda>s. if i_type (get_inode ip s) = 0 then Panic ''ilock: no type'' else Ret () s))))) s
         else Ret () s) s)"

definition iunlock :: "nat \<Rightarrow> ('z kfs_scheme, unit) kop" where
  "iunlock ip = (\<lambda>s.
     if \<not> holdingsleep (\<lambda>s. i_lock (get_inode ip s)) s \<or> i_ref (get_inode ip s) < 1 then Panic ''iunlock''
     else unlock_inode ip s)"

definition ifree :: "u32 \<Rightarrow> u32 \<Rightarrow> ('z kfs_scheme, unit) kop" where
  "ifree dev inum = (\<lambda>s. kbind (bread dev (IBLOCK inum (kf_sb s))) (\<lambda>bp.
     kbind (kget (\<lambda>s. b_data (kb_buf s bp))) (\<lambda>d.
       kseq (set_data bp (put16 (dinode_off inum) 0 d)) (kseq (log_write bp) (brelse bp)))) s)"

section \<open>Inode contents\<close>

definition bmap :: "nat \<Rightarrow> u32 \<Rightarrow> ('z kfs_scheme, u32) kop" where
  "bmap ip bn = (\<lambda>s. let i = get_inode ip s; n = unat bn in
     if n < NDIRECT
     then if i_addrs i ! n = 0
          then kbind (balloc (i_dev i)) (\<lambda>addr.
            if addr = 0 then kret 0
            else kseq (upd_inode ip (\<lambda>i. i\<lparr>i_addrs := (i_addrs i)[n := addr]\<rparr>)) (kret addr)) s
          else Ret (i_addrs i ! n) s
     else let n = n - NDIRECT in
       if n < NINDIRECT
       then kbind
           (if i_addrs i ! NDIRECT = 0
            then kbind (balloc (i_dev i)) (\<lambda>addr.
              if addr = 0 then kret 0
              else kseq (upd_inode ip (\<lambda>i. i\<lparr>i_addrs := (i_addrs i)[NDIRECT := addr]\<rparr>)) (kret addr))
            else kret (i_addrs i ! NDIRECT))
           (\<lambda>ind. if ind = 0 then kret 0
             else kbind (bread (i_dev i) ind) (\<lambda>bp.
               kbind (kget (\<lambda>s. b_data (kb_buf s bp))) (\<lambda>d.
                 if get32 (4 * n) d = 0
                 then kbind (balloc (i_dev i)) (\<lambda>addr.
                   kseq (if addr \<noteq> 0 then kseq (set_data bp (put32 (4 * n) addr d)) (log_write bp) else kret ())
                     (kseq (brelse bp) (kret addr)))
                 else kseq (brelse bp) (kret (get32 (4 * n) d))))) s
       else Panic ''bmap: out of range'')"

definition itrunc_direct :: "nat \<Rightarrow> nat \<Rightarrow> ('z kfs_scheme, unit) kop" where
  "itrunc_direct ip k = (\<lambda>s. let i = get_inode ip s in
     if i_addrs i ! k \<noteq> 0
     then kseq (bfree (i_dev i) (i_addrs i ! k)) (upd_inode ip (\<lambda>i. i\<lparr>i_addrs := (i_addrs i)[k := 0]\<rparr>)) s
     else Ret () s)"

definition itrunc :: "nat \<Rightarrow> ('z kfs_scheme, unit) kop" where
  "itrunc ip = kseq (kfor [0..<NDIRECT] (itrunc_direct ip))
     (kseq (\<lambda>s. let i = get_inode ip s; ind = i_addrs i ! NDIRECT in
        if ind \<noteq> 0
        then kbind (bread (i_dev i) ind) (\<lambda>bp.
          kbind (kget (\<lambda>s. b_data (kb_buf s bp))) (\<lambda>d.
            kseq (kfor [0..<NINDIRECT] (\<lambda>j. if get32 (4 * j) d \<noteq> 0 then bfree (i_dev i) (get32 (4 * j) d) else kret ()))
              (kseq (brelse bp) (kseq (bfree (i_dev i) ind) (upd_inode ip (\<lambda>i. i\<lparr>i_addrs := (i_addrs i)[NDIRECT := 0]\<rparr>)))))) s
        else Ret () s)
       (kseq (upd_inode ip (\<lambda>i. i\<lparr>i_size := 0\<rparr>)) (iupdate ip)))"

definition iput :: "nat \<Rightarrow> ('z kfs_scheme, unit) kop" where
  "iput ip = (\<lambda>s. let i = get_inode ip s; last = (i_ref i = 1 \<and> i_valid i \<and> i_nlink i = 0) in
     kseq (if last then kseq (lock_inode ip) (kseq (itrunc ip) (kseq (upd_inode ip (\<lambda>i. i\<lparr>i_valid := False\<rparr>)) (unlock_inode ip)))
           else kret ())
       (kseq (upd_inode ip (\<lambda>i. i\<lparr>i_ref := i_ref i - 1\<rparr>))
         (if last then ifree (i_dev i) (i_inum i) else kret ())) s)"

definition iunlockput :: "nat \<Rightarrow> ('z kfs_scheme, unit) kop" where
  "iunlockput ip = kseq (iunlock ip) (iput ip)"

definition ireclaim_one :: "u32 \<Rightarrow> u32 \<Rightarrow> ('z kfs_scheme, unit) kop" where
  "ireclaim_one dev inum = (\<lambda>s. kbind (bread dev (IBLOCK inum (kf_sb s))) (\<lambda>bp.
     kbind (kget (\<lambda>s. get_dinode (dinode_off inum) (b_data (kb_buf s bp)))) (\<lambda>di.
       kbind (if di_type di \<noteq> 0 \<and> di_nlink di = 0
              then kseq (kprintk (''ireclaim: orphaned inode %d'' @ [CHR 0x0A]) [KWord (ucast inum)])
                     (kbind (iget dev inum) (\<lambda>ip. kret (Some ip)))
              else kret None)
         (\<lambda>ip. kseq (brelse bp)
           (case ip of None \<Rightarrow> kret ()
            | Some ip \<Rightarrow> kseq begin_op (kseq (ilock ip) (kseq (iunlock ip) (kseq (iput ip) end_op))))))) s)"

definition ireclaim :: "u32 \<Rightarrow> ('z kfs_scheme, unit) kop" where
  "ireclaim dev = (\<lambda>s. kfor (map of_nat [1..<unat (sb_ninodes (kf_sb s))]) (ireclaim_one dev) s)"

definition fsinit :: "u32 \<Rightarrow> ('z kfs_scheme, unit) kop" where
  "fsinit dev = kseq (readsb dev) (\<lambda>s.
     if sb_magic (kf_sb s) \<noteq> FSMAGIC then Panic ''invalid file system''
     else kseq (initlog dev (sb_logstart (kf_sb s))) (ireclaim dev) s)"

section \<open>Reading and writing files\<close>

record fstat =
  st_dev :: int
  st_ino :: u32
  st_type :: u16
  st_nlink :: u16
  st_size :: u64

definition stati :: "inode \<Rightarrow> fstat" where
  "stati i = \<lparr>st_dev = sint (i_dev i), st_ino = i_inum i, st_type = i_type i, st_nlink = i_nlink i, st_size = ucast (i_size i)\<rparr>"

text \<open>
  The destination of a read: a user address, an address in physical memory, or a variable
  of the caller, which gets the bytes that \<open>readi\<close> returns beside its result.
  The source of a write: a user address, or the bytes of a variable of the caller.
\<close>

datatype rdst = UserDst u64 | KernDst u64 | VarDst
datatype wsrc = UserSrc u64 | VarSrc "u8 list"

fun either_copyout :: "rdst \<Rightarrow> u8 list \<Rightarrow> ('z kproc_scheme, int) kop" where
  "either_copyout (UserDst dst) src = copyout_me dst src"
| "either_copyout (KernDst dst) src = kseq (write_bytes dst src) (kret 0)"
| "either_copyout VarDst src = kret 0"

fun either_copyin :: "wsrc \<Rightarrow> nat \<Rightarrow> ('z kproc_scheme, int \<times> u8 list) kop" where
  "either_copyin (UserSrc src) len = copyin_me src len"
| "either_copyin (VarSrc bs) len = kret (0, take len bs)"

fun rdst_add :: "rdst \<Rightarrow> u32 \<Rightarrow> rdst" where
  "rdst_add (UserDst dst) m = UserDst (dst + ucast m)"
| "rdst_add (KernDst dst) m = KernDst (dst + ucast m)"
| "rdst_add VarDst m = VarDst"

fun wsrc_add :: "wsrc \<Rightarrow> u32 \<Rightarrow> wsrc" where
  "wsrc_add (UserSrc src) m = UserSrc (src + ucast m)"
| "wsrc_add (VarSrc bs) m = VarSrc (drop (unat m) bs)"

definition chunk :: "u32 \<Rightarrow> u32 \<Rightarrow> u32 \<Rightarrow> u32" where
  "chunk off n tot = min (n - tot) (of_nat BSIZE - off mod of_nat BSIZE)"

primrec readi_loop :: "nat \<Rightarrow> nat \<Rightarrow> rdst \<Rightarrow> u32 \<Rightarrow> u32 \<Rightarrow> u32 \<Rightarrow> u8 list \<Rightarrow> ('z kfs_scheme, int \<times> u8 list) kop" where
  "readi_loop 0 ip dst off n tot got = (\<lambda>s. Fault)"
| "readi_loop (Suc k) ip dst off n tot got =
     (if tot < n
      then kbind (bmap ip (off div of_nat BSIZE)) (\<lambda>addr.
        if addr = 0 then kret (sint tot, got)
        else (\<lambda>s. kbind (bread (i_dev (get_inode ip s)) addr) (\<lambda>bp. let m = chunk off n tot in
          kbind (kget (\<lambda>s. slice (unat (off mod of_nat BSIZE)) (unat m) (b_data (kb_buf s bp)))) (\<lambda>bs.
            kbind (either_copyout dst bs) (\<lambda>r.
              if r = -1 then kseq (brelse bp) (kret (-1, got))
              else kseq (brelse bp) (readi_loop k ip (rdst_add dst m) (off + m) n (tot + m) (got @ bs))))) s))
      else kret (sint tot, got))"

text \<open>Every turn reads a byte or more.\<close>

definition readi :: "nat \<Rightarrow> rdst \<Rightarrow> u32 \<Rightarrow> u32 \<Rightarrow> ('z kfs_scheme, int \<times> u8 list) kop" where
  "readi ip dst off n = (\<lambda>s. let sz = i_size (get_inode ip s) in
     if off > sz \<or> off + n < off then Ret (0, []) s
     else let n = (if off + n > sz then sz - off else n) in readi_loop (Suc (unat n)) ip dst off n 0 [] s)"

primrec writei_loop :: "nat \<Rightarrow> nat \<Rightarrow> wsrc \<Rightarrow> u32 \<Rightarrow> u32 \<Rightarrow> u32 \<Rightarrow> ('z kfs_scheme, u32 \<times> u32) kop" where
  "writei_loop 0 ip src off n tot = (\<lambda>s. Fault)"
| "writei_loop (Suc k) ip src off n tot =
     (if tot < n
      then kbind (bmap ip (off div of_nat BSIZE)) (\<lambda>addr.
        if addr = 0 then kret (tot, off)
        else (\<lambda>s. kbind (bread (i_dev (get_inode ip s)) addr) (\<lambda>bp. let m = chunk off n tot in
          kbind (either_copyin src (unat m)) (\<lambda>(r, bs).
            kbind (kget (\<lambda>s. b_data (kb_buf s bp))) (\<lambda>d.
              kseq (set_data bp (put_at (unat (off mod of_nat BSIZE)) bs d))
                (kseq (log_write bp) (kseq (brelse bp)
                  (if r = -1 then kret (tot, off)
                   else writei_loop k ip (wsrc_add src m) (off + m) n (tot + m))))))) s))
      else kret (tot, off))"

definition writei :: "nat \<Rightarrow> wsrc \<Rightarrow> u32 \<Rightarrow> u32 \<Rightarrow> ('z kfs_scheme, int) kop" where
  "writei ip src off n = (\<lambda>s.
     if off > i_size (get_inode ip s) \<or> off + n < off then Ret (-1) s
     else if unat (off + n) > MAXFILE * BSIZE then Ret (-1) s
     else kbind (writei_loop (Suc (unat n)) ip src off n 0) (\<lambda>(tot, off).
       kseq (upd_inode ip (\<lambda>i. if off > i_size i then i\<lparr>i_size := off\<rparr> else i))
         (kseq (iupdate ip) (kret (sint tot)))) s)"

end
