(* ===== verification/FreeMap.thy ===== *)
theory FreeMap
  imports Fs
begin

text \<open>
  The block allocator: \<open>balloc\<close> and \<open>bfree\<close> of theory \<open>Fs\<close> keep a set of free blocks in the
  bits of the free map. An allocated block was free, is marked and cleared, and nothing else changes.
\<close>

section \<open>The free map\<close>

definition bit_clear :: "u8 list \<Rightarrow> nat \<Rightarrow> bool" where
  "bit_clear d i \<longleftrightarrow> d ! (i div 8) AND bit_mask i = 0"

lemma bit_clear_bit: "bit_clear d i \<longleftrightarrow> \<not> bit (d ! (i div 8)) (i mod 8)"
  by (simp add: bit_clear_def bit_mask_def push_bit_of_1 and_exp_eq_0_iff_not_bit)

lemma bit_mask_bit: "bit (bit_mask i) k \<longleftrightarrow> k = i mod 8"
  by (auto simp: bit_mask_def push_bit_of_1 bit_exp_iff possible_bit_word)

lemma bit_clear_set:
  assumes "length d = BSIZE" and "i < BPB" and "j < BPB"
  shows "bit_clear (d[i div 8 := d ! (i div 8) OR bit_mask i]) j \<longleftrightarrow> bit_clear d j \<and> j \<noteq> i"
    and "bit_clear (d[i div 8 := d ! (i div 8) AND NOT (bit_mask i)]) j \<longleftrightarrow> bit_clear d j \<or> j = i"
proof -
  have len: "i div 8 < length d" "j div 8 < length d" using assms by (auto simp: BPB_def BSIZE_def)
  have ij: "j = i \<longleftrightarrow> j div 8 = i div 8 \<and> j mod 8 = i mod 8" by (metis div_mod_decomp)
  have j8: "j mod 8 < 8" by simp
  show "bit_clear (d[i div 8 := d ! (i div 8) OR bit_mask i]) j \<longleftrightarrow> bit_clear d j \<and> j \<noteq> i"
    using len ij by (cases "j div 8 = i div 8") (auto simp: bit_clear_bit bit_or_iff bit_mask_bit)
  show "bit_clear (d[i div 8 := d ! (i div 8) AND NOT (bit_mask i)]) j \<longleftrightarrow> bit_clear d j \<or> j = i"
    using len ij j8 by (cases "j div 8 = i div 8") (auto simp: bit_clear_bit bit_and_iff bit_not_iff bit_mask_bit)
qed

lemma balloc_scan_Some:
  assumes "balloc_scan k sz b d bi = Some r"
  shows "bi \<le> r" and "r < BPB" and "b + r < sz" and "bit_clear d r" and "bi \<le> j \<Longrightarrow> j < r \<Longrightarrow> \<not> bit_clear d j"
  using assms
  by (induction k arbitrary: bi) (auto simp: bit_clear_def split: if_splits dest: Suc_leD, (metis le_neq_implies_less Suc_leI)+)

lemma balloc_scan_None:
  assumes "balloc_scan k sz b d bi = None" and "BPB \<le> bi + k" and "bi \<le> j" and "j < BPB" and "b + j < sz"
  shows "\<not> bit_clear d j"
  using assms
proof (induction k arbitrary: bi)
  case (Suc k)
  show ?case
  proof (cases "j = bi")
    case True
    with Suc.prems show ?thesis by (auto simp: bit_clear_def split: if_splits)
  next
    case False
    then have "Suc bi \<le> j" using Suc.prems(3) by simp
    then have "bi < BPB \<and> b + bi < sz" using Suc.prems by simp
    then have "balloc_scan k sz b d (Suc bi) = None" using Suc.prems(1) by (auto split: if_splits)
    from Suc.IH [OF this] show ?thesis using Suc.prems \<open>Suc bi \<le> j\<close> by simp
  qed
qed simp

text \<open>The block of the free map for block \<open>c\<close>, for a super block whose map does not wrap around.\<close>

definition fmap_ok :: "superblock \<Rightarrow> bool" where
  "fmap_ok sb \<longleftrightarrow> unat (sb_bmapstart sb) + unat (sb_size sb) div BPB < 2 ^ 32 \<and> unat (sb_size sb) < 2 ^ 31"

lemma BBLOCK_nat:
  assumes "c < 2 ^ 32"
  shows "BBLOCK (of_nat c) sb = of_nat (c div BPB) + sb_bmapstart sb"
proof -
  have "(of_nat c :: u32) div of_nat BPB = of_nat (c div BPB)"
    using assms by (intro word_unat_eq_iff [THEN iffD2]) (simp add: unat_div unat_of_nat BPB_def BSIZE_def less_imp_diff_less take_bit_nat_eq_self)
  then show ?thesis by (simp add: BBLOCK_def)
qed

lemma BBLOCK_inj:
  assumes "fmap_ok sb" and "b < unat (sb_size sb)" and "c < unat (sb_size sb)" and "BBLOCK (of_nat b) sb = BBLOCK (of_nat c) sb"
  shows "b div BPB = c div BPB"
proof -
  have small: "b < 2 ^ 32" "c < 2 ^ 32" using assms(1-3) by (auto simp: fmap_ok_def)
  have "(of_nat (b div BPB) :: u32) = of_nat (c div BPB)" using assms(4) small by (simp add: BBLOCK_nat)
  moreover have "b div BPB < 2 ^ 32" "c div BPB < 2 ^ 32" using small by (simp_all add: BPB_def BSIZE_def)
  ultimately show ?thesis by (simp add: word_of_nat_eq_iff take_bit_nat_eq_self)
qed

definition block_free :: "'z kfs_scheme \<Rightarrow> nat \<Rightarrow> bool" where
  "block_free s b \<longleftrightarrow> bit_clear (view s (BBLOCK (of_nat b) (kf_sb s))) (b mod BPB)"

lemma log_inv_print [simp]:
  "log_inv H P (s\<lparr>kc_out := out, kc_lsr := lsr\<rparr>) = log_inv H P s"
  by (simp add: log_inv_def log_pins_def)

lemma bzero_edit: "bzero ROOTDEV n = log_edit n (\<lambda>_. replicate BSIZE 0)"
  by (simp add: bzero_def log_edit_def kbind_def kget_def fun_eq_iff)

lemma log_step_sb:
  assumes "log_step s t"
  shows "kf_sb t = kf_sb s" and "kf_itable t = kf_itable s"
proof -
  obtain B D W ps out lsr where
    t: "t\<lparr>kl_log := kl_log s\<rparr> = s\<lparr>kb_buf := B, kb_disk := D, kb_writes := W, kp_procs := ps, kc_out := out, kc_lsr := lsr\<rparr>"
    using assms by (auto simp: log_step_def bio_step_def)
  have "kf_sb (t\<lparr>kl_log := kl_log s\<rparr>) = kf_sb s" "kf_itable (t\<lparr>kl_log := kl_log s\<rparr>) = kf_itable s" unfolding t by simp_all
  then show "kf_sb t = kf_sb s" and "kf_itable t = kf_itable s" by simp_all
qed

text \<open>
  The blocks that the allocator may hand out: not the boot block, the log or the free map itself.
\<close>

definition fmap_inv :: "'z kfs_scheme \<Rightarrow> bool" where
  "fmap_inv s \<longleftrightarrow> fmap_ok (kf_sb s) \<and> (\<forall>b < unat (sb_size (kf_sb s)).
     \<not> in_log (kl_log s) (BBLOCK (of_nat b) (kf_sb s)) \<and>
     (block_free s b \<longrightarrow> b \<noteq> 0 \<and> \<not> in_log (kl_log s) (of_nat b) \<and>
        (\<forall>c < unat (sb_size (kf_sb s)). of_nat b \<noteq> BBLOCK (of_nat c) (kf_sb s))))"

section \<open>Blocks inside a transaction\<close>

lemma kseq_assoc: "kseq (kseq f g) h = kseq f (kseq g h)"
  by (simp add: kseq_def kbind_def fun_eq_iff split: outcome.split)

lemma kseq3_Ret: "kseq a (kseq b c) t = Ret () u \<Longrightarrow> kseq a (kseq b (kseq c x)) t = x u"
  by (simp add: kseq_assoc [symmetric])

lemma log_look:
  assumes inv: "log_inv H P s" and H: "\<forall>i \<in> H. b_blockno (kb_buf s i) \<noteq> n" and c: "can_log k s" "card H < k"
  shows "\<exists>b t u. bread ROOTDEV n s = Ret b t \<and> b_data (kb_buf t b) = view s n \<and> brelse b t = Ret () u \<and> log_inv H P u \<and>
    view u = view s \<and> kb_disk u = kb_disk s \<and> can_log k u \<and> (\<forall>i \<in> H. b_blockno (kb_buf u i) = b_blockno (kb_buf s i)) \<and> log_step s u"
proof -
  have "card (H \<union> P) < NBUF" using log_room [OF inv c] .
  then have "(\<exists>i \<in> P. b_blockno (kb_buf s i) = n) \<or> card (H \<union> P) < NBUF" by simp
  from log_bread_ok [OF inv H this] obtain b t where
    t: "bread ROOTDEV n s = Ret b t" "b \<notin> H" "log_inv (insert b H) P t" "b_blockno (kb_buf t b) = n" "b_data (kb_buf t b) = view s n"
      "view t = view s" "\<forall>i. i \<noteq> b \<longrightarrow> kb_buf t i = kb_buf s i" "b \<in> P \<or> view s n = kb_disk s n" "kb_disk t = kb_disk s" "bio_step s t" by blast
  have "b \<in> P \<or> b_data (kb_buf t b) = kb_disk t (b_blockno (kb_buf t b))" using t(4,5,8,9) by simp
  from log_brelse_ok [OF t(3) insertI1 this] obtain u where
    u: "brelse b t = Ret () u" "log_inv (insert b H - {b}) P u" "view u = view t"
      "\<forall>i. b_blockno (kb_buf u i) = b_blockno (kb_buf t i) \<and> b_data (kb_buf u i) = b_data (kb_buf t i)"
      "kb_disk u = kb_disk t" "bio_step t u" by blast
  have HH: "insert b H - {b} = H" using t(2) by auto
  have l: "kl_log u = kl_log s" using bio_step_log [OF t(10)] bio_step_log [OF u(6)] by simp
  have "can_log k u" using c(1) by (simp add: can_log_def l)
  moreover have "\<forall>i \<in> H. b_blockno (kb_buf u i) = b_blockno (kb_buf s i)"
  proof
    fix i assume "i \<in> H"
    then have "i \<noteq> b" using t(2) by auto
    then show "b_blockno (kb_buf u i) = b_blockno (kb_buf s i)" using t(7) u(4) by simp
  qed
  moreover have "log_step s u" by (rule bio_log_step [OF bio_step_trans [OF t(10) u(6)]])
  ultimately show ?thesis using t(1,5,6,9) u(1,2,3,5) unfolding HH by auto
qed

lemma log_change:
  assumes inv: "log_inv H P s" and H: "\<forall>i \<in> H. b_blockno (kb_buf s i) \<noteq> n" and c: "can_log (Suc k) s" "card H \<le> k"
    and out: "\<not> in_log (kl_log s) n"
  shows "\<exists>b t. bread ROOTDEV n s = Ret b t \<and> b_data (kb_buf t b) = view s n \<and> (\<forall>d. length d = BSIZE \<longrightarrow>
    (\<exists>u P'. kseq (set_data b d) (kseq (log_write b) (brelse b)) t = Ret () u \<and> log_inv H P' u \<and> view u = (view s)(n := d) \<and>
      kb_disk u = kb_disk s \<and> can_log k u \<and> (\<forall>i \<in> H. b_blockno (kb_buf u i) = b_blockno (kb_buf s i)) \<and> log_step s u))"
proof -
  have "card (H \<union> P) < NBUF" using log_room [OF inv c(1)] c(2) by simp
  then have "(\<exists>i \<in> P. b_blockno (kb_buf s i) = n) \<or> card (H \<union> P) < NBUF" by simp
  from log_bread_ok [OF inv H this] obtain b t where
    t: "bread ROOTDEV n s = Ret b t" "b \<notin> H" "log_inv (insert b H) P t" "b_blockno (kb_buf t b) = n" "b_data (kb_buf t b) = view s n"
      "view t = view s" "\<forall>i. i \<noteq> b \<longrightarrow> kb_buf t i = kb_buf s i" "kb_disk t = kb_disk s" "bio_step s t" by blast
  have l: "kl_log t = kl_log s" using t(9) by (rule bio_step_log)
  have c': "can_log (Suc k) t" and o: "\<not> in_log (kl_log t) (b_blockno (kb_buf t b))" using c(1) out t(4) by (simp_all add: can_log_def l)
  have HH: "insert b H - {b} = H" using t(2) by auto
  have bn: "b_blockno (kb_buf t i) = b_blockno (kb_buf s i)" if "i \<in> H" for i using that t(2,7) by auto
  have "\<exists>u P'. kseq (set_data b d) (kseq (log_write b) (brelse b)) t = Ret () u \<and> log_inv H P' u \<and> view u = (view s)(n := d) \<and>
      kb_disk u = kb_disk s \<and> can_log k u \<and> (\<forall>i \<in> H. b_blockno (kb_buf u i) = b_blockno (kb_buf s i)) \<and> log_step s u"
    if d: "length d = BSIZE" for d
  proof -
    from log_store_ok [OF t(3) insertI1 c' o d] obtain u where
      u: "kseq (set_data b d) (kseq (log_write b) (brelse b)) t = Ret () u" "log_inv (insert b H - {b}) (insert b P) u"
        "view u = (view t)(n := d)" "kb_disk u = kb_disk t" "can_log k u" "\<forall>i. b_blockno (kb_buf u i) = b_blockno (kb_buf t i)" "log_step t u"
      unfolding t(4) by blast
    have "log_step s u" by (rule log_step_trans [OF bio_log_step [OF t(9)] u(7)])
    moreover have "\<forall>i \<in> H. b_blockno (kb_buf u i) = b_blockno (kb_buf s i)" using u(6) bn by simp
    ultimately show ?thesis using u(1-5) t(6,8) unfolding HH by (intro exI [of _ u] exI [of _ "insert b P"]) simp
  qed
  then show ?thesis using t(1,5) by blast
qed

section \<open>Allocation\<close>

text \<open>Where \<open>balloc\<close> finds a free block, and what it does to it.\<close>

definition takes_block :: "nat \<Rightarrow> 'z kfs_scheme \<Rightarrow> 'z kfs_scheme \<Rightarrow> bool" where
  "takes_block b s t \<longleftrightarrow> block_free s b \<and> view t (of_nat b) = replicate BSIZE 0 \<and>
     (\<forall>c < unat (sb_size (kf_sb s)). block_free t c \<longleftrightarrow> block_free s c \<and> c \<noteq> b) \<and>
     (\<forall>n. n \<noteq> of_nat b \<and> n \<noteq> BBLOCK (of_nat b) (kf_sb s) \<longrightarrow> view t n = view s n) \<and> log_step s t"

lemma fmap_invD:
  assumes "fmap_inv s" and "b < unat (sb_size (kf_sb s))"
  shows "\<not> in_log (kl_log s) (BBLOCK (of_nat b) (kf_sb s))"
    and "block_free s b \<Longrightarrow> b \<noteq> 0" and "block_free s b \<Longrightarrow> \<not> in_log (kl_log s) (of_nat b)"
    and "block_free s b \<Longrightarrow> c < unat (sb_size (kf_sb s)) \<Longrightarrow> of_nat b \<noteq> BBLOCK (of_nat c) (kf_sb s)"
    and "fmap_ok (kf_sb s)" and "b < 2 ^ 32"
  using assms by (auto simp: fmap_inv_def fmap_ok_def)

lemma BPB_less: "b mod BPB < BPB"
  by (simp add: BPB_def BSIZE_def)

text \<open>The bits of the free map after one of them was changed.\<close>

lemma block_free_upd:
  assumes inv: "fmap_inv s" and b: "b < unat (sb_size (kf_sb s))" and c: "c < unat (sb_size (kf_sb s))"
    and sb: "kf_sb t = kf_sb s"
    and v: "view t (BBLOCK (of_nat c) (kf_sb s)) = ((view s)(BBLOCK (of_nat b) (kf_sb s) := d)) (BBLOCK (of_nat c) (kf_sb s))"
    and d: "\<And>j. j < BPB \<Longrightarrow> bit_clear d j \<longleftrightarrow> Q (bit_clear (view s (BBLOCK (of_nat b) (kf_sb s))) j) (j = b mod BPB)"
    and Q: "\<And>x. Q x False = x"
  shows "block_free t c \<longleftrightarrow> Q (block_free s c) (c = b)"
proof (cases "BBLOCK (of_nat c) (kf_sb s) = BBLOCK (of_nat b) (kf_sb s)")
  case True
  then have "c div BPB = b div BPB" using BBLOCK_inj [OF fmap_invD(5) [OF inv b] c b] by simp
  then have "c = b \<longleftrightarrow> c mod BPB = b mod BPB" by (metis div_mod_decomp)
  then show ?thesis using True v d [OF BPB_less] by (simp add: block_free_def sb)
next
  case False
  then have "c \<noteq> b" by auto
  then show ?thesis using False v Q by (simp add: block_free_def sb)
qed

lemma takes_blockI:
  assumes inv: "fmap_inv s" and b: "b < unat (sb_size (kf_sb s))" and free: "block_free s b" and step: "log_step s t"
    and len: "length (view s (BBLOCK (of_nat b) (kf_sb s))) = BSIZE"
    and v: "view t = ((view s)(BBLOCK (of_nat b) (kf_sb s) := (view s (BBLOCK (of_nat b) (kf_sb s)))[b mod BPB div 8 :=
      view s (BBLOCK (of_nat b) (kf_sb s)) ! (b mod BPB div 8) OR bit_mask (b mod BPB)]))(of_nat b := replicate BSIZE 0)"
  shows "takes_block b s t"
proof -
  have "block_free t c \<longleftrightarrow> block_free s c \<and> c \<noteq> b" if c: "c < unat (sb_size (kf_sb s))" for c
  proof (rule block_free_upd [OF inv b c, where Q = "\<lambda>x y. x \<and> \<not> y"])
    show "kf_sb t = kf_sb s" by (rule log_step_sb [OF step])
    have "of_nat b \<noteq> BBLOCK (of_nat c) (kf_sb s)" using fmap_invD(4) [OF inv b free c] .
    then show "view t (BBLOCK (of_nat c) (kf_sb s)) = ((view s)(BBLOCK (of_nat b) (kf_sb s) :=
        (view s (BBLOCK (of_nat b) (kf_sb s)))[b mod BPB div 8 := view s (BBLOCK (of_nat b) (kf_sb s)) ! (b mod BPB div 8) OR bit_mask (b mod BPB)]))
        (BBLOCK (of_nat c) (kf_sb s))" unfolding v by simp
  qed (use bit_clear_set(1) [OF len BPB_less] in auto)
  then show ?thesis using free step unfolding takes_block_def v by simp
qed

lemma group_index:
  assumes "BPB dvd b" and "bi < BPB"
  shows "(b + bi) mod BPB = bi" and "(b + bi) div BPB = b div BPB"
  using assms by (auto elim!: dvdE simp: BPB_def BSIZE_def)

lemma balloc_group:
  assumes inv: "log_inv {} P s" and fm: "fmap_inv s" and c: "can_log (Suc (Suc k)) s"
    and b: "BPB dvd b" "b + bi < unat (sb_size (kf_sb s))" "bi < BPB" and free: "block_free s (b + bi)"
    and scan: "balloc_scan BPB (unat (sb_size (kf_sb s))) b (view s (BBLOCK (of_nat b) (kf_sb s))) 0 = Some bi"
  shows "\<exists>t P'. balloc_loop (Suc m) ROOTDEV b s = Ret (of_nat (b + bi)) t \<and> log_inv {} P' t \<and> can_log k t \<and> takes_block (b + bi) s t"
proof -
  let ?n = "BBLOCK (of_nat b) (kf_sb s)" and ?B = "b + bi"
  have lt: "?B < 2 ^ 32" "b < 2 ^ 32" using fmap_invD(6) [OF fm b(2)] by simp_all
  have n: "BBLOCK (of_nat ?B) (kf_sb s) = ?n" unfolding BBLOCK_nat [OF lt(1)] BBLOCK_nat [OF lt(2)] group_index(2) [OF b(1,3)] ..
  have out: "\<not> in_log (kl_log s) ?n" using fmap_invD(1) [OF fm b(2)] unfolding n .
  let ?d = "(view s ?n)[bi div 8 := view s ?n ! (bi div 8) OR bit_mask bi]"
  have len: "length (view s ?n) = BSIZE" using view_length [OF log_invD(1) [OF inv]] .
  then have "length ?d = BSIZE" by simp
  with log_change [OF inv _ c _ out] obtain bp t u P1 where
    t: "bread ROOTDEV ?n s = Ret bp t" "b_data (kb_buf t bp) = view s ?n" and
    u: "kseq (set_data bp ?d) (kseq (log_write bp) (brelse bp)) t = Ret () u" "log_inv {} P1 u" "view u = (view s)(?n := ?d)"
      "can_log (Suc k) u" "log_step s u" by (metis card.empty empty_iff le0)
  have "\<not> in_log (kl_log u) (of_nat ?B)" using fmap_invD(3) [OF fm b(2) free] log_step_log(3) [OF u(5)] by simp
  with log_edit_ok [OF u(2) _ u(4) _ this, of "\<lambda>_. replicate BSIZE 0"] obtain v P2 where
    v: "bzero ROOTDEV (of_nat ?B) u = Ret () v" "log_inv {} P2 v" "view v = (view u)(of_nat ?B := replicate BSIZE 0)" "can_log k v" "log_step u v"
    unfolding bzero_edit by (metis card.empty empty_iff le0 length_replicate)
  have step: "log_step s v" by (rule log_step_trans [OF u(5) v(5)])
  have "takes_block ?B s v"
    by (rule takes_blockI [OF fm b(2) free step]) (unfold n group_index(1) [OF b(1,3)] v(3) u(3), rule len, rule refl)
  moreover have "b < unat (sb_size (kf_sb s))" using b(2) by simp
  then have "balloc_loop (Suc m) ROOTDEV b s = Ret (of_nat ?B) v"
    using t scan v(1) by (simp add: kseq3_Ret [OF u(1)])
  ultimately show ?thesis using v(2,4) by blast
qed

lemma fmap_same:
  assumes "view t = view s" and "log_step s t"
  shows "block_free t b \<longleftrightarrow> block_free s b" and "fmap_inv t \<longleftrightarrow> fmap_inv s" and "takes_block b t u \<Longrightarrow> takes_block b s u"
proof -
  note sb = log_step_sb(1) [OF assms(2)] and il = log_step_log(3) [OF assms(2)]
  show free: "block_free t b \<longleftrightarrow> block_free s b" for b by (simp add: block_free_def assms(1) sb)
  show "fmap_inv t \<longleftrightarrow> fmap_inv s" by (simp add: fmap_inv_def free sb il)
  show "takes_block b t u \<Longrightarrow> takes_block b s u"
    using log_step_trans [OF assms(2)] by (auto simp: takes_block_def free sb assms(1))
qed

lemma balloc_format: "printk (''balloc: out of blocks'' @ [CHR 0x0A]) [] \<noteq> None"
  by code_simp

lemma balloc_loop_ok:
  assumes "log_inv {} P s" and "fmap_inv s" and "can_log (Suc (Suc k)) s" and "BPB dvd b"
    and "unat (sb_size (kf_sb s)) + BPB < b + m * BPB" and "b < unat (sb_size (kf_sb s)) + BPB"
    and "\<forall>c < b. c < unat (sb_size (kf_sb s)) \<longrightarrow> \<not> block_free s c"
  shows "(\<exists>c < unat (sb_size (kf_sb s)). (\<forall>j < c. \<not> block_free s j) \<and> (\<exists>t P'. balloc_loop m ROOTDEV b s = Ret (of_nat c) t \<and>
      log_inv {} P' t \<and> can_log k t \<and> takes_block c s t)) \<or>
    (\<forall>c < unat (sb_size (kf_sb s)). \<not> block_free s c) \<and> (\<exists>t. balloc_loop m ROOTDEV b s = Ret 0 t \<and> log_inv {} P t \<and>
      can_log (Suc (Suc k)) t \<and> view t = view s \<and> log_step s t)"
  using assms
proof (induction m arbitrary: b s)
  case (Suc m)
  let ?sz = "unat (sb_size (kf_sb s))" and ?n = "BBLOCK (of_nat b) (kf_sb s)"
  note inv = Suc.prems(1) and fm = Suc.prems(2) and c = Suc.prems(3) and dv = Suc.prems(4)
  show ?case
  proof (cases "b < ?sz")
    case False
    obtain out lsr where "kprintk (''balloc: out of blocks'' @ [CHR 0x0A]) [] s = Ret () (s\<lparr>kc_out := out, kc_lsr := lsr\<rparr>)" (is "_ = Ret () ?t")
      using kprintk_state [OF balloc_format] by blast
    then have "balloc_loop (Suc m) ROOTDEV b s = Ret 0 ?t" using False by simp
    moreover have "log_step s ?t" by (rule bio_log_step [OF bio_step_print])
    moreover have "can_log (Suc (Suc k)) ?t" using c by (simp add: can_log_def)
    moreover have "\<forall>c < ?sz. \<not> block_free s c" using False Suc.prems(7) by auto
    ultimately show ?thesis using inv by (intro disjI2 conjI exI [of _ ?t]) simp_all
  next
    case True
    note lt = fmap_invD(6) [OF fm True]
    have free: "block_free s (b + j) \<longleftrightarrow> bit_clear (view s ?n) j" if "j < BPB" "b + j < ?sz" for j
      using that fmap_invD(6) [OF fm that(2)] lt by (simp add: block_free_def BBLOCK_nat group_index [OF dv] del: of_nat_add)
    show ?thesis
    proof (cases "balloc_scan BPB ?sz b (view s ?n) 0")
      case (Some bi)
      note sc = balloc_scan_Some [OF Some]
      have bf: "block_free s (b + bi)" using free [OF sc(2,3)] sc(4) by simp
      have "\<not> block_free s j" if "j < b + bi" for j
      proof (cases "j < b")
        case True
        then show ?thesis using Suc.prems(7) \<open>b < ?sz\<close> by simp
      next
        case False
        then show ?thesis using that sc(2,3) sc(5) [of "j - b"] free [of "j - b"] by simp
      qed
      then show ?thesis using balloc_group [OF inv fm c dv sc(3,2) bf Some] sc(3) by blast
    next
      case None
      have "\<forall>i \<in> {}. b_blockno (kb_buf s i) \<noteq> ?n" "card ({} :: nat set) < Suc (Suc k)" by simp_all
      from log_look [OF inv this(1) c this(2)] obtain bp t u where
        t: "bread ROOTDEV ?n s = Ret bp t" "b_data (kb_buf t bp) = view s ?n" "brelse bp t = Ret () u" "log_inv {} P u"
          "view u = view s" "can_log (Suc (Suc k)) u" "log_step s u" by blast
      note same = fmap_same [OF t(5,7)] and sb = log_step_sb(1) [OF t(7)]
      have run: "balloc_loop (Suc m) ROOTDEV b s = balloc_loop m ROOTDEV (b + BPB) u"
        using True t(1-3) None by simp
      have nofree: "\<not> block_free s c" if "c < b + BPB" "c < ?sz" for c
      proof (cases "c < b")
        case True
        then show ?thesis using Suc.prems(7) that by simp
      next
        case False
        then show ?thesis using that balloc_scan_None [OF None, of "c - b"] free [of "c - b"] by simp
      qed
      have "fmap_inv u" using fm same(2) by simp
      moreover have "BPB dvd b + BPB" using dv by simp
      ultimately show ?thesis
        using Suc.IH [OF t(4) _ t(6), of "b + BPB"] Suc.prems(5) True nofree same log_step_trans [OF t(7)]
        unfolding run sb same(1) t(5) by (simp add: algebra_simps) blast
    qed
  qed
qed simp


text \<open>
  C31: \<open>bfree\<close> marks exactly the given block as free and changes no other block; freeing a
  block that is already free panics.
\<close>

theorem bfree_correct:
  assumes "log_inv {} P s" and "fmap_inv s" and "can_log (Suc k) s" and "unat b < unat (sb_size (kf_sb s))"
  shows "if block_free s (unat b) then bfree ROOTDEV b s = Panic ''freeing free block''
    else \<exists>t P'. bfree ROOTDEV b s = Ret () t \<and> log_inv {} P' t \<and> can_log k t \<and>
      (\<forall>c < unat (sb_size (kf_sb s)). block_free t c \<longleftrightarrow> block_free s c \<or> c = unat b) \<and>
      (\<forall>n. n \<noteq> BBLOCK b (kf_sb s) \<longrightarrow> view t n = view s n) \<and> log_step s t"
proof -
  let ?n = "BBLOCK b (kf_sb s)" and ?bi = "unat b mod BPB"
  let ?d = "(view s ?n)[?bi div 8 := view s ?n ! (?bi div 8) AND NOT (bit_mask ?bi)]"
  note free = block_free_def [of s "unat b", unfolded bit_clear_def, simplified]
  have out: "\<not> in_log (kl_log s) ?n" using fmap_invD(1) [OF assms(2,4)] by simp
  have len: "length (view s ?n) = BSIZE" using view_length [OF log_invD(1) [OF assms(1)]] .
  obtain bp t where t: "bread ROOTDEV ?n s = Ret bp t" "b_data (kb_buf t bp) = view s ?n"
    and u: "\<forall>d. length d = BSIZE \<longrightarrow> (\<exists>u P'. kseq (set_data bp d) (kseq (log_write bp) (brelse bp)) t = Ret () u \<and> log_inv {} P' u \<and>
      view u = (view s)(?n := d) \<and> can_log k u \<and> log_step s u)"
    using log_change [OF assms(1) _ assms(3) _ out] by (metis card.empty empty_iff le0)
  show ?thesis
  proof (cases "block_free s (unat b)")
    case True
    then show ?thesis using t by (simp add: bfree_def free Let_def)
  next
    case False
    have "length ?d = BSIZE" using len by simp
    with u obtain v P' where v: "kseq (set_data bp ?d) (kseq (log_write bp) (brelse bp)) t = Ret () v" "log_inv {} P' v"
      "view v = (view s)(?n := ?d)" "can_log k v" "log_step s v" by blast
    have "block_free v c \<longleftrightarrow> block_free s c \<or> c = unat b" if c: "c < unat (sb_size (kf_sb s))" for c
    proof (rule block_free_upd [OF assms(2,4) c log_step_sb(1) [OF v(5)], where Q = "(\<or>)" and d = ?d])
      show "view v (BBLOCK (of_nat c) (kf_sb s)) = ((view s)(BBLOCK (of_nat (unat b)) (kf_sb s) := ?d)) (BBLOCK (of_nat c) (kf_sb s))"
        unfolding v(3) by simp
    qed (use bit_clear_set(2) [OF len BPB_less] in auto)
    moreover have "bfree ROOTDEV b s = Ret () v" using False t v(1) by (simp add: bfree_def free Let_def)
    ultimately show ?thesis using False v(2-5) by (intro if_not_P [THEN iffD2]) auto
  qed
qed

text \<open>A disk of 100 blocks, of which the first 64 are in use, with its free map in block 40.\<close>

definition zero_inode :: inode where
  "zero_inode = \<lparr>i_dev = 0, i_inum = 0, i_ref = 0, i_lock = initsleeplock, i_valid = False, i_type = 0, i_major = 0, i_minor = 0,
     i_nlink = 0, i_size = 0, i_addrs = replicate (NDIRECT + 1) 0\<rparr>"

definition demo_kfs :: kfs where
  "demo_kfs = \<lparr>km_mem = demo_user_mem, km_freelist = 0, km_end = 0x80020000,
     kp_procs = [demo_user_proc], kp_nextpid = 4, kp_initproc = Some 0, kp_me = 0,
     kc_out = [], kc_rx = [], kc_lsr = [], kc_txlock = initsleeplock, kc_cons = demo_cons,
     kp_pipes = \<lambda>_. \<lparr>pi_data = demo_ring, pi_nread = -2, pi_nwrite = 0, pi_readopen = True, pi_writeopen = True\<rparr>,
     kb_buf = binit (\<lambda>_. zero_buf),
     kb_disk = \<lambda>n. if n = 40 then replicate 8 255 @ replicate (BSIZE - 8) 0 else replicate BSIZE 0, kb_writes = [],
     kl_log = \<lparr>lg_start = 2, lg_outstanding = 1, lg_committing = False, lg_dev = ROOTDEV, lg_ncommit = 0,
       lh_n = 0, lh_block = replicate LOGBLOCKS 0\<rparr>,
     kf_sb = \<lparr>sb_magic = FSMAGIC, sb_size = 100, sb_nblocks = 59, sb_ninodes = 16, sb_nlog = 31, sb_logstart = 2,
       sb_inodestart = 33, sb_bmapstart = 40\<rparr>,
     kf_itable = replicate NINODE zero_inode\<rparr>"

lemma demo_kfs_inv: "log_inv {} {} demo_kfs" and demo_kfs_view: "view demo_kfs = kb_disk demo_kfs"
proof -
  have len: "\<forall>n. length (kb_disk demo_kfs n) = BSIZE" by (simp add: demo_kfs_def BSIZE_def)
  have inv: "bc_inv {} {} demo_kfs" using bc_inv_boot [of demo_kfs] len by (simp add: demo_kfs_def)
  then show "log_inv {} {} demo_kfs"
    by (simp add: log_inv_def demo_kfs_def log_layout_def log_entries_def log_pins_def LOGBLOCKS_def MAXOPBLOCKS_def)
  show "view demo_kfs = kb_disk demo_kfs" using view_clean [OF inv] by (auto simp: fun_eq_iff)
qed

lemma demo_BBLOCK: "c < 100 \<Longrightarrow> BBLOCK (of_nat c) (kf_sb demo_kfs) = 40"
  by (simp add: BBLOCK_nat BPB_def BSIZE_def demo_kfs_def)

lemma demo_free: "c < 100 \<Longrightarrow> block_free demo_kfs c \<longleftrightarrow> 64 \<le> c"
proof -
  assume c: "c < 100"
  have "(replicate 8 255 @ replicate (BSIZE - 8) 0) ! (c div 8) = (if c < 64 then 255 else (0 :: u8))"
    using c by (auto simp: nth_append BSIZE_def)
  moreover have "view demo_kfs 40 = replicate 8 255 @ replicate (BSIZE - 8) 0" unfolding demo_kfs_view by (simp add: demo_kfs_def)
  moreover have "(255 :: u8) = - 1" by simp
  then have "bit (255 :: u8) (c mod 8)" by (simp only:) (simp add: possible_bit_word bit_minus_1_iff)
  moreover have "c mod BPB = c" using c by (simp add: BPB_def BSIZE_def)
  ultimately show ?thesis unfolding block_free_def demo_BBLOCK [OF c] bit_clear_bit by simp
qed

lemma demo_fmap_inv: "fmap_inv demo_kfs"
proof -
  have il: "in_log (kl_log demo_kfs) = in_log (kl_log demo_klog)" by (simp add: in_log_def demo_kfs_def demo_klog_def fun_eq_iff)
  have 40: "\<not> in_log (kl_log demo_kfs) 40" using demo_not_in_log [of 40] by (simp add: il)
  have "(of_nat b :: u32) \<noteq> 40" if "64 \<le> b" "b < 100" for b :: nat
  proof
    assume "(of_nat b :: u32) = 40"
    then have "(of_nat b :: u32) = of_nat 40" by simp
    then show False using that by (simp only: word_of_nat_eq_iff) (simp add: take_bit_nat_eq_self)
  qed
  moreover have "\<not> in_log (kl_log demo_kfs) (of_nat b)" if "64 \<le> b" "b < 100" for b
    using that demo_not_in_log [of b] by (simp add: il)
  moreover have "fmap_ok (kf_sb demo_kfs)" by (simp add: fmap_ok_def demo_kfs_def BPB_def BSIZE_def)
  moreover have "unat (sb_size (kf_sb demo_kfs)) = 100" by (simp add: demo_kfs_def)
  ultimately show ?thesis using 40 by (simp add: fmap_inv_def demo_free demo_BBLOCK)
qed

lemma demo_can_log: "can_log 10 demo_kfs"
  by (simp add: can_log_def demo_kfs_def LOGBLOCKS_def MAXOPBLOCKS_def)


theorem bfree_correct_witness:
  "\<exists>t. bfree ROOTDEV 50 demo_kfs = Ret () t \<and> block_free t 50"
proof -
  have c: "can_log (Suc 9) demo_kfs" using demo_can_log by (simp add: numeral_nat)
  have sz: "unat (sb_size (kf_sb demo_kfs)) = 100" by (simp add: demo_kfs_def)
  show ?thesis
    using bfree_correct [OF demo_kfs_inv demo_fmap_inv c, of 50] demo_free [of 50] by (auto simp: sz)
qed

end
