(* ===== verification/Itable.thy ===== *)
theory Itable
  imports FreeMap
begin

text \<open>
  The inode table. Whatever file-system operations run, two entries in use never stand for the same
  inode on disk, so the lock of the entry is the lock of the inode.
\<close>

section \<open>Operations that keep the keys of the table\<close>

definition ikey :: "inode \<Rightarrow> u32 \<times> u32 \<times> int" where
  "ikey i = (i_dev i, i_inum i, i_ref i)"

definition ikeys :: "'z kfs_scheme \<Rightarrow> (u32 \<times> u32 \<times> int) list" where
  "ikeys s = map ikey (kf_itable s)"

definition keeps_keys :: "'z kfs_scheme \<Rightarrow> ('z kfs_scheme, 'a) outcome \<Rightarrow> bool" where
  "keeps_keys s r \<longleftrightarrow> (\<forall>a t. r = Ret a t \<longrightarrow> ikeys t = ikeys s)"

named_theorems keeps \<open>operations that keep the keys of the inode table\<close>

lemma keeps_basic [keeps]:
  "keeps_keys s (kret a s)" "keeps_keys s (kpanic m s)" "keeps_keys s (kget g s)" "keeps_keys s Fault" "keeps_keys s (Panic m)"
  "keeps_keys s (Ret a s)"
  by (simp_all add: keeps_keys_def)

lemma keeps_kbind [keeps]:
  assumes "keeps_keys s (f s)" and "\<And>a t. keeps_keys t (g a t)"
  shows "keeps_keys s (kbind f g s)"
  using assms unfolding keeps_keys_def by (fastforce elim!: kbind_RetD)

lemma keeps_kseq [keeps]:
  assumes "keeps_keys s (f s)" and "\<And>t. keeps_keys t (g t)"
  shows "keeps_keys s (kseq f g s)"
  unfolding kseq_def using assms by (rule keeps_kbind)

lemma keeps_kfor [keeps]: "(\<And>x s. keeps_keys s (f x s)) \<Longrightarrow> keeps_keys s (kfor xs f s)"
proof (induction xs arbitrary: s)
  case (Cons x xs)
  show ?case using Cons.IH [OF Cons.prems] Cons.prems by (simp add: keeps_kseq)
qed (simp add: keeps_basic)

lemma keeps_cases [keeps]:
  "keeps_keys s (f s) \<Longrightarrow> keeps_keys s (g s) \<Longrightarrow> keeps_keys s ((if c then f else g) s)"
  "keeps_keys s q \<Longrightarrow> keeps_keys s r \<Longrightarrow> keeps_keys s (if c then q else r)"
  "keeps_keys s (f s) \<Longrightarrow> (\<And>x. keeps_keys s (h x s)) \<Longrightarrow> keeps_keys s ((case p of None \<Rightarrow> f | Some x \<Rightarrow> h x) s)"
  "keeps_keys s q \<Longrightarrow> (\<And>x. keeps_keys s (r' x)) \<Longrightarrow> keeps_keys s (case p of None \<Rightarrow> q | Some x \<Rightarrow> r' x)"
  "(\<And>x y. keeps_keys s (k x y s)) \<Longrightarrow> keeps_keys s ((case z of (x, y) \<Rightarrow> k x y) s)"
  by (simp_all split: option.split prod.split)

lemma keeps_same: "(\<And>a t. r = Ret a t \<Longrightarrow> kf_itable t = kf_itable s) \<Longrightarrow> keeps_keys s r"
  by (simp add: keeps_keys_def ikeys_def)

lemma ksleep_never [simp]: "ksleep c s \<noteq> Ret a t" "(Ret a t = ksleep c s) = False"
  using ksleep_not_Ret by metis+

lemma cache_itable:
  "bread dev n s = Ret b t \<Longrightarrow> kf_itable t = kf_itable s" "brelse b s = Ret u t \<Longrightarrow> kf_itable t = kf_itable s"
  "set_data b d s = Ret u t \<Longrightarrow> kf_itable t = kf_itable s" "log_write b s = Ret u t \<Longrightarrow> kf_itable t = kf_itable s"
  by (auto simp: bread_def bget_def acquire_buf_def acquiresleep_def disk_read_def kseq_def kbind_def
      brelse_def release_buf_def releasesleep_def set_data_def log_write_def Let_def bpin_def split: outcome.splits option.splits if_splits)

lemma keeps_cache [keeps]:
  "keeps_keys s (bread dev n s)" "keeps_keys s (brelse b s)" "keeps_keys s (set_data b d s)" "keeps_keys s (log_write b s)"
  by (rule keeps_same; rule cache_itable; assumption)+

lemma keeps_kprintk [keeps]: "keeps_keys s (kprintk fmt as s)"
proof (rule keeps_same)
  fix a t assume r: "kprintk fmt as s = Ret a t"
  then have "printk fmt as \<noteq> None" by (auto simp: kprintk_def split: option.splits)
  then obtain out lsr where "kprintk fmt as s = Ret () (s\<lparr>kc_out := out, kc_lsr := lsr\<rparr>)" using kprintk_state by blast
  with r show "kf_itable t = kf_itable s" by auto
qed

lemma keeps_upd_inode [keeps]:
  assumes "\<And>i. ikey (f i) = ikey i"
  shows "keeps_keys s (upd_inode ip f s)"
proof -
  have "map ikey ((kf_itable s)[ip := f (kf_itable s ! ip)]) = map ikey (kf_itable s)"
    by (cases "ip < length (kf_itable s)") (simp_all add: map_update assms list_update_same_conv list_update_beyond)
  then show ?thesis by (simp add: upd_inode_def keeps_keys_def ikeys_def)
qed

lemma ikey_upd [simp]:
  "ikey (i\<lparr>i_addrs := x\<rparr>) = ikey i" "ikey (i\<lparr>i_size := n\<rparr>) = ikey i" "ikey (i\<lparr>i_valid := b\<rparr>) = ikey i"
  "ikey (i\<lparr>i_lock := l\<rparr>) = ikey i" "ikey (load_inode di i) = ikey i"
  by (simp_all add: ikey_def load_inode_def)

lemma keeps_lock [keeps]: "keeps_keys s (lock_inode ip s)" "keeps_keys s (unlock_inode ip s)"
  using keeps_upd_inode [of "\<lambda>i. i\<lparr>i_lock := l\<rparr>" s ip for l]
  by (auto simp: lock_inode_def unlock_inode_def acquiresleep_def releasesleep_def keeps_keys_def upd_inode_def ikeys_def)

lemma keeps_copy [keeps]: "keeps_keys s (either_copyout dst bs s)" "keeps_keys s (either_copyin src n s)"
proof -
  show "keeps_keys s (either_copyout dst bs s)"
    by (cases dst; rule keeps_same) (auto simp: write_bytes_def dest!: copy_me_state(1))
  show "keeps_keys s (either_copyin src n s)"
    by (cases src; rule keeps_same) (auto dest!: copy_me_state(2))
qed

lemma keeps_alloc [keeps]: "keeps_keys s (balloc dev s)" "keeps_keys s (bfree dev b s)" "keeps_keys s (bzero dev n s)"
proof -
  show z: "keeps_keys s (bzero dev n s)" for s :: "'z kfs_scheme" and n unfolding bzero_def by (intro keeps)
  have "keeps_keys s (balloc_loop k dev b s)" for s :: "'z kfs_scheme" and k b
    by (induction k arbitrary: b s) (auto simp: Let_def intro!: keeps z)
  then show "keeps_keys s (balloc dev s)" unfolding balloc_def .
  show "keeps_keys s (bfree dev b s)" unfolding bfree_def Let_def by (intro keeps)
qed

lemma keeps_inode [keeps]:
  "keeps_keys s (iupdate ip s)" "keeps_keys s (ilock ip s)" "keeps_keys s (iunlock ip s)" "keeps_keys s (ifree dev n s)"
  "keeps_keys s (bmap ip bn s)" "keeps_keys s (itrunc_direct ip k s)"
  unfolding iupdate_def ilock_def iunlock_def ifree_def bmap_def itrunc_direct_def Let_def by (intro keeps; simp)+

lemma keeps_itrunc [keeps]: "keeps_keys s (itrunc ip s)"
  unfolding itrunc_def Let_def by (intro keeps; simp)

lemma keeps_readi [keeps]: "keeps_keys s (readi ip dst off n s)"
proof -
  have "keeps_keys s (readi_loop k ip dst off n tot got s)" for s :: "'z kfs_scheme" and k dst off n tot got
    by (induction k arbitrary: dst off tot got s) (auto simp: Let_def intro!: keeps)
  then show ?thesis unfolding readi_def Let_def by (intro keeps)
qed

lemma keeps_writei [keeps]: "keeps_keys s (writei ip src off n s)"
proof -
  have loop: "keeps_keys s (writei_loop k ip src off n tot s)" for s :: "'z kfs_scheme" and k src off n tot
    by (induction k arbitrary: src off tot s) (auto simp: Let_def intro!: keeps)
  show ?thesis unfolding writei_def by (intro keeps loop; simp)
qed

section \<open>Uniqueness\<close>

definition unique_inodes :: "(u32 \<times> u32 \<times> int) list \<Rightarrow> bool" where
  "unique_inodes ks \<longleftrightarrow> (\<forall>i < length ks. \<forall>j < length ks. snd (snd (ks ! i)) > 0 \<and> snd (snd (ks ! j)) > 0 \<and>
     fst (ks ! i) = fst (ks ! j) \<and> fst (snd (ks ! i)) = fst (snd (ks ! j)) \<longrightarrow> i = j)"

lemma unique_inodesI:
  assumes "\<And>i j. i < length ks \<Longrightarrow> j < length ks \<Longrightarrow> snd (snd (ks ! i)) > 0 \<Longrightarrow> snd (snd (ks ! j)) > 0 \<Longrightarrow>
    fst (ks ! i) = fst (ks ! j) \<Longrightarrow> fst (snd (ks ! i)) = fst (snd (ks ! j)) \<Longrightarrow> i = j"
  shows "unique_inodes ks"
  using assms unfolding unique_inodes_def by blast

lemma unique_inodesD:
  assumes "unique_inodes ks" and "i < length ks" and "j < length ks" and "snd (snd (ks ! i)) > 0" and "snd (snd (ks ! j)) > 0"
    and "fst (ks ! i) = fst (ks ! j)" and "fst (snd (ks ! i)) = fst (snd (ks ! j))"
  shows "i = j"
  using assms unfolding unique_inodes_def by blast

lemma unique_inodes_ref:
  assumes "unique_inodes ks" and "snd (snd (ks ! ip)) > 0"
  shows "unique_inodes (ks[ip := (fst (ks ! ip), fst (snd (ks ! ip)), r)])" (is "unique_inodes ?k")
proof (rule unique_inodesI)
  have f: "fst (?k ! i) = fst (ks ! i)" "fst (snd (?k ! i)) = fst (snd (ks ! i))" "snd (snd (?k ! i)) > 0 \<Longrightarrow> snd (snd (ks ! i)) > 0"
    if "i < length ks" for i using that assms(2) by (auto simp: nth_update_if split: if_splits)
  fix i j assume a: "i < length ?k" "j < length ?k" "snd (snd (?k ! i)) > 0" "snd (snd (?k ! j)) > 0"
    "fst (?k ! i) = fst (?k ! j)" "fst (snd (?k ! i)) = fst (snd (?k ! j))"
  then have "i < length ks" "j < length ks" by simp_all
  with a f [of i] f [of j] show "i = j" by (intro unique_inodesD [OF assms(1)]) simp_all
qed

lemma unique_inodes_new:
  assumes "unique_inodes ks" and "\<forall>k \<in> set ks. \<not> (snd (snd k) > 0 \<and> fst k = dev \<and> fst (snd k) = inum)"
  shows "unique_inodes (ks[ip := (dev, inum, r)])" (is "unique_inodes ?k")
proof (rule unique_inodesI)
  have f: "?k ! i = (if ip = i then (dev, inum, r) else ks ! i)" if "i < length ks" for i using that by (simp add: nth_update_if)
  have n: "\<not> (snd (snd (ks ! i)) > 0 \<and> fst (ks ! i) = dev \<and> fst (snd (ks ! i)) = inum)" if "i < length ks" for i
    using assms(2) that by simp
  fix i j assume a: "i < length ?k" "j < length ?k" "snd (snd (?k ! i)) > 0" "snd (snd (?k ! j)) > 0"
    "fst (?k ! i) = fst (?k ! j)" "fst (snd (?k ! i)) = fst (snd (?k ! j))"
  then have l: "i < length ks" "j < length ks" by simp_all
  show "i = j"
  proof (cases "ip = i \<or> ip = j")
    case True
    then show ?thesis using a(3-6) n [OF l(1)] n [OF l(2)] unfolding f [OF l(1)] f [OF l(2)] by (auto split: if_splits)
  next
    case False
    with a(3-6) show ?thesis unfolding f [OF l(1)] f [OF l(2)] by (intro unique_inodesD [OF assms(1) l]) simp_all
  qed
qed

lemma ikeys_upd: "ip < length (kf_itable s) \<Longrightarrow> upd_inode ip f s = Ret () t \<Longrightarrow> ikeys t = (ikeys s)[ip := ikey (f (get_inode ip s))]"
  by (auto simp: upd_inode_def ikeys_def map_update get_inode_def)

lemma iget_keys:
  assumes "iget dev inum s = Ret ip t" and "unique_inodes (ikeys s)"
  shows "unique_inodes (ikeys t)" and "ip < length (kf_itable t)" and "i_dev (get_inode ip t) = dev" and "i_inum (get_inode ip t) = inum"
    and "i_ref (get_inode ip t) > 0"
proof -
  have "unique_inodes (ikeys t) \<and> ip < length (kf_itable t) \<and> i_dev (get_inode ip t) = dev \<and> i_inum (get_inode ip t) = inum \<and> i_ref (get_inode ip t) > 0"
  proof (cases "scan_idx (iget_hit dev inum) (kf_itable s)")
    case (Some k)
    note k = scan_idxD [OF Some]
    let ?t = "s\<lparr>kf_itable := (kf_itable s)[k := (kf_itable s ! k)\<lparr>i_ref := i_ref (kf_itable s ! k) + 1\<rparr>]\<rparr>"
    have t: "ip = k" "t = ?t" using assms(1) Some by (auto simp: iget_def upd_inode_def)
    have "ikeys ?t = (ikeys s)[k := (fst (ikeys s ! k), fst (snd (ikeys s ! k)), i_ref (kf_itable s ! k) + 1)]"
      using k(1) by (simp add: ikeys_def map_update ikey_def)
    moreover have "snd (snd (ikeys s ! k)) > 0" using k by (simp add: ikeys_def ikey_def iget_hit_def)
    ultimately show ?thesis using unique_inodes_ref [OF assms(2)] k by (simp add: t get_inode_def iget_hit_def)
  next
    case None
    then have none: "\<forall>i \<in> set (kf_itable s). \<not> iget_hit dev inum i" by (simp add: scan_idx_None)
    from assms(1) None obtain k where k: "scan_idx (\<lambda>i. i_ref i = 0) (kf_itable s) = Some k" by (auto simp: iget_def split: option.splits)
    let ?t = "s\<lparr>kf_itable := (kf_itable s)[k := (kf_itable s ! k)\<lparr>i_dev := dev, i_inum := inum, i_ref := 1, i_valid := False\<rparr>]\<rparr>"
    have t: "ip = k" "t = ?t" using assms(1) None k by (auto simp: iget_def upd_inode_def)
    have "ikeys ?t = (ikeys s)[k := (dev, inum, 1)]" by (simp add: ikeys_def map_update ikey_def)
    moreover have "\<forall>x \<in> set (ikeys s). \<not> (snd (snd x) > 0 \<and> fst x = dev \<and> fst (snd x) = inum)"
      using none by (auto simp: ikeys_def ikey_def iget_hit_def)
    ultimately show ?thesis using unique_inodes_new [OF assms(2)] scan_idxD(1) [OF k] by (simp add: t get_inode_def)
  qed
  then show "unique_inodes (ikeys t)" and "ip < length (kf_itable t)" and "i_dev (get_inode ip t) = dev" and "i_inum (get_inode ip t) = inum"
    and "i_ref (get_inode ip t) > 0" by blast+
qed

text \<open>
  The operations that a thread of the kernel may run on the table. \<open>idup\<close> and \<open>iput\<close> take an entry that is in
  use: a caller has a reference to it.
\<close>

inductive itab_step :: "'z kfs_scheme \<Rightarrow> 'z kfs_scheme \<Rightarrow> bool" where
  step_iget: "iget dev inum s = Ret ip t \<Longrightarrow> itab_step s t"
| step_ialloc: "ialloc dev type s = Ret r t \<Longrightarrow> itab_step s t"
| step_idup: "ip < length (kf_itable s) \<Longrightarrow> i_ref (get_inode ip s) > 0 \<Longrightarrow> idup ip s = Ret r t \<Longrightarrow> itab_step s t"
| step_iput: "ip < length (kf_itable s) \<Longrightarrow> i_ref (get_inode ip s) > 0 \<Longrightarrow> iput ip s = Ret () t \<Longrightarrow> itab_step s t"
| step_ilock: "ilock ip s = Ret () t \<Longrightarrow> itab_step s t"
| step_iunlock: "iunlock ip s = Ret () t \<Longrightarrow> itab_step s t"
| step_iupdate: "iupdate ip s = Ret () t \<Longrightarrow> itab_step s t"
| step_itrunc: "itrunc ip s = Ret () t \<Longrightarrow> itab_step s t"
| step_readi: "readi ip dst off n s = Ret r t \<Longrightarrow> itab_step s t"
| step_writei: "writei ip src off n s = Ret k t \<Longrightarrow> itab_step s t"

definition itab_init :: "'z kfs_scheme \<Rightarrow> bool" where
  "itab_init s \<longleftrightarrow> length (kf_itable s) = NINODE \<and> (\<forall>i \<in> set (kf_itable s). i_ref i = 0)"

lemma keepsD: "keeps_keys s r \<Longrightarrow> r = Ret a t \<Longrightarrow> ikeys t = ikeys s"
  by (simp add: keeps_keys_def)

lemma ialloc_unique:
  fixes s t :: "'z kfs_scheme"
  assumes "ialloc dev type s = Ret r t" and "unique_inodes (ikeys s)"
  shows "unique_inodes (ikeys t)"
proof -
  have "ialloc_loop k dev type inum s = Ret r t \<Longrightarrow> unique_inodes (ikeys s) \<Longrightarrow> unique_inodes (ikeys t)" for k inum and s :: "'z kfs_scheme"
  proof (induction k arbitrary: inum s)
    case (Suc k)
    show ?case
    proof (cases "inum < sb_ninodes (kf_sb s)")
      case True
      let ?ok = "\<lambda>q. unique_inodes (ikeys q)"
      obtain bp u where u: "bread dev (IBLOCK inum (kf_sb s)) s = Ret bp u"
        using Suc.prems(1) True by (auto elim!: kbind_RetD)
      have ku: "ikeys u = ikeys s" using keeps_cache(1) u by (rule keepsD)
      show ?thesis
      proof (cases "get16 (dinode_off inum) (b_data (kb_buf u bp)) = 0")
        case hit: True
        let ?d = "put16 (dinode_off inum) type (put_at (dinode_off inum) (replicate DINODE_SIZE 0) (b_data (kb_buf u bp)))"
        obtain v1 v2 v ip where v: "set_data bp ?d u = Ret () v1" "log_write bp v1 = Ret () v2" "brelse bp v2 = Ret () v" "iget dev inum v = Ret ip t"
          using Suc.prems(1) True u hit by (auto elim!: kbind_RetD kseq_RetD)
        have "ikeys v = ikeys u"
          using keepsD [OF keeps_cache(3) v(1)] keepsD [OF keeps_cache(4) v(2)] keepsD [OF keeps_cache(2) v(3)] by simp
        then show ?thesis using iget_keys(1) [OF v(4)] Suc.prems(2) ku by simp
      next
        case miss: False
        obtain v where v: "brelse bp u = Ret () v" "ialloc_loop k dev type (inum + 1) v = Ret r t"
          using Suc.prems(1) True u miss by (auto elim!: kseq_RetD)
        have "ikeys v = ikeys u" using keeps_cache(2) v(1) by (rule keepsD)
        then show ?thesis using Suc.IH [OF v(2)] Suc.prems(2) ku by simp
      qed
    next
      case False
      have "keeps_keys s (kseq (kprintk (''ialloc: no inodes'' @ [CHR 0x0A]) []) (kret None) s)" by (intro keeps)
      then show ?thesis using Suc.prems False by (auto dest: keepsD)
    qed
  qed simp
  then show ?thesis using assms unfolding ialloc_def by blast
qed

lemma idup_unique:
  assumes "idup ip s = Ret r t" and "ip < length (kf_itable s)" and "i_ref (get_inode ip s) > 0" and "unique_inodes (ikeys s)"
  shows "unique_inodes (ikeys t)"
proof -
  have "ikeys t = (ikeys s)[ip := (fst (ikeys s ! ip), fst (snd (ikeys s ! ip)), i_ref (get_inode ip s) + 1)]"
    using assms(1,2) by (auto simp: idup_def upd_inode_def ikeys_def map_update ikey_def get_inode_def)
  then show ?thesis using unique_inodes_ref [OF assms(4), of ip] assms(2,3) by (simp add: ikeys_def ikey_def get_inode_def)
qed

lemma iput_unique:
  fixes s t :: "'z kfs_scheme"
  assumes run: "iput ip s = Ret () t" and ip: "ip < length (kf_itable s)" "i_ref (get_inode ip s) > 0" and inv: "unique_inodes (ikeys s)"
  shows "unique_inodes (ikeys t)"
proof -
  let ?last = "i_ref (get_inode ip s) = 1 \<and> i_valid (get_inode ip s) \<and> i_nlink (get_inode ip s) = 0"
  let ?f = "if ?last then kseq (lock_inode ip) (kseq (itrunc ip) (kseq (upd_inode ip (\<lambda>i. i\<lparr>i_valid := False\<rparr>)) (unlock_inode ip))) else kret ()"
  let ?g = "if ?last then ifree (i_dev (get_inode ip s)) (i_inum (get_inode ip s)) else kret ()"
  have f: "keeps_keys q (?f q)" for q :: "'z kfs_scheme" by (intro keeps) simp
  have g: "keeps_keys q (?g q)" for q :: "'z kfs_scheme" by (intro keeps)
  obtain u v where u: "?f s = Ret () u" and v: "upd_inode ip (\<lambda>i. i\<lparr>i_ref := i_ref i - 1\<rparr>) u = Ret () v" and t: "?g v = Ret () t"
    using run unfolding iput_def Let_def by (elim kseq_RetD)
  have ku: "ikeys u = ikeys s" using f u by (rule keepsD)
  have kt: "ikeys t = ikeys v" using g t by (rule keepsD)
  have len: "ip < length (kf_itable u)" using ku ip(1) by (metis ikeys_def length_map)
  have "ikeys v = (ikeys u)[ip := (fst (ikeys u ! ip), fst (snd (ikeys u ! ip)), i_ref (get_inode ip u) - 1)]"
    using v len by (auto simp: upd_inode_def ikeys_def map_update ikey_def get_inode_def)
  moreover have "snd (snd (ikeys u ! ip)) > 0" unfolding ku using ip by (simp add: ikeys_def ikey_def get_inode_def)
  ultimately show ?thesis using unique_inodes_ref [of "ikeys u" ip] inv by (simp add: ku kt)
qed

interpretation itab: invariant_system itab_init itab_step "\<lambda>s. unique_inodes (ikeys s)"
proof
  fix s :: "'z kfs_scheme" assume "itab_init s"
  then show "unique_inodes (ikeys s)" by (intro unique_inodesI) (auto simp: itab_init_def ikeys_def ikey_def)
next
  fix s t :: "'z kfs_scheme" assume "unique_inodes (ikeys s)" and "itab_step s t"
  then show "unique_inodes (ikeys t)"
    by (cases rule: itab_step.cases [OF \<open>itab_step s t\<close>])
      (auto dest: iget_keys(1) ialloc_unique idup_unique iput_unique keepsD [OF keeps_inode(1)] keepsD [OF keeps_inode(2)]
        keepsD [OF keeps_inode(3)] keepsD [OF keeps_itrunc] keepsD [OF keeps_readi] keepsD [OF keeps_writei])
qed

text \<open>
  C32: two entries of the inode table in use never stand for the same inode, whatever sequence of operations
  the kernel runs, starting from the empty table.
\<close>

theorem inode_table_unique:
  assumes "reach itab_init itab_step s"
  shows "card {ip. ip < length (kf_itable s) \<and> i_ref (get_inode ip s) > 0 \<and> i_dev (get_inode ip s) = dev \<and> i_inum (get_inode ip s) = inum} \<le> 1"
proof -
  note u = itab.reach_inv [OF assms]
  have "i = j" if "i \<in> {ip. ip < length (kf_itable s) \<and> i_ref (get_inode ip s) > 0 \<and> i_dev (get_inode ip s) = dev \<and> i_inum (get_inode ip s) = inum}"
    "j \<in> {ip. ip < length (kf_itable s) \<and> i_ref (get_inode ip s) > 0 \<and> i_dev (get_inode ip s) = dev \<and> i_inum (get_inode ip s) = inum}" for i j
    using that by (intro unique_inodesD [OF u]) (auto simp: ikeys_def ikey_def get_inode_def)
  then show ?thesis by (intro card_le_Suc0_iff_eq [THEN iffD2, folded One_nat_def]) auto
qed

definition demo_iget :: "kfs \<Rightarrow> kfs" where
  "demo_iget s = (case iget ROOTDEV 5 s of Ret ip t \<Rightarrow> t | _ \<Rightarrow> s)"

lemma demo_iget_table:
  "kf_itable (demo_iget (demo_iget demo_kfs)) = zero_inode\<lparr>i_dev := ROOTDEV, i_inum := 5, i_ref := 2\<rparr> # replicate 49 zero_inode"
  "iget ROOTDEV 5 demo_kfs = Ret 0 (demo_iget demo_kfs)"
  "iget ROOTDEV 5 (demo_iget demo_kfs) = Ret 0 (demo_iget (demo_iget demo_kfs))"
proof -
  have tab: "kf_itable demo_kfs = zero_inode # replicate 49 zero_inode"
    by (simp add: demo_kfs_def NINODE_def) (simp add: numeral_nat)
  have z: "i_ref zero_inode = 0" "\<not> iget_hit d n zero_inode" for d n by (simp_all add: zero_inode_def iget_hit_def)
  have "scan_idx (iget_hit ROOTDEV 5) (kf_itable demo_kfs) = None" by (simp add: scan_idx_None tab z)
  then have 1: "iget ROOTDEV 5 demo_kfs = Ret 0 (demo_kfs\<lparr>kf_itable := zero_inode\<lparr>i_dev := ROOTDEV, i_inum := 5, i_ref := 1, i_valid := False\<rparr> # replicate 49 zero_inode\<rparr>)"
    by (simp add: iget_def tab z upd_inode_def)
  then show r1: "iget ROOTDEV 5 demo_kfs = Ret 0 (demo_iget demo_kfs)" by (simp add: demo_iget_def)
  have t1: "kf_itable (demo_iget demo_kfs) = zero_inode\<lparr>i_dev := ROOTDEV, i_inum := 5, i_ref := 1, i_valid := False\<rparr> # replicate 49 zero_inode"
    using 1 r1 by simp
  have 2: "iget ROOTDEV 5 (demo_iget demo_kfs) = Ret 0 ((demo_iget demo_kfs)\<lparr>kf_itable := zero_inode\<lparr>i_dev := ROOTDEV, i_inum := 5, i_ref := 2, i_valid := False\<rparr> # replicate 49 zero_inode\<rparr>)"
    by (simp add: iget_def t1 iget_hit_def upd_inode_def)
  then show r2: "iget ROOTDEV 5 (demo_iget demo_kfs) = Ret 0 (demo_iget (demo_iget demo_kfs))" by (simp add: demo_iget_def)
  show "kf_itable (demo_iget (demo_iget demo_kfs)) = zero_inode\<lparr>i_dev := ROOTDEV, i_inum := 5, i_ref := 2\<rparr> # replicate 49 zero_inode"
    using 2 r2 by (simp add: zero_inode_def)
qed

theorem inode_table_unique_witness:
  "i_ref (get_inode 0 (demo_iget (demo_iget demo_kfs))) = 2 \<and>
   card {ip. ip < length (kf_itable (demo_iget (demo_iget demo_kfs))) \<and> i_ref (get_inode ip (demo_iget (demo_iget demo_kfs))) > 0 \<and>
     i_dev (get_inode ip (demo_iget (demo_iget demo_kfs))) = ROOTDEV \<and> i_inum (get_inode ip (demo_iget (demo_iget demo_kfs))) = 5} \<le> 1"
proof
  show "i_ref (get_inode 0 (demo_iget (demo_iget demo_kfs))) = 2" by (simp add: get_inode_def demo_iget_table(1))
  have "itab_init demo_kfs" by (simp add: itab_init_def demo_kfs_def zero_inode_def)
  then have "reach itab_init itab_step demo_kfs" by (rule reach_init)
  then have "reach itab_init itab_step (demo_iget demo_kfs)" using step_iget [OF demo_iget_table(2)] by (rule reach_step)
  then have "reach itab_init itab_step (demo_iget (demo_iget demo_kfs))" using step_iget [OF demo_iget_table(3)] by (rule reach_step)
  then show "card {ip. ip < length (kf_itable (demo_iget (demo_iget demo_kfs))) \<and> i_ref (get_inode ip (demo_iget (demo_iget demo_kfs))) > 0 \<and>
     i_dev (get_inode ip (demo_iget (demo_iget demo_kfs))) = ROOTDEV \<and> i_inum (get_inode ip (demo_iget (demo_iget demo_kfs))) = 5} \<le> 1"
    by (rule inode_table_unique)
qed

section \<open>Inodes on disk\<close>

lemma fold_put32:
  assumes "off + 4 * m \<le> length d"
  shows "length (fold (\<lambda>i. put32 (off + 4 * i) (as ! i)) [0..<m] d) = length d \<and>
    (\<forall>i < m. get32 (off + 4 * i) (fold (\<lambda>i. put32 (off + 4 * i) (as ! i)) [0..<m] d) = as ! i) \<and>
    (\<forall>p n. p + n \<le> length d \<and> (p + n \<le> off \<or> off + 4 * m \<le> p) \<longrightarrow>
      slice p n (fold (\<lambda>i. put32 (off + 4 * i) (as ! i)) [0..<m] d) = slice p n d)"
  using assms
proof (induction m)
  case (Suc m)
  let ?e = "fold (\<lambda>i. put32 (off + 4 * i) (as ! i)) [0..<m] d"
  have IH: "length ?e = length d" "\<And>i. i < m \<Longrightarrow> get32 (off + 4 * i) ?e = as ! i"
    "\<And>p n. p + n \<le> length d \<Longrightarrow> p + n \<le> off \<or> off + 4 * m \<le> p \<Longrightarrow> slice p n ?e = slice p n d" using Suc by auto
  have "get32 (off + 4 * i) (put32 (off + 4 * m) (as ! m) ?e) = as ! i" if "i < Suc m" for i
  proof (cases "i = m")
    case True
    then show ?thesis using Suc.prems IH(1) by simp
  next
    case False
    then show ?thesis using that Suc.prems IH(1,2) by (simp add: get_put_other(1))
  qed
  moreover have "slice p n (put32 (off + 4 * m) (as ! m) ?e) = slice p n d" if "p + n \<le> length d" "p + n \<le> off \<or> off + 4 * Suc m \<le> p" for p n
    using that Suc.prems IH(1) IH(3) [of p n] by (auto simp: put32_def slice_put_other)
  ultimately show ?case using Suc.prems IH(1) by simp
qed simp

lemma put_dinode_get:
  assumes len: "off + DINODE_SIZE \<le> length d" and addrs: "length (di_addrs di) = NDIRECT + 1"
  shows "length (put_dinode off di d) = length d" and "get_dinode off (put_dinode off di d) = di"
    and "p + n \<le> length d \<Longrightarrow> p + n \<le> off \<or> off + DINODE_SIZE \<le> p \<Longrightarrow> slice p n (put_dinode off di d) = slice p n d"
proof -
  note sz = len [unfolded DINODE_SIZE_def]
  let ?b = "put32 (off + 8) (di_size di) (put16 (off + 6) (di_nlink di) (put16 (off + 4) (di_minor di)
         (put16 (off + 2) (di_major di) (put16 off (di_type di) d))))"
  have lb: "length ?b = length d" using sz by simp
  have f: "off + 12 + 4 * (NDIRECT + 1) \<le> length ?b" using sz lb by (simp add: NDIRECT_def)
  note F = fold_put32 [OF f, of "di_addrs di", folded put_dinode_def]
  show l: "length (put_dinode off di d) = length d" using F lb by simp
  have hd: "get16 q (put_dinode off di d) = get16 q ?b" if "q + 2 \<le> off + 12" for q
    using that F lb sz by (simp add: get16_def)
  have hd32: "get32 (off + 8) (put_dinode off di d) = get32 (off + 8) ?b" using F lb sz by (simp add: get32_def)
  have "map (\<lambda>i. get32 (off + 12 + 4 * i) (put_dinode off di d)) [0..<NDIRECT + 1] = di_addrs di"
    using F addrs by (intro nth_equalityI) (auto simp del: upt_Suc)
  moreover have "get16 off ?b = di_type di" "get16 (off + 2) ?b = di_major di" "get16 (off + 4) ?b = di_minor di" "get16 (off + 6) ?b = di_nlink di"
    "get32 (off + 8) ?b = di_size di" using sz by (simp_all add: get_put_other)
  ultimately show "get_dinode off (put_dinode off di d) = di" by (simp add: get_dinode_def hd hd32)
  show "slice p n (put_dinode off di d) = slice p n d" if "p + n \<le> length d" "p + n \<le> off \<or> off + DINODE_SIZE \<le> p"
  proof -
    have "slice p n (put_dinode off di d) = slice p n ?b" using F lb that by (auto simp: NDIRECT_def DINODE_SIZE_def)
    also have "\<dots> = slice p n d" using that sz by (auto simp: DINODE_SIZE_def put32_def put16_def slice_put_other)
    finally show ?thesis .
  qed
qed

text \<open>The inode that is on disk at a number.\<close>

definition disk_inode :: "'z kfs_scheme \<Rightarrow> u32 \<Rightarrow> dinode" where
  "disk_inode s inum = get_dinode (dinode_off inum) (view s (IBLOCK inum (kf_sb s)))"

definition dinode_of :: "inode \<Rightarrow> dinode" where
  "dinode_of i = \<lparr>di_type = i_type i, di_major = i_major i, di_minor = i_minor i, di_nlink = i_nlink i, di_size = i_size i, di_addrs = i_addrs i\<rparr>"

lemma dinode_off_bound: "dinode_off inum + DINODE_SIZE \<le> BSIZE"
proof -
  have "unat inum mod 16 < 16" by simp
  then show ?thesis by (simp add: dinode_off_def IPB_def DINODE_SIZE_def BSIZE_def)
qed

lemma get_dinode_cong:
  assumes "slice off DINODE_SIZE d = slice off DINODE_SIZE e" and "off + DINODE_SIZE \<le> length d" and "length e = length d"
  shows "get_dinode off d = get_dinode off e"
proof -
  have sub: "slice (off + p) n d = slice (off + p) n e" if "p + n \<le> DINODE_SIZE" for p n
  proof -
    have "slice (off + p) n x = slice p n (slice off DINODE_SIZE x)" if "off + DINODE_SIZE \<le> length x" for x :: "u8 list"
      using that \<open>p + n \<le> DINODE_SIZE\<close> by (intro nth_equalityI) (simp_all add: add.assoc)
    then show ?thesis using assms by simp
  qed
  show ?thesis using sub [of 0 2] sub [of 2 2] sub [of 4 2] sub [of 6 2] sub [of 8 4]
    by (auto simp: get_dinode_def get16_def get32_def DINODE_SIZE_def NDIRECT_def add.assoc intro!: sub [unfolded DINODE_SIZE_def] arg_cong [of _ _ word_of_bytes])
qed

lemma disk_inode_other:
  assumes "length d = BSIZE" and "inum \<noteq> m" and "length (di_addrs di) = NDIRECT + 1"
    and "IBLOCK m sb = IBLOCK inum sb"
  shows "get_dinode (dinode_off m) (put_dinode (dinode_off inum) di d) = get_dinode (dinode_off m) d"
proof (rule get_dinode_cong)
  have b: "dinode_off inum + DINODE_SIZE \<le> length d" "dinode_off m + DINODE_SIZE \<le> length d" using dinode_off_bound assms(1) by simp_all
  have "m div 16 = inum div 16" using assms(4) by (simp add: IBLOCK_def IPB_def DINODE_SIZE_def BSIZE_def)
  then have "unat (m div 16) = unat (inum div 16)" by simp
  then have "unat m div 16 = unat inum div 16" by (simp add: unat_div)
  moreover have "unat m \<noteq> unat inum" using assms(2) by (simp add: word_unat_eq_iff [symmetric] eq_commute)
  ultimately have "unat m mod 16 \<noteq> unat inum mod 16" by (metis div_mod_decomp)
  then have "dinode_off m + DINODE_SIZE \<le> dinode_off inum \<or> dinode_off inum + DINODE_SIZE \<le> dinode_off m"
    by (auto simp: dinode_off_def IPB_def DINODE_SIZE_def BSIZE_def)
  then show "slice (dinode_off m) DINODE_SIZE (put_dinode (dinode_off inum) di d) = slice (dinode_off m) DINODE_SIZE d"
    using put_dinode_get(3) [OF b(1) assms(3) b(2)] by simp
  show "dinode_off m + DINODE_SIZE \<le> length (put_dinode (dinode_off inum) di d)" "length d = length (put_dinode (dinode_off inum) di d)"
    using put_dinode_get(1) [OF b(1) assms(3)] b by simp_all
qed

lemma length_view: "log_inv H P s \<Longrightarrow> length (view s n) = BSIZE"
  by (rule view_length [OF log_invD(1)])

lemma itable_upd [simp]:
  "log_inv H P (s\<lparr>kf_itable := x\<rparr>) = log_inv H P s" "view (s\<lparr>kf_itable := x\<rparr>) = view s" "can_log k (s\<lparr>kf_itable := x\<rparr>) = can_log k s"
  by (simp_all add: log_inv_def bc_inv_def buf_ok_def Let_def myproc_def log_pins_def can_log_def view_def fun_eq_iff split: option.split)

lemma iupdate_ok:
  assumes inv: "log_inv {} P s" and c: "can_log (Suc k) s" and dev: "i_dev (get_inode ip s) = ROOTDEV"
    and addrs: "length (i_addrs (get_inode ip s)) = NDIRECT + 1" and out: "\<not> in_log (kl_log s) (IBLOCK (i_inum (get_inode ip s)) (kf_sb s))"
  defines "n \<equiv> IBLOCK (i_inum (get_inode ip s)) (kf_sb s)"
  shows "\<exists>t P'. iupdate ip s = Ret () t \<and> log_inv {} P' t \<and> can_log k t \<and> log_step s t \<and>
    view t = (view s)(n := put_dinode (dinode_off (i_inum (get_inode ip s))) (dinode_of (get_inode ip s)) (view s n))"
proof -
  let ?i = "get_inode ip s"
  let ?f = "put_dinode (dinode_off (i_inum ?i)) (dinode_of ?i)"
  have "length (?f d) = BSIZE" if "length d = BSIZE" for d
    using put_dinode_get(1) [of _ d "dinode_of ?i"] dinode_off_bound that addrs by (simp add: dinode_of_def)
  with log_edit_ok [OF inv _ c _ out, of ?f] obtain t P' where
    t: "log_edit n ?f s = Ret () t" "log_inv {} P' t" "can_log k t" "log_step s t" "view t = (view s)(n := ?f (view s n))"
    unfolding n_def by (metis card.empty empty_iff le0)
  have "iupdate ip s = log_edit n ?f s" by (simp add: iupdate_def log_edit_def dev n_def dinode_of_def Let_def)
  with t show ?thesis by auto
qed

lemma brelse_frame:
  assumes "brelse b s = Ret u t"
  shows "brelse b (s\<lparr>kf_itable := x\<rparr>) = Ret u (t\<lparr>kf_itable := x\<rparr>)"
  using assms
  by (auto simp: brelse_def release_buf_def releasesleep_def holding_buf_def holdingsleep_def myproc_def kseq_def kbind_def split: if_splits)


definition demo_open :: kfs where
  "demo_open = demo_kfs\<lparr>kf_itable := zero_inode\<lparr>i_dev := ROOTDEV, i_inum := 5, i_ref := 1, i_valid := True, i_type := T_FILE,
     i_nlink := 1, i_size := 10\<rparr> # replicate 49 zero_inode\<rparr>"


end
