(* ===== verification/Dir.thy ===== *)
theory Dir
  imports Fs
begin

text \<open>
  Directories and path names, the upper layers of \<open>kernel/fs.c\<close>. A path in a kernel
  buffer is the list of its bytes before the terminating null; the name buffer of
  \<open>DIRSIZ\<close> bytes is the list of the bytes before its null, if it has one. The facts
  show how a path is split into names.
\<close>

section \<open>The code\<close>

definition DIRSIZ :: nat where "DIRSIZ = 14"
definition DIRENT_SIZE :: nat where "DIRENT_SIZE = 16"

record dirent =
  de_inum :: u16
  de_name :: "u8 list"

definition get_dirent :: "u8 list \<Rightarrow> dirent" where
  "get_dirent bs = \<lparr>de_inum = get16 0 bs, de_name = slice 2 DIRSIZ bs\<rparr>"

definition dirent_bytes :: "dirent \<Rightarrow> u8 list" where
  "dirent_bytes de = bytes_of_word 2 (de_inum de) @ de_name de"

text \<open>\<open>strncmp\<close> and \<open>strncpy\<close> on bytes; the end of the list is the terminating null.\<close>

fun strncmp_bytes :: "nat \<Rightarrow> u8 list \<Rightarrow> u8 list \<Rightarrow> int" where
  "strncmp_bytes 0 p q = 0"
| "strncmp_bytes (Suc n) p q = (let a = (case p of [] \<Rightarrow> 0 | x # _ \<Rightarrow> x); b = (case q of [] \<Rightarrow> 0 | x # _ \<Rightarrow> x) in
     if a \<noteq> 0 \<and> a = b then strncmp_bytes n (tl p) (tl q) else uint a - uint b)"

definition namecmp :: "u8 list \<Rightarrow> u8 list \<Rightarrow> int" where
  "namecmp p q = strncmp_bytes DIRSIZ p q"

definition strncpy_name :: "u8 list \<Rightarrow> u8 list" where
  "strncpy_name name = (let c = take DIRSIZ (cstr name) in c @ replicate (DIRSIZ - length c) 0)"

primrec dirlookup_loop :: "nat \<Rightarrow> nat \<Rightarrow> u8 list \<Rightarrow> u32 \<Rightarrow> ('z kfs_scheme, (nat \<times> u32) option) kop" where
  "dirlookup_loop 0 dp name off = (\<lambda>s. Fault)"
| "dirlookup_loop (Suc k) dp name off = (\<lambda>s.
     if off < i_size (get_inode dp s)
     then kbind (readi dp VarDst off (of_nat DIRENT_SIZE)) (\<lambda>(r, bs).
       if r \<noteq> int DIRENT_SIZE then kpanic ''dirlookup read''
       else let de = get_dirent bs in
         if de_inum de = 0 then dirlookup_loop k dp name (off + of_nat DIRENT_SIZE)
         else if namecmp name (de_name de) = 0
         then (\<lambda>s. kbind (iget (i_dev (get_inode dp s)) (ucast (de_inum de))) (\<lambda>ip. kret (Some (ip, off))) s)
         else dirlookup_loop k dp name (off + of_nat DIRENT_SIZE)) s
     else Ret None s)"

text \<open>The inode with the offset of its entry, which the code stores through \<open>poff\<close>.\<close>

definition dirlookup :: "nat \<Rightarrow> u8 list \<Rightarrow> ('z kfs_scheme, (nat \<times> u32) option) kop" where
  "dirlookup dp name = (\<lambda>s.
     if i_type (get_inode dp s) \<noteq> T_DIR then Panic ''dirlookup not DIR''
     else dirlookup_loop (Suc (unat (i_size (get_inode dp s)))) dp name 0 s)"

primrec dirlink_loop :: "nat \<Rightarrow> nat \<Rightarrow> u32 \<Rightarrow> ('z kfs_scheme, u32) kop" where
  "dirlink_loop 0 dp off = (\<lambda>s. Fault)"
| "dirlink_loop (Suc k) dp off = (\<lambda>s.
     if off < i_size (get_inode dp s)
     then kbind (readi dp VarDst off (of_nat DIRENT_SIZE)) (\<lambda>(r, bs).
       if r \<noteq> int DIRENT_SIZE then kpanic ''dirlink read''
       else if de_inum (get_dirent bs) = 0 then kret off
       else dirlink_loop k dp (off + of_nat DIRENT_SIZE)) s
     else Ret off s)"

definition dirlink :: "nat \<Rightarrow> u8 list \<Rightarrow> u32 \<Rightarrow> ('z kfs_scheme, int) kop" where
  "dirlink dp name inum = kbind (dirlookup dp name) (\<lambda>r. case r of
       Some (ip, _) \<Rightarrow> kseq (iput ip) (kret (-1))
     | None \<Rightarrow> (\<lambda>s.
         kbind (dirlink_loop (Suc (unat (i_size (get_inode dp s)))) dp 0) (\<lambda>off.
           kbind (writei dp (VarSrc (dirent_bytes \<lparr>de_inum = ucast inum, de_name = strncpy_name name\<rparr>)) off (of_nat DIRENT_SIZE)) (\<lambda>r.
             kret (if r \<noteq> int DIRENT_SIZE then -1 else 0))) s))"

section \<open>Paths\<close>

abbreviation slash :: u8 where "slash \<equiv> 0x2F"

text \<open>The element copied to \<open>name\<close> and the rest of the path, or \<^const>\<open>None\<close> for the null pointer.\<close>

definition skipelem :: "u8 list \<Rightarrow> (u8 list \<times> u8 list) option" where
  "skipelem path = (let s = dropWhile (\<lambda>c. c = slash) path in
     if s = [] then None
     else let e = takeWhile (\<lambda>c. c \<noteq> slash) s in
       Some (if length e \<ge> DIRSIZ then take DIRSIZ e else e, dropWhile (\<lambda>c. c = slash) (drop (length e) s)))"

lemma skipelem_shorter: "skipelem path = Some (name, rest) \<Longrightarrow> length rest < length path"
proof -
  assume a: "skipelem path = Some (name, rest)"
  let ?s = "dropWhile (\<lambda>c. c = slash) path"
  let ?e = "takeWhile (\<lambda>c. c \<noteq> slash) ?s"
  have s: "?s \<noteq> []" using a unfolding skipelem_def Let_def by (cases "?s = []") simp_all
  then have "hd ?s \<noteq> slash" by (rule hd_dropWhile)
  then have "?e \<noteq> []" using s by (cases ?s) auto
  then have "0 < length ?e" by simp
  moreover have "rest = dropWhile (\<lambda>c. c = slash) (drop (length ?e) ?s)"
    using a unfolding skipelem_def Let_def if_not_P [OF s] by simp
  then have "length rest \<le> length ?s - length ?e"
    using length_dropWhile_le [of "\<lambda>c. c = slash" "drop (length ?e) ?s"] by simp
  moreover have "length ?s \<le> length path" by (rule length_dropWhile_le)
  moreover have "0 < length ?s" using s by simp
  ultimately show ?thesis by linarith
qed

text \<open>The loop of \<open>namex\<close>; \<open>name\<close> is the buffer that the last call of \<open>skipelem\<close> filled.\<close>

function namex_loop :: "bool \<Rightarrow> nat \<Rightarrow> u8 list \<Rightarrow> u8 list \<Rightarrow> ('z kfs_scheme, (nat \<times> u8 list) option) kop" where
  "namex_loop parent ip path name = (case skipelem path of
       None \<Rightarrow> if parent then kseq (iput ip) (kret None) else kret (Some (ip, name))
     | Some (name, rest) \<Rightarrow>
         kseq (ilock ip) (\<lambda>s.
           if i_type (get_inode ip s) \<noteq> T_DIR then kseq (iunlockput ip) (kret None) s
           else if i_nlink (get_inode ip s) = 0 then kseq (iunlockput ip) (kret None) s
           else if parent \<and> rest = [] then kseq (iunlock ip) (kret (Some (ip, name))) s
           else kbind (dirlookup ip name) (\<lambda>r. case r of
               None \<Rightarrow> kseq (iunlockput ip) (kret None)
             | Some (nxt, _) \<Rightarrow> kseq (iunlockput ip) (namex_loop parent nxt rest name)) s))"
  by pat_completeness auto
termination by (relation "measure (\<lambda>(parent, ip, path, name). length path)") (auto dest: skipelem_shorter)

definition namex :: "u8 list \<Rightarrow> bool \<Rightarrow> ('z kfs_scheme, (nat \<times> u8 list) option) kop" where
  "namex path parent = kbind
     (if path \<noteq> [] \<and> hd path = slash then iget ROOTDEV ROOTINO
      else (\<lambda>s. case p_cwd (myproc s) of None \<Rightarrow> Fault | Some ip \<Rightarrow> idup ip s))
     (\<lambda>ip. namex_loop parent ip path [])"

definition namei :: "u8 list \<Rightarrow> ('z kfs_scheme, nat option) kop" where
  "namei path = kbind (namex path False) (\<lambda>r. kret (map_option fst r))"

definition nameiparent :: "u8 list \<Rightarrow> ('z kfs_scheme, (nat \<times> u8 list) option) kop" where
  "nameiparent path = namex path True"

section \<open>Paths as lists of names\<close>

text \<open>The pieces of a path between slashes, and the names among them, cut to \<open>DIRSIZ\<close> bytes.\<close>

fun split_slash :: "u8 list \<Rightarrow> u8 list list" where
  "split_slash [] = [[]]"
| "split_slash (c # cs) = (if c = slash then [] # split_slash cs
     else case split_slash cs of [] \<Rightarrow> [[c]] | e # es \<Rightarrow> (c # e) # es)"

definition path_names :: "u8 list \<Rightarrow> u8 list list" where
  "path_names path = map (take DIRSIZ) (filter (\<lambda>e. e \<noteq> []) (split_slash path))"

text \<open>Resolution of a list of names: the loop of \<open>namex\<close> with the string already split.\<close>

primrec walk_names :: "bool \<Rightarrow> nat \<Rightarrow> u8 list list \<Rightarrow> u8 list \<Rightarrow> ('z kfs_scheme, (nat \<times> u8 list) option) kop" where
  "walk_names parent ip [] name = (if parent then kseq (iput ip) (kret None) else kret (Some (ip, name)))"
| "walk_names parent ip (n # ns) name =
     kseq (ilock ip) (\<lambda>s.
       if i_type (get_inode ip s) \<noteq> T_DIR then kseq (iunlockput ip) (kret None) s
       else if i_nlink (get_inode ip s) = 0 then kseq (iunlockput ip) (kret None) s
       else if parent \<and> ns = [] then kseq (iunlock ip) (kret (Some (ip, n))) s
       else kbind (dirlookup ip n) (\<lambda>r. case r of
           None \<Rightarrow> kseq (iunlockput ip) (kret None)
         | Some (nxt, _) \<Rightarrow> kseq (iunlockput ip) (walk_names parent nxt ns n)) s)"

lemma split_slash_append:
  "slash \<notin> set e \<Longrightarrow> split_slash (e @ slash # cs) = e # split_slash cs" "slash \<notin> set e \<Longrightarrow> split_slash e = [e]"
  by (induction e) auto

lemma path_names_slash: "path_names (slash # cs) = path_names cs"
  by (simp add: path_names_def)

lemma path_names_dropWhile: "path_names (dropWhile (\<lambda>c. c = slash) cs) = path_names cs"
  by (induction cs) (auto simp: path_names_slash)

lemma path_names_elem:
  assumes "s \<noteq> []" and "hd s \<noteq> slash"
  defines "e \<equiv> takeWhile (\<lambda>c. c \<noteq> slash) s"
  shows "path_names s = take DIRSIZ e # path_names (drop (length e) s)"
proof -
  have e: "slash \<notin> set e" "e \<noteq> []" using assms by (auto simp: e_def dest: set_takeWhileD) (cases s; simp)
  have d: "drop (length e) s = dropWhile (\<lambda>c. c \<noteq> slash) s" unfolding e_def by (simp add: dropWhile_eq_drop)
  have s: "s = e @ dropWhile (\<lambda>c. c \<noteq> slash) s" unfolding e_def by simp
  show ?thesis
  proof (cases "dropWhile (\<lambda>c. c \<noteq> slash) s")
    case Nil
    have "s = e" using s unfolding Nil by simp
    then have "split_slash s = [e]" using split_slash_append(2) [OF e(1)] by simp
    then show ?thesis using e(2) unfolding d Nil by (simp add: path_names_def)
  next
    case (Cons c cs)
    then have c: "c = slash" using hd_dropWhile [of "\<lambda>c. c \<noteq> slash" s] by simp
    have "split_slash s = e # split_slash cs" using s split_slash_append(1) [OF e(1)] unfolding Cons c by metis
    then show ?thesis using e(2) unfolding d Cons c path_names_slash by (simp add: path_names_def)
  qed
qed

lemma skipelem_names:
  shows "skipelem path = None \<Longrightarrow> path_names path = []"
    and "skipelem path = Some (n, rest) \<Longrightarrow> path_names path = n # path_names rest \<and> (path_names rest = [] \<longleftrightarrow> rest = [])"
proof -
  let ?s = "dropWhile (\<lambda>c. c = slash) path"
  let ?e = "takeWhile (\<lambda>c. c \<noteq> slash) ?s"
  have p: "path_names path = path_names ?s" by (rule path_names_dropWhile [symmetric])
  show "skipelem path = None \<Longrightarrow> path_names path = []"
    using p unfolding skipelem_def Let_def by (cases "?s = []") (simp_all add: path_names_def del: dropWhile_eq_Nil_conv)
  assume a: "skipelem path = Some (n, rest)"
  have s: "?s \<noteq> []" using a unfolding skipelem_def Let_def by (cases "?s = []") simp_all
  have h: "hd ?s \<noteq> slash" using s by (rule hd_dropWhile)
  have r: "rest = dropWhile (\<lambda>c. c = slash) (drop (length ?e) ?s)" and n: "n = take DIRSIZ ?e"
    using a unfolding skipelem_def Let_def if_not_P [OF s] by auto
  have "path_names path = n # path_names rest"
    unfolding n r path_names_dropWhile by (rule trans [OF p path_names_elem [OF s h]])
  moreover have "path_names rest = [] \<longleftrightarrow> rest = []"
  proof (cases "rest = []")
    case False
    then have "hd rest \<noteq> slash" unfolding r by (rule hd_dropWhile)
    then show ?thesis using path_names_elem [OF False] False by simp
  qed (simp add: path_names_def)
  ultimately show "path_names path = n # path_names rest \<and> (path_names rest = [] \<longleftrightarrow> rest = [])" by simp
qed

lemma namex_loop_walk: "(namex_loop parent ip path name :: ('z kfs_scheme, (nat \<times> u8 list) option) kop) = walk_names parent ip (path_names path) name"
proof (induction "length path" arbitrary: ip path name rule: less_induct)
  case less
  show ?case
  proof (cases "skipelem path")
    case None
    then show ?thesis using skipelem_names(1) [OF None] by (subst namex_loop.simps) simp
  next
    case (Some x)
    obtain n rest where x: "x = (n, rest)" by (cases x)
    note sk = skipelem_names(2) [OF Some [unfolded x]]
    have IH: "(namex_loop parent nxt rest n :: ('z kfs_scheme, (nat \<times> u8 list) option) kop) = walk_names parent nxt (path_names rest) n" for nxt
      using less [OF skipelem_shorter [OF Some [unfolded x]]] .
    have nm: "path_names path = n # path_names rest" and e: "rest = [] \<longleftrightarrow> path_names rest = []" using sk by simp_all
    show ?thesis unfolding nm by (subst namex_loop.simps) (simp only: Some x prod.case option.case IH walk_names.simps e)
  qed
qed

lemma split_slash_size: "sum_list (map (\<lambda>e. length e + 1) (split_slash path)) = length path + 1"
  by (induction path) (auto split: list.split)

lemma nonempty_size: "2 * length (filter (\<lambda>e. e \<noteq> []) es) \<le> sum_list (map (\<lambda>e. length e + 1) es)"
  by (induction es) (auto simp: neq_Nil_conv)

text \<open>
  C34: path resolution is a walk over the names of the path. \<open>namex\<close> on a string, in which slashes may be
  repeated and names may be longer than \<open>DIRSIZ\<close>, does the same as resolving, one
  after the other, the non-empty pieces between slashes, each cut to \<open>DIRSIZ\<close> bytes.
\<close>

theorem namex_walks_names:
  "namex path parent = kbind
     (if path \<noteq> [] \<and> hd path = slash then iget ROOTDEV ROOTINO
      else (\<lambda>s. case p_cwd (myproc s) of None \<Rightarrow> Fault | Some ip \<Rightarrow> idup ip s))
     (\<lambda>ip. walk_names parent ip (path_names path) [])"
  unfolding namex_def namex_loop_walk by (rule refl)

lemma path_names_length: "2 * length (path_names path) \<le> length path + 1"
  using nonempty_size [of "split_slash path"] unfolding split_slash_size by (simp add: path_names_def)

text \<open>The number of iterations of the loop: \<open>None\<close> when \<open>k\<close> iterations do not reach the end of the path.\<close>

primrec skip_steps :: "nat \<Rightarrow> u8 list \<Rightarrow> nat option" where
  "skip_steps 0 path = (if skipelem path = None then Some 0 else None)"
| "skip_steps (Suc k) path = (case skipelem path of None \<Rightarrow> Some 0 | Some (_, rest) \<Rightarrow> map_option Suc (skip_steps k rest))"

lemma skip_steps_names: "length (path_names path) \<le> k \<Longrightarrow> skip_steps k path = Some (length (path_names path))"
proof (induction k arbitrary: path)
  case 0
  then show ?case using skipelem_names(2) [of path] by (cases "skipelem path") auto
next
  case (Suc k)
  show ?case
  proof (cases "skipelem path")
    case None
    then show ?thesis using skipelem_names(1) by simp
  next
    case (Some x)
    obtain n rest where x: "x = (n, rest)" by (cases x)
    show ?thesis using skipelem_names(2) [OF Some [unfolded x]] Suc.IH [of rest] Suc.prems Some x by simp
  qed
qed


end
