(* ===== verification/File.thy ===== *)
theory File
  imports Dir
begin

text \<open>
  The file table, \<open>kernel/file.c\<close>, and \<open>pipealloc\<close> of \<open>kernel/pipe.c\<close>. The state also gets the
  symbols that the linker and the assembly code provide and the clock ticks, which the
  theories on processes and system calls use.
\<close>

definition NFILE :: nat where "NFILE = 100"
definition NDEV :: int where "NDEV = 10"
definition CONSOLE :: int where "CONSOLE = 1"

datatype ftype = FD_NONE | FD_PIPE | FD_INODE | FD_DEVICE

record ofile =
  f_type :: ftype
  f_ref :: int
  f_readable :: bool
  f_writable :: bool
  f_pipe :: u64
  f_ip :: "nat option"
  f_off :: u32
  f_major :: u16

record kfile = kfs +
  kf_ftable :: "ofile list"
  kf_pad :: "u8 list"     \<comment> \<open>what the kernel stack holds in the padding of \<open>struct stat\<close>\<close>
  kf_trampoline :: u64    \<comment> \<open>address of the trampoline page\<close>
  kf_forkret :: u64       \<comment> \<open>address of \<open>forkret\<close>\<close>
  kf_ticks :: u32

definition get_file :: "nat \<Rightarrow> 'z kfile_scheme \<Rightarrow> ofile" where
  "get_file f s = kf_ftable s ! f"

definition upd_file :: "nat \<Rightarrow> (ofile \<Rightarrow> ofile) \<Rightarrow> ('z kfile_scheme, unit) kop" where
  "upd_file f g = kmod (\<lambda>s. s\<lparr>kf_ftable := (kf_ftable s)[f := g (kf_ftable s ! f)]\<rparr>)"

text \<open>A pointer that the code dereferences.\<close>

definition deref :: "nat option \<Rightarrow> (nat \<Rightarrow> ('s, 'a) kop) \<Rightarrow> ('s, 'a) kop" where
  "deref p f = (case p of None \<Rightarrow> (\<lambda>s. Fault) | Some x \<Rightarrow> f x)"

definition filealloc :: "('z kfile_scheme, nat option) kop" where
  "filealloc = (\<lambda>s. case scan_idx (\<lambda>f. f_ref f = 0) (kf_ftable s) of
       None \<Rightarrow> Ret None s
     | Some f \<Rightarrow> kseq (upd_file f (\<lambda>x. x\<lparr>f_ref := 1\<rparr>)) (kret (Some f)) s)"

definition filedup :: "nat \<Rightarrow> ('z kfile_scheme, nat) kop" where
  "filedup f = (\<lambda>s.
     if f_ref (get_file f s) < 1 then Panic ''filedup''
     else kseq (upd_file f (\<lambda>x. x\<lparr>f_ref := f_ref x + 1\<rparr>)) (kret f) s)"

definition fileclose :: "nat \<Rightarrow> ('z kfile_scheme, unit) kop" where
  "fileclose f = (\<lambda>s.
     if f_ref (get_file f s) < 1 then Panic ''fileclose''
     else kseq (upd_file f (\<lambda>x. x\<lparr>f_ref := f_ref x - 1\<rparr>))
       (\<lambda>s. let ff = get_file f s in
         if f_ref ff > 0 then Ret () s
         else kseq (upd_file f (\<lambda>x. x\<lparr>f_ref := 0, f_type := FD_NONE\<rparr>))
           (case f_type ff of
              FD_PIPE \<Rightarrow> pipeclose (f_pipe ff) (f_writable ff)
            | FD_NONE \<Rightarrow> kret ()
            | _ \<Rightarrow> kseq begin_op (kseq (deref (f_ip ff) iput) end_op)) s) s)"

text \<open>\<open>struct stat\<close> in memory: the size is aligned to 8 bytes, so there are 4 bytes of padding before it.\<close>

definition stat_bytes :: "u8 list \<Rightarrow> fstat \<Rightarrow> u8 list" where
  "stat_bytes pad st = bytes_of_word 4 (word_of_int (st_dev st) :: u32) @ bytes_of_word 4 (st_ino st) @
     bytes_of_word 2 (st_type st) @ bytes_of_word 2 (st_nlink st) @ pad @ bytes_of_word 8 (st_size st)"

definition filestat :: "nat \<Rightarrow> u64 \<Rightarrow> ('z kfile_scheme, int) kop" where
  "filestat f addr = (\<lambda>s.
     if f_type (get_file f s) = FD_INODE \<or> f_type (get_file f s) = FD_DEVICE
     then deref (f_ip (get_file f s)) (\<lambda>ip.
       kseq (ilock ip) (kbind (kget (\<lambda>s. stat_bytes (kf_pad s) (stati (get_inode ip s)))) (\<lambda>bs.
         kseq (iunlock ip) (kbind (copyout_me addr bs) (\<lambda>r. kret (if r < 0 then -1 else 0)))))) s
     else Ret (-1) s)"

text \<open>\<open>consoleinit\<close> fills the only entry of \<open>devsw\<close>.\<close>

definition devsw_read :: "int \<Rightarrow> (u64 \<Rightarrow> int \<Rightarrow> ('z kfile_scheme, int) kop) option" where
  "devsw_read major = (if major = CONSOLE then Some consoleread else None)"

definition devsw_write :: "int \<Rightarrow> (u64 \<Rightarrow> int \<Rightarrow> ('z kfile_scheme, int) kop) option" where
  "devsw_write major = (if major = CONSOLE then Some consolewrite else None)"

definition fileread :: "nat \<Rightarrow> u64 \<Rightarrow> int \<Rightarrow> ('z kfile_scheme, int) kop" where
  "fileread f addr n = (\<lambda>s. let ff = get_file f s in
     if \<not> f_readable ff \<or> n < 0 then Ret (-1) s
     else case f_type ff of
         FD_PIPE \<Rightarrow> piperead (f_pipe ff) addr n s
       | FD_DEVICE \<Rightarrow>
           if sint (f_major ff) < 0 \<or> sint (f_major ff) \<ge> NDEV then Ret (-1) s
           else (case devsw_read (sint (f_major ff)) of None \<Rightarrow> Ret (-1) s | Some rd \<Rightarrow> rd addr n s)
       | FD_INODE \<Rightarrow> deref (f_ip ff) (\<lambda>ip.
           kseq (ilock ip)
             (kbind (\<lambda>s. readi ip (UserDst addr) (f_off (get_file f s)) (word_of_int n) s) (\<lambda>(r, _).
               kseq (if r > 0 then upd_file f (\<lambda>x. x\<lparr>f_off := f_off x + word_of_int r\<rparr>) else kret ())
                 (kseq (iunlock ip) (kret r))))) s
       | FD_NONE \<Rightarrow> Panic ''fileread'')"

definition write_max :: int where
  "write_max = ((int MAXOPBLOCKS - 1 - 1 - 2) div 2) * int BSIZE"

primrec filewrite_loop :: "nat \<Rightarrow> nat \<Rightarrow> nat \<Rightarrow> u64 \<Rightarrow> int \<Rightarrow> int \<Rightarrow> ('z kfile_scheme, int) kop" where
  "filewrite_loop 0 f ip addr n i = (\<lambda>s. Fault)"
| "filewrite_loop (Suc k) f ip addr n i =
     (if i < n
      then let n1 = (if n - i > write_max then write_max else n - i) in
        kseq begin_op (kseq (ilock ip)
          (kbind (\<lambda>s. writei ip (UserSrc (addr + word_of_int i)) (f_off (get_file f s)) (word_of_int n1) s) (\<lambda>r.
            kseq (if r > 0 then upd_file f (\<lambda>x. x\<lparr>f_off := f_off x + word_of_int r\<rparr>) else kret ())
              (kseq (iunlock ip) (kseq end_op
                (if r \<noteq> n1 then kret i else filewrite_loop k f ip addr n (i + r)))))))
      else kret i)"

text \<open>Every turn but the last writes a byte or more.\<close>

definition filewrite :: "nat \<Rightarrow> u64 \<Rightarrow> int \<Rightarrow> ('z kfile_scheme, int) kop" where
  "filewrite f addr n = (\<lambda>s. let ff = get_file f s in
     if \<not> f_writable ff \<or> n < 0 then Ret (-1) s
     else case f_type ff of
         FD_PIPE \<Rightarrow> pipewrite (f_pipe ff) addr n s
       | FD_DEVICE \<Rightarrow>
           if sint (f_major ff) < 0 \<or> sint (f_major ff) \<ge> NDEV then Ret (-1) s
           else (case devsw_write (sint (f_major ff)) of None \<Rightarrow> Ret (-1) s | Some wr \<Rightarrow> wr addr n s)
       | FD_INODE \<Rightarrow> deref (f_ip ff) (\<lambda>ip.
           kbind (filewrite_loop (Suc (nat n)) f ip addr n 0) (\<lambda>i. kret (if i = n then n else -1))) s
       | FD_NONE \<Rightarrow> Panic ''filewrite'')"

text \<open>\<open>pipealloc\<close>: the two files, or \<^const>\<open>None\<close> for -1; \<open>pipealloc_bad\<close> is the code at the label.\<close>

definition pipealloc_bad :: "nat option \<Rightarrow> nat option \<Rightarrow> ('z kfile_scheme, (nat \<times> nat) option) kop" where
  "pipealloc_bad f0 f1 =
     kseq (case f0 of None \<Rightarrow> kret () | Some f \<Rightarrow> fileclose f)
       (kseq (case f1 of None \<Rightarrow> kret () | Some f \<Rightarrow> fileclose f) (kret None))"

definition pipealloc :: "('z kfile_scheme, (nat \<times> nat) option) kop" where
  "pipealloc = kbind filealloc (\<lambda>r0. case r0 of
       None \<Rightarrow> pipealloc_bad None None
     | Some f0 \<Rightarrow> kbind filealloc (\<lambda>r1. case r1 of
           None \<Rightarrow> pipealloc_bad (Some f0) None
         | Some f1 \<Rightarrow> kbind kalloc (\<lambda>pi.
             if pi = 0 then pipealloc_bad (Some f0) (Some f1)
             else kseq (upd_pipe pi pipe_init)
               (kseq (upd_file f0 (\<lambda>x. x\<lparr>f_type := FD_PIPE, f_readable := True, f_writable := False, f_pipe := pi\<rparr>))
                 (kseq (upd_file f1 (\<lambda>x. x\<lparr>f_type := FD_PIPE, f_readable := False, f_writable := True, f_pipe := pi\<rparr>))
                   (kret (Some (f0, f1))))))))"

end
