(* ===== verification/Process.thy ===== *)
theory Process
  imports File
begin

text \<open>
  Creation and end of processes, the rest of \<open>kernel/proc.c\<close>. The trap frame of a
  process is a page of physical memory; its fields are at the offsets that \<open>kernel/proc.h\<close> gives.
  A process that exits leaves the CPU for good, which is the outcome \<open>Sleeps\<close> with
  the process in state \<open>ZOMBIE\<close>.
\<close>

section \<open>Trap frames\<close>

definition TF_KERNEL_SATP :: u64 where "TF_KERNEL_SATP = 0"
definition TF_KERNEL_SP :: u64 where "TF_KERNEL_SP = 8"
definition TF_KERNEL_TRAP :: u64 where "TF_KERNEL_TRAP = 16"
definition TF_EPC :: u64 where "TF_EPC = 24"
definition TF_KERNEL_HARTID :: u64 where "TF_KERNEL_HARTID = 32"
definition TF_SP :: u64 where "TF_SP = 48"
definition TF_A0 :: u64 where "TF_A0 = 112"
definition TF_A1 :: u64 where "TF_A1 = 120"
definition TF_A7 :: u64 where "TF_A7 = 168"
definition TRAPFRAME_SIZE :: nat where "TRAPFRAME_SIZE = 288"

definition tf_load :: "nat \<Rightarrow> u64 \<Rightarrow> 'z kproc_scheme \<Rightarrow> u64" where
  "tf_load i off s = load64 (km_mem s) (p_trapframe (kp_procs s ! i) + off)"

definition tf_store :: "nat \<Rightarrow> u64 \<Rightarrow> u64 \<Rightarrow> ('z kproc_scheme, unit) kop" where
  "tf_store i off v = kmod (\<lambda>s. s\<lparr>km_mem := store64 (p_trapframe (kp_procs s ! i) + off) v (km_mem s)\<rparr>)"

definition kupd_proc :: "nat \<Rightarrow> (proc \<Rightarrow> proc) \<Rightarrow> ('z kproc_scheme, unit) kop" where
  "kupd_proc i f = kmod (upd_proc i f)"

text \<open>\<open>safestrcpy\<close> to the name of a process; after a null byte is copied the code stores another one.\<close>

definition safestrcpy_name :: "u8 list \<Rightarrow> u8 list \<Rightarrow> u8 list" where
  "safestrcpy_name src dst = (let c = take 15 (cstr src) in
     put_at 0 (if length c < 15 then c @ [0, 0] else c @ [0]) dst)"

section \<open>Allocation\<close>

definition proc_pagetable :: "nat \<Rightarrow> ('z kfile_scheme, u64) kop" where
  "proc_pagetable i = kbind uvmcreate (\<lambda>pagetable.
     if pagetable = 0 then kret 0
     else (\<lambda>s. kbind (mappages pagetable TRAMPOLINE PGSIZE (kf_trampoline s) (PTE_R OR PTE_X)) (\<lambda>r.
       if r < 0 then kseq (uvmfree pagetable 0) (kret 0)
       else kbind (mappages pagetable TRAPFRAME PGSIZE (p_trapframe (kp_procs s ! i)) (PTE_R OR PTE_W)) (\<lambda>r.
         if r < 0 then kseq (uvmunmap pagetable TRAMPOLINE 1 False) (kseq (uvmfree pagetable 0) (kret 0))
         else kret pagetable)) s))"

definition proc_freepagetable :: "u64 \<Rightarrow> u64 \<Rightarrow> ('z kmem_scheme, unit) kop" where
  "proc_freepagetable pagetable sz =
     kseq (uvmunmap pagetable TRAMPOLINE 1 False) (kseq (uvmunmap pagetable TRAPFRAME 1 False) (uvmfree pagetable sz))"

definition freeproc :: "nat \<Rightarrow> ('z kfile_scheme, unit) kop" where
  "freeproc i = (\<lambda>s. let p = kp_procs s ! i in
     kseq (if p_trapframe p \<noteq> 0 then kfree (p_trapframe p) else kret ())
       (kseq (kupd_proc i (\<lambda>p. p\<lparr>p_trapframe := 0\<rparr>))
         (kseq (if p_pagetable p \<noteq> 0 then proc_freepagetable (p_pagetable p) (p_sz p) else kret ())
           (kupd_proc i freeproc_reset))) s)"

definition allocproc :: "('z kfile_scheme, nat option) kop" where
  "allocproc = (\<lambda>s. case allocproc_claim (kp_procs s) (kp_nextpid s) of
       None \<Rightarrow> Ret None s
     | Some (i, ps, nextpid) \<Rightarrow>
         kbind kalloc (\<lambda>tf.
           kseq (kupd_proc i (\<lambda>p. p\<lparr>p_trapframe := tf\<rparr>))
             (if tf = 0 then kseq (freeproc i) (kret None)
              else kbind (proc_pagetable i) (\<lambda>pagetable.
                kseq (kupd_proc i (\<lambda>p. p\<lparr>p_pagetable := pagetable\<rparr>))
                  (if pagetable = 0 then kseq (freeproc i) (kret None)
                   else (\<lambda>s. kseq (kupd_proc i (\<lambda>p. p\<lparr>p_context :=
                       \<lparr>ctx_ra = kf_forkret s, ctx_sp = p_kstack p + PGSIZE, ctx_s = replicate 12 0\<rparr>\<rparr>))
                     (kret (Some i)) s)))))
           (s\<lparr>kp_procs := ps, kp_nextpid := nextpid\<rparr>))"

definition userinit :: "('z kfile_scheme, unit) kop" where
  "userinit = kbind allocproc (\<lambda>r.
     kseq (kmod (\<lambda>s. s\<lparr>kp_initproc := r\<rparr>))
       (deref r (\<lambda>i. kbind (namei [slash]) (\<lambda>cwd.
         kseq (kupd_proc i (\<lambda>p. p\<lparr>p_cwd := cwd\<rparr>)) (kupd_proc i (\<lambda>p. p\<lparr>p_state := RUNNABLE\<rparr>))))))"

definition growproc :: "int \<Rightarrow> ('z kproc_scheme, int) kop" where
  "growproc n = (\<lambda>s. let p = myproc s; sz = p_sz p; new = sz + word_of_int n in
     if n > 0
     then if new > TRAPFRAME then Ret (-1) s
          else kbind (uvmalloc (p_pagetable p) sz new PTE_W) (\<lambda>sz'.
            if sz' = 0 then kret (-1)
            else kseq (\<lambda>s. kupd_proc (kp_me s) (\<lambda>p. p\<lparr>p_sz := sz'\<rparr>) s) (kret 0)) s
     else if n < 0
     then kbind (uvmdealloc (p_pagetable p) sz new) (\<lambda>sz'.
            kseq (\<lambda>s. kupd_proc (kp_me s) (\<lambda>p. p\<lparr>p_sz := sz'\<rparr>) s) (kret 0)) s
     else Ret 0 s)"

section \<open>Fork\<close>

definition fork_files :: "nat \<Rightarrow> nat \<Rightarrow> ('z kfile_scheme, unit) kop" where
  "fork_files np fd = (\<lambda>s. case p_ofile (myproc s) ! fd of
       None \<Rightarrow> Ret () s
     | Some f \<Rightarrow> kbind (filedup f) (\<lambda>f. kupd_proc np (\<lambda>p. p\<lparr>p_ofile := (p_ofile p)[fd := Some f]\<rparr>)) s)"

definition kfork :: "('z kfile_scheme, int) kop" where
  "kfork = kbind allocproc (\<lambda>r. case r of
       None \<Rightarrow> kret (-1)
     | Some np \<Rightarrow> (\<lambda>s. let p = myproc s; parent_priority = p_priority p in
         kbind (uvmcopy (p_pagetable p) (p_pagetable (kp_procs s ! np)) (p_sz p)) (\<lambda>r.
           if r < 0 then kseq (freeproc np) (kret (-1))
           else kseq (kupd_proc np (\<lambda>q. q\<lparr>p_sz := p_sz p\<rparr>))
             (kseq (\<lambda>s. write_bytes (p_trapframe (kp_procs s ! np)) (load_bytes (km_mem s) (p_trapframe p) TRAPFRAME_SIZE) s)
               (kseq (tf_store np TF_A0 0)
                 (kseq (kupd_proc np (\<lambda>q. q\<lparr>p_priority := (if priority_valid parent_priority then parent_priority else PRIORITY_DEFAULT),
                     p_wait_ticks := 0\<rparr>))
                   (kseq (kfor [0..<NOFILE] (fork_files np))
                     (kbind (deref (p_cwd p) idup) (\<lambda>cwd.
                       kseq (kupd_proc np (\<lambda>q. q\<lparr>p_cwd := Some cwd\<rparr>))
                         (kseq (kupd_proc np (\<lambda>q. q\<lparr>p_name := safestrcpy_name (p_name p) (p_name q)\<rparr>))
                           (kbind (kget (\<lambda>s. p_pid (kp_procs s ! np))) (\<lambda>pid.
                             kseq (\<lambda>s. kupd_proc np (\<lambda>q. q\<lparr>p_parent := Some (kp_me s)\<rparr>) s)
                               (kseq (kupd_proc np (\<lambda>q. q\<lparr>p_state := RUNNABLE\<rparr>)) (kret pid)))))))))))) s))"

section \<open>Exit and wait\<close>

definition exit_close :: "nat \<Rightarrow> ('z kfile_scheme, unit) kop" where
  "exit_close fd = (\<lambda>s. case p_ofile (myproc s) ! fd of
       None \<Rightarrow> Ret () s
     | Some f \<Rightarrow> kseq (fileclose f) (\<lambda>s. kupd_proc (kp_me s) (\<lambda>p. p\<lparr>p_ofile := (p_ofile p)[fd := None]\<rparr>) s) s)"

definition kexit :: "int \<Rightarrow> ('z kfile_scheme, 'a) kop" where
  "kexit status = (\<lambda>s.
     if kp_initproc s = Some (kp_me s) then Panic ''init exiting''
     else kbind (kseq (kfor [0..<NOFILE] exit_close)
         (kseq begin_op
           (kseq (\<lambda>s. deref (p_cwd (myproc s)) iput s)
             (kseq end_op (\<lambda>s. kupd_proc (kp_me s) (\<lambda>p. p\<lparr>p_cwd := None\<rparr>) s)))))
       (\<lambda>_ s. Sleeps (s\<lparr>kp_procs := exit_zombie (kp_me s) (kp_initproc s) status (kp_procs s)\<rparr>)) s)"

definition kwait :: "u64 \<Rightarrow> ('z kfile_scheme, int) kop" where
  "kwait addr = (\<lambda>s.
     case scan_idx (\<lambda>pp. p_parent pp = Some (kp_me s) \<and> p_state pp = ZOMBIE) (kp_procs s) of
       Some i \<Rightarrow> let pid = p_pid (kp_procs s ! i) in
         kbind (if addr \<noteq> 0 then copyout_me addr (bytes_of_word 4 (word_of_int (p_xstate (kp_procs s ! i)) :: u32)) else kret 0) (\<lambda>r.
           if r < 0 then kret (-1)
           else kseq (kupd_proc i (\<lambda>pp. pp\<lparr>p_parent := None\<rparr>)) (kseq (freeproc i) (kret pid))) s
     | None \<Rightarrow>
         if \<not> (\<exists>pp \<in> set (kp_procs s). p_parent pp = Some (kp_me s)) \<or> kkilled s then Ret (-1) s
         else ksleep (AddrProc (kp_me s)) s)"

end
