(* ===== verification/Exec.thy ===== *)
theory Exec
  imports Process
begin

text \<open>
  Program loading, \<open>kernel/exec.c\<close> and \<open>kernel/elf.h\<close>. The argument strings of \<open>kexec\<close>, which
  the caller keeps in pages of their own, are lists of bytes without the terminating null.
\<close>

section \<open>ELF headers\<close>

definition ELF_MAGIC :: u32 where "ELF_MAGIC = 0x464C457F"
definition ELF_PROG_LOAD :: u32 where "ELF_PROG_LOAD = 1"
definition MAXARG :: nat where "MAXARG = 32"
definition USERSTACK :: u64 where "USERSTACK = 1"

definition get64 :: "nat \<Rightarrow> u8 list \<Rightarrow> u64" where
  "get64 off d = word_of_bytes (slice off 8 d)"

record elfhdr =
  elf_magic :: u32
  elf_entry :: u64
  elf_phoff :: u64
  elf_phnum :: u16

definition ELFHDR_SIZE :: nat where "ELFHDR_SIZE = 64"

definition get_elfhdr :: "u8 list \<Rightarrow> elfhdr" where
  "get_elfhdr d = \<lparr>elf_magic = get32 0 d, elf_entry = get64 24 d, elf_phoff = get64 32 d, elf_phnum = get16 56 d\<rparr>"

record proghdr =
  ph_type :: u32
  ph_flags :: u32
  ph_off :: u64
  ph_vaddr :: u64
  ph_filesz :: u64
  ph_memsz :: u64

definition PROGHDR_SIZE :: nat where "PROGHDR_SIZE = 56"

definition get_proghdr :: "u8 list \<Rightarrow> proghdr" where
  "get_proghdr d = \<lparr>ph_type = get32 0 d, ph_flags = get32 4 d, ph_off = get64 8 d, ph_vaddr = get64 16 d,
     ph_filesz = get64 32 d, ph_memsz = get64 40 d\<rparr>"

definition flags2perm :: "u32 \<Rightarrow> u64" where
  "flags2perm flags = (let perm = (if flags AND 0x1 \<noteq> 0 then PTE_X else 0) in
     if flags AND 0x2 \<noteq> 0 then perm OR PTE_W else perm)"

section \<open>Segments\<close>

primrec loadseg_loop :: "nat \<Rightarrow> u64 \<Rightarrow> u64 \<Rightarrow> nat \<Rightarrow> u32 \<Rightarrow> u32 \<Rightarrow> u32 \<Rightarrow> ('z kfs_scheme, int) kop" where
  "loadseg_loop 0 pagetable va ip offset sz i = (\<lambda>s. Fault)"
| "loadseg_loop (Suc k) pagetable va ip offset sz i =
     (if i < sz
      then kbind (walkaddr pagetable (va + ucast i)) (\<lambda>pa.
        if pa = 0 then kpanic ''loadseg: address should exist''
        else let n = (if sz - i < ucast PGSIZE then sz - i else ucast PGSIZE) in
          kbind (readi ip (KernDst pa) (offset + i) n) (\<lambda>(r, _).
            if r \<noteq> int (unat n) then kret (-1)
            else loadseg_loop k pagetable va ip offset sz (i + ucast PGSIZE)))
      else kret 0)"

text \<open>Every turn loads a page.\<close>

definition loadseg :: "u64 \<Rightarrow> u64 \<Rightarrow> nat \<Rightarrow> u32 \<Rightarrow> u32 \<Rightarrow> ('z kfs_scheme, int) kop" where
  "loadseg pagetable va ip offset sz = loadseg_loop (Suc (Suc (unat sz div 4096))) pagetable va ip offset sz 0"

text \<open>
  The loop over the program headers, with \<open>k\<close> headers to go: \<open>Inl sz\<close> is a jump to the label
  \<open>bad\<close> with the size so far, \<open>Inr sz\<close> the normal end of the loop.
\<close>

primrec load_program :: "nat \<Rightarrow> u64 \<Rightarrow> nat \<Rightarrow> u32 \<Rightarrow> u64 \<Rightarrow> ('z kfs_scheme, u64 + u64) kop" where
  "load_program 0 pagetable ip off sz = kret (Inr sz)"
| "load_program (Suc k) pagetable ip off sz =
     kbind (readi ip VarDst off (of_nat PROGHDR_SIZE)) (\<lambda>(r, bs).
       if r \<noteq> int PROGHDR_SIZE then kret (Inl sz)
       else let ph = get_proghdr bs in
         if ph_type ph \<noteq> ELF_PROG_LOAD then load_program k pagetable ip (off + of_nat PROGHDR_SIZE) sz
         else if ph_memsz ph < ph_filesz ph then kret (Inl sz)
         else if ph_vaddr ph + ph_memsz ph < ph_vaddr ph then kret (Inl sz)
         else if ph_vaddr ph mod PGSIZE \<noteq> 0 then kret (Inl sz)
         else kbind (uvmalloc pagetable sz (ph_vaddr ph + ph_memsz ph) (flags2perm (ph_flags ph))) (\<lambda>sz1.
           if sz1 = 0 then kret (Inl sz)
           else kbind (loadseg pagetable (ph_vaddr ph) ip (ucast (ph_off ph)) (ucast (ph_filesz ph))) (\<lambda>r.
             if r < 0 then kret (Inl sz1)
             else load_program k pagetable ip (off + of_nat PROGHDR_SIZE) sz1)))"

section \<open>The stack\<close>

text \<open>The new stack pointer and the address of each string, or \<^const>\<open>None\<close> for a jump to \<open>bad\<close>.\<close>

primrec push_args :: "u8 list list \<Rightarrow> u64 \<Rightarrow> u64 \<Rightarrow> u64 \<Rightarrow> u64 \<Rightarrow> u64 list \<Rightarrow> ('z kmem_scheme, (u64 \<times> u64 list) option) kop" where
  "push_args [] pagetable sz stackbase sp ustack = kret (Some (sp, ustack))"
| "push_args (a # as) pagetable sz stackbase sp ustack = (let sp1 = sp - of_nat (length a + 1); sp2 = sp1 - sp1 mod 16 in
     if sp2 < stackbase then kret None
     else kbind (copyout pagetable sz sp2 (a @ [0])) (\<lambda>r.
       if r < 0 then kret None
       else push_args as pagetable sz stackbase sp2 (ustack @ [sp2])))"

definition push_stack :: "u8 list list \<Rightarrow> u64 \<Rightarrow> u64 \<Rightarrow> u64 \<Rightarrow> ('z kmem_scheme, u64 option) kop" where
  "push_stack argv pagetable sz stackbase =
     kbind (push_args argv pagetable sz stackbase sz []) (\<lambda>r. case r of
         None \<Rightarrow> kret None
       | Some (sp, ustack) \<Rightarrow>
           let sp1 = sp - of_nat ((length argv + 1) * 8); sp2 = sp1 - sp1 mod 16 in
           if sp2 < stackbase then kret None
           else kbind (copyout pagetable sz sp2 (concat (map (bytes_of_word 8) (ustack @ [0])))) (\<lambda>r.
             kret (if r < 0 then None else Some sp2)))"

text \<open>The last element of a path, for the name of the process.\<close>

definition path_last :: "u8 list \<Rightarrow> u8 list" where
  "path_last path = rev (takeWhile (\<lambda>c. c \<noteq> slash) (rev path))"

definition exec_bad :: "u64 \<Rightarrow> u64 \<Rightarrow> nat option \<Rightarrow> ('z kfile_scheme, int) kop" where
  "exec_bad pagetable sz ip =
     kseq (if pagetable \<noteq> 0 then proc_freepagetable pagetable sz else kret ())
       (kseq (case ip of None \<Rightarrow> kret () | Some ip \<Rightarrow> kseq (iunlockput ip) end_op) (kret (-1)))"

text \<open>The part of \<open>kexec\<close> after the program is loaded.\<close>

definition exec_commit :: "u8 list \<Rightarrow> u8 list list \<Rightarrow> elfhdr \<Rightarrow> u64 \<Rightarrow> u64 \<Rightarrow> ('z kfile_scheme, int) kop" where
  "exec_commit path argv elf pagetable sz0 = (\<lambda>s. let oldsz = p_sz (myproc s); sz = PGROUNDUP sz0 in
     kbind (uvmalloc pagetable sz (sz + (USERSTACK + 1) * PGSIZE) PTE_W) (\<lambda>sz1.
       if sz1 = 0 then exec_bad pagetable sz None
       else kseq (uvmclear pagetable (sz1 - (USERSTACK + 1) * PGSIZE))
         (kbind (push_stack argv pagetable sz1 (sz1 - USERSTACK * PGSIZE)) (\<lambda>r. case r of
             None \<Rightarrow> exec_bad pagetable sz1 None
           | Some sp \<Rightarrow> (\<lambda>s. let me = kp_me s in
               kseq (tf_store me TF_A1 sp)
                 (kseq (kupd_proc me (\<lambda>p. p\<lparr>p_name := safestrcpy_name (path_last path) (p_name p)\<rparr>))
                   (kbind (kget (\<lambda>s. p_pagetable (myproc s))) (\<lambda>oldpagetable.
                     kseq (kupd_proc me (\<lambda>p. p\<lparr>p_pagetable := pagetable, p_sz := sz1\<rparr>))
                       (kseq (tf_store me TF_EPC (elf_entry elf))
                         (kseq (tf_store me TF_SP sp)
                           (kseq (proc_freepagetable oldpagetable oldsz) (kret (int (length argv))))))))) s)))) s)"

definition kexec :: "u8 list \<Rightarrow> u8 list list \<Rightarrow> ('z kfile_scheme, int) kop" where
  "kexec path argv = kseq begin_op (kbind (namei path) (\<lambda>r. case r of
       None \<Rightarrow> kseq end_op (kret (-1))
     | Some ip \<Rightarrow> kseq (ilock ip)
         (kbind (readi ip VarDst 0 (of_nat ELFHDR_SIZE)) (\<lambda>(r, bs).
           if r \<noteq> int ELFHDR_SIZE then exec_bad 0 0 (Some ip)
           else let elf = get_elfhdr bs in
             if elf_magic elf \<noteq> ELF_MAGIC then exec_bad 0 0 (Some ip)
             else (\<lambda>s. kbind (proc_pagetable (kp_me s)) (\<lambda>pagetable.
               if pagetable = 0 then exec_bad 0 0 (Some ip)
               else kbind (load_program (unat (elf_phnum elf)) pagetable ip (ucast (elf_phoff elf)) 0) (\<lambda>r. case r of
                   Inl sz \<Rightarrow> exec_bad pagetable sz (Some ip)
                 | Inr sz \<Rightarrow> kseq (iunlockput ip) (kseq end_op (exec_commit path argv elf pagetable sz)))) s)))))"

end
