(* ===== verification/Syscall.thy ===== *)
theory Syscall
  imports Exec Fcntl
begin

text \<open>
  System calls: \<open>kernel/syscall.c\<close>, \<open>kernel/sysproc.c\<close> and \<open>kernel/sysfile.c\<close>. Arguments come from the
  registers saved in the trap frame. A handler returns the \<open>uint64\<close> that is stored in a0.
\<close>

definition NLINK_MAX :: int where "NLINK_MAX = 32767"
definition MAXPATH :: nat where "MAXPATH = 128"
definition SBRK_EAGER :: int where "SBRK_EAGER = 1"

section \<open>Arguments\<close>

definition fetchaddr :: "u64 \<Rightarrow> ('z kproc_scheme, u64 option) kop" where
  "fetchaddr addr = (\<lambda>s. let sz = p_sz (myproc s) in
     if addr \<ge> sz \<or> addr + 8 > sz then Ret None s
     else kbind (copyin_me addr 8) (\<lambda>(r, bs). kret (if r \<noteq> 0 then None else Some (word_of_bytes bs))) s)"

text \<open>The string without its null, or \<^const>\<open>None\<close> for -1.\<close>

definition fetchstr :: "u64 \<Rightarrow> nat \<Rightarrow> ('z kproc_scheme, u8 list option) kop" where
  "fetchstr addr mx = kbind (copyinstr_me addr mx) (\<lambda>(r, bs). kret (if r < 0 then None else Some (cstr bs)))"

definition argraw :: "nat \<Rightarrow> ('z kproc_scheme, u64) kop" where
  "argraw n = (if n \<le> 5 then kget (\<lambda>s. tf_load (kp_me s) (TF_A0 + 8 * of_nat n) s) else kpanic ''argraw'')"

definition argint :: "nat \<Rightarrow> ('z kproc_scheme, int) kop" where
  "argint n = kbind (argraw n) (\<lambda>w. kret (sint (ucast w :: u32)))"

definition argaddr :: "nat \<Rightarrow> ('z kproc_scheme, u64) kop" where
  "argaddr n = argraw n"

definition argstr :: "nat \<Rightarrow> nat \<Rightarrow> ('z kproc_scheme, u8 list option) kop" where
  "argstr n mx = kbind (argaddr n) (\<lambda>addr. fetchstr addr mx)"

section \<open>Processes\<close>

text \<open>The conversion of an \<open>int\<close> result to \<open>uint64\<close>.\<close>

abbreviation kint :: "('s, int) kop \<Rightarrow> ('s, u64) kop" where
  "kint f \<equiv> kbind f (\<lambda>r. kret (word_of_int r))"

definition sys_exit :: "('z kfile_scheme, u64) kop" where
  "sys_exit = kbind (argint 0) kexit"

definition sys_getpid :: "('z kfile_scheme, u64) kop" where
  "sys_getpid = kget (\<lambda>s. word_of_int (p_pid (myproc s)))"

definition sys_fork :: "('z kfile_scheme, u64) kop" where
  "sys_fork = kint kfork"

definition sys_wait :: "('z kfile_scheme, u64) kop" where
  "sys_wait = kbind (argaddr 0) (\<lambda>p. kint (kwait p))"

definition sys_sbrk :: "('z kfile_scheme, u64) kop" where
  "sys_sbrk = kbind (argint 0) (\<lambda>n. kbind (argint 1) (\<lambda>t s. let addr = p_sz (myproc s) in
     if t = SBRK_EAGER \<or> n < 0
     then kbind (growproc n) (\<lambda>r. kret (if r < 0 then -1 else addr)) s
     else if addr + word_of_int n < addr then Ret (-1) s
     else if addr + word_of_int n > TRAPFRAME then Ret (-1) s
     else kseq (kupd_proc (kp_me s) (\<lambda>p. p\<lparr>p_sz := p_sz p + word_of_int n\<rparr>)) (kret addr) s))"

text \<open>The wait loop of \<open>sys_pause\<close>, from the tick count at its start.\<close>

definition pause_wait :: "u32 \<Rightarrow> int \<Rightarrow> ('z kfile_scheme, u64) kop" where
  "pause_wait ticks0 n = (\<lambda>s.
     if kf_ticks s - ticks0 < word_of_int n
     then if kkilled s then Ret (-1) s else ksleep AddrTicks s
     else Ret 0 s)"

definition sys_pause :: "('z kfile_scheme, u64) kop" where
  "sys_pause = kbind (argint 0) (\<lambda>n s. pause_wait (kf_ticks s) (if n < 0 then 0 else n) s)"

definition on_table :: "(ptable \<Rightarrow> int \<times> ptable) \<Rightarrow> ('z kproc_scheme, int) kop" where
  "on_table f = (\<lambda>s. case f (kp_procs s) of (r, ps) \<Rightarrow> Ret r (s\<lparr>kp_procs := ps\<rparr>))"

definition sys_kill :: "('z kfile_scheme, u64) kop" where
  "sys_kill = kbind (argint 0) (\<lambda>pid. kint (on_table (kkill pid)))"

definition sys_setpriority :: "('z kfile_scheme, u64) kop" where
  "sys_setpriority = kbind (argint 0) (\<lambda>pid. kbind (argint 1) (\<lambda>priority. kint (on_table (ksetpriority pid priority))))"

definition sys_getpriority :: "('z kfile_scheme, u64) kop" where
  "sys_getpriority = kbind (argint 0) (\<lambda>pid. kint (kget (\<lambda>s. kgetpriority pid (kp_procs s))))"

definition sys_uptime :: "('z kfile_scheme, u64) kop" where
  "sys_uptime = kget (\<lambda>s. ucast (kf_ticks s))"

section \<open>File descriptors\<close>

text \<open>The descriptor and the file, or \<^const>\<open>None\<close> for -1.\<close>

definition argfd :: "nat \<Rightarrow> ('z kfile_scheme, (nat \<times> nat) option) kop" where
  "argfd n = kbind (argint n) (\<lambda>fd s.
     if fd < 0 \<or> fd \<ge> int NOFILE then Ret None s
     else Ret (map_option (Pair (nat fd)) (p_ofile (myproc s) ! nat fd)) s)"

definition fdalloc :: "nat \<Rightarrow> ('z kfile_scheme, int) kop" where
  "fdalloc f = (\<lambda>s. case scan_idx (\<lambda>x. x = None) (p_ofile (myproc s)) of
       None \<Rightarrow> Ret (-1) s
     | Some fd \<Rightarrow> kseq (kupd_proc (kp_me s) (\<lambda>p. p\<lparr>p_ofile := (p_ofile p)[fd := Some f]\<rparr>)) (kret (int fd)) s)"

definition set_fd :: "nat \<Rightarrow> nat option \<Rightarrow> ('z kfile_scheme, unit) kop" where
  "set_fd fd v = (\<lambda>s. kupd_proc (kp_me s) (\<lambda>p. p\<lparr>p_ofile := (p_ofile p)[fd := v]\<rparr>) s)"

definition sys_dup :: "('z kfile_scheme, u64) kop" where
  "sys_dup = kbind (argfd 0) (\<lambda>r. case r of None \<Rightarrow> kret (-1)
     | Some (_, f) \<Rightarrow> kbind (fdalloc f) (\<lambda>fd.
         if fd < 0 then kret (-1) else kbind (filedup f) (\<lambda>_. kret (word_of_int fd))))"

definition sys_read :: "('z kfile_scheme, u64) kop" where
  "sys_read = kbind (argaddr 1) (\<lambda>p. kbind (argint 2) (\<lambda>n. kbind (argfd 0) (\<lambda>r. case r of
       None \<Rightarrow> kret (-1) | Some (_, f) \<Rightarrow> kint (fileread f p n))))"

definition sys_write :: "('z kfile_scheme, u64) kop" where
  "sys_write = kbind (argaddr 1) (\<lambda>p. kbind (argint 2) (\<lambda>n. kbind (argfd 0) (\<lambda>r. case r of
       None \<Rightarrow> kret (-1) | Some (_, f) \<Rightarrow> kint (filewrite f p n))))"

definition sys_close :: "('z kfile_scheme, u64) kop" where
  "sys_close = kbind (argfd 0) (\<lambda>r. case r of None \<Rightarrow> kret (-1)
     | Some (fd, f) \<Rightarrow> kseq (set_fd fd None) (kseq (fileclose f) (kret 0)))"

definition sys_fstat :: "('z kfile_scheme, u64) kop" where
  "sys_fstat = kbind (argaddr 1) (\<lambda>st. kbind (argfd 0) (\<lambda>r. case r of
       None \<Rightarrow> kret (-1) | Some (_, f) \<Rightarrow> kint (filestat f st)))"

section \<open>Links\<close>

definition link_bad :: "nat \<Rightarrow> ('z kfile_scheme, u64) kop" where
  "link_bad ip = kseq (ilock ip) (kseq (upd_inode ip (\<lambda>i. i\<lparr>i_nlink := i_nlink i - 1\<rparr>))
     (kseq (iupdate ip) (kseq (iunlockput ip) (kseq end_op (kret (-1))))))"

definition put_end :: "nat \<Rightarrow> ('z kfile_scheme, u64) kop" where
  "put_end ip = kseq (iunlockput ip) (kseq end_op (kret (-1)))"

definition sys_link :: "('z kfile_scheme, u64) kop" where
  "sys_link = kbind (argstr 0 MAXPATH) (\<lambda>r. case r of None \<Rightarrow> kret (-1) | Some old \<Rightarrow>
     kbind (argstr 1 MAXPATH) (\<lambda>r. case r of None \<Rightarrow> kret (-1) | Some new \<Rightarrow>
     kseq begin_op (kbind (namei old) (\<lambda>r. case r of None \<Rightarrow> kseq end_op (kret (-1)) | Some ip \<Rightarrow>
     kseq (ilock ip) (\<lambda>s.
       if i_type (get_inode ip s) = T_DIR then put_end ip s
       else if sint (i_nlink (get_inode ip s)) \<ge> NLINK_MAX then put_end ip s
       else kseq (upd_inode ip (\<lambda>i. i\<lparr>i_nlink := i_nlink i + 1\<rparr>)) (kseq (iupdate ip) (kseq (iunlock ip)
         (kbind (nameiparent new) (\<lambda>r. case r of None \<Rightarrow> link_bad ip | Some (dp, name) \<Rightarrow>
           kseq (ilock dp) (\<lambda>s.
             if i_nlink (get_inode dp s) = 0 then kseq (iunlockput dp) (link_bad ip) s
             else if i_dev (get_inode dp s) \<noteq> i_dev (get_inode ip s) then kseq (iunlockput dp) (link_bad ip) s
             else kbind (dirlink dp name (i_inum (get_inode ip s))) (\<lambda>r.
               if r < 0 then kseq (iunlockput dp) (link_bad ip)
               else kseq (iunlockput dp) (kseq (iput ip) (kseq end_op (kret 0)))) s))))) s)))))"

primrec isdirempty_loop :: "nat \<Rightarrow> nat \<Rightarrow> u32 \<Rightarrow> ('z kfs_scheme, bool) kop" where
  "isdirempty_loop 0 dp off = (\<lambda>s. Fault)"
| "isdirempty_loop (Suc k) dp off = (\<lambda>s.
     if off < i_size (get_inode dp s)
     then kbind (readi dp VarDst off (of_nat DIRENT_SIZE)) (\<lambda>(r, bs).
       if r \<noteq> int DIRENT_SIZE then kpanic ''isdirempty: readi''
       else if de_inum (get_dirent bs) \<noteq> 0 then kret False
       else isdirempty_loop k dp (off + of_nat DIRENT_SIZE)) s
     else Ret True s)"

definition isdirempty :: "nat \<Rightarrow> ('z kfs_scheme, bool) kop" where
  "isdirempty dp = (\<lambda>s. isdirempty_loop (Suc (unat (i_size (get_inode dp s)))) dp (2 * of_nat DIRENT_SIZE) s)"

abbreviation dot_name :: "u8 list" where "dot_name \<equiv> [0x2E]"
abbreviation dotdot_name :: "u8 list" where "dotdot_name \<equiv> [0x2E, 0x2E]"

definition unlink_entry :: "nat \<Rightarrow> nat \<Rightarrow> u32 \<Rightarrow> ('z kfile_scheme, u64) kop" where
  "unlink_entry dp ip off = kbind (writei dp (VarSrc (replicate DIRENT_SIZE 0)) off (of_nat DIRENT_SIZE)) (\<lambda>r.
     if r \<noteq> int DIRENT_SIZE then kpanic ''unlink: writei''
     else kseq (\<lambda>s. if i_type (get_inode ip s) = T_DIR
                    then kseq (upd_inode dp (\<lambda>i. i\<lparr>i_nlink := i_nlink i - 1\<rparr>)) (iupdate dp) s else Ret () s)
       (kseq (iunlockput dp)
         (kseq (upd_inode ip (\<lambda>i. i\<lparr>i_nlink := i_nlink i - 1\<rparr>))
           (kseq (iupdate ip) (kseq (iunlockput ip) (kseq end_op (kret 0)))))))"

definition sys_unlink :: "('z kfile_scheme, u64) kop" where
  "sys_unlink = kbind (argstr 0 MAXPATH) (\<lambda>r. case r of None \<Rightarrow> kret (-1) | Some path \<Rightarrow>
     kseq begin_op (kbind (nameiparent path) (\<lambda>r. case r of None \<Rightarrow> kseq end_op (kret (-1)) | Some (dp, name) \<Rightarrow>
     kseq (ilock dp)
       (if namecmp name dot_name = 0 \<or> namecmp name dotdot_name = 0 then put_end dp
        else kbind (dirlookup dp name) (\<lambda>r. case r of None \<Rightarrow> put_end dp | Some (ip, off) \<Rightarrow>
          kseq (ilock ip) (\<lambda>s.
            if sint (i_nlink (get_inode ip s)) < 1 then Panic ''unlink: nlink < 1''
            else kbind (if i_type (get_inode ip s) = T_DIR then isdirempty ip else kret True) (\<lambda>ok.
              if \<not> ok then kseq (iunlockput ip) (put_end dp) else unlink_entry dp ip off) s))))))"

section \<open>Creation\<close>

definition create_fail :: "nat \<Rightarrow> nat \<Rightarrow> ('z kfile_scheme, nat option) kop" where
  "create_fail dp ip = kseq (upd_inode ip (\<lambda>i. i\<lparr>i_nlink := 0\<rparr>))
     (kseq (iupdate ip) (kseq (iunlockput ip) (kseq (iunlockput dp) (kret None))))"

definition create_dots :: "nat \<Rightarrow> nat \<Rightarrow> ('z kfile_scheme, bool) kop" where
  "create_dots dp ip = (\<lambda>s. kbind (dirlink ip dot_name (i_inum (get_inode ip s))) (\<lambda>r.
     if r < 0 then kret False
     else (\<lambda>s. kbind (dirlink ip dotdot_name (i_inum (get_inode dp s))) (\<lambda>r. kret (\<not> r < 0)) s)) s)"

definition create_new :: "nat \<Rightarrow> u8 list \<Rightarrow> u16 \<Rightarrow> u16 \<Rightarrow> u16 \<Rightarrow> ('z kfile_scheme, nat option) kop" where
  "create_new dp name type major minor = (\<lambda>s.
     kbind (ialloc (i_dev (get_inode dp s)) type) (\<lambda>r. case r of None \<Rightarrow> kseq (iunlockput dp) (kret None) | Some ip \<Rightarrow>
     kseq (ilock ip) (kseq (upd_inode ip (\<lambda>i. i\<lparr>i_major := major, i_minor := minor, i_nlink := 1\<rparr>)) (kseq (iupdate ip)
       (kbind (if type = T_DIR then create_dots dp ip else kret True) (\<lambda>ok.
         if \<not> ok then create_fail dp ip
         else (\<lambda>s. kbind (dirlink dp name (i_inum (get_inode ip s))) (\<lambda>r.
           if r < 0 then create_fail dp ip
           else kseq (if type = T_DIR then kseq (upd_inode dp (\<lambda>i. i\<lparr>i_nlink := i_nlink i + 1\<rparr>)) (iupdate dp) else kret ())
             (kseq (iunlockput dp) (kret (Some ip)))) s)))))) s)"

definition create :: "u8 list \<Rightarrow> u16 \<Rightarrow> u16 \<Rightarrow> u16 \<Rightarrow> ('z kfile_scheme, nat option) kop" where
  "create path type major minor = kbind (nameiparent path) (\<lambda>r. case r of None \<Rightarrow> kret None | Some (dp, name) \<Rightarrow>
     kseq (ilock dp) (\<lambda>s.
       if i_nlink (get_inode dp s) = 0 then kseq (iunlockput dp) (kret None) s
       else if type = T_DIR \<and> sint (i_nlink (get_inode dp s)) \<ge> NLINK_MAX then kseq (iunlockput dp) (kret None) s
       else kbind (dirlookup dp name) (\<lambda>r. case r of
           Some (ip, _) \<Rightarrow> kseq (iunlockput dp) (kseq (ilock ip) (\<lambda>s.
             if type = T_FILE \<and> (i_type (get_inode ip s) = T_FILE \<or> i_type (get_inode ip s) = T_DEVICE) then Ret (Some ip) s
             else kseq (iunlockput ip) (kret None) s))
         | None \<Rightarrow> create_new dp name type major minor) s))"

text \<open>The part of \<open>sys_open\<close> after the inode is found and locked.\<close>

definition open_inode :: "nat \<Rightarrow> u32 \<Rightarrow> ('z kfile_scheme, u64) kop" where
  "open_inode ip omode = (\<lambda>s. let i = get_inode ip s in
     if i_type i = T_DEVICE \<and> (sint (i_major i) < 0 \<or> sint (i_major i) \<ge> NDEV) then put_end ip s
     else kbind filealloc (\<lambda>r. case r of None \<Rightarrow> put_end ip | Some f \<Rightarrow>
       kbind (fdalloc f) (\<lambda>fd. if fd < 0 then kseq (fileclose f) (put_end ip)
         else kseq (upd_file f (\<lambda>x. (if i_type i = T_DEVICE then x\<lparr>f_type := FD_DEVICE, f_major := i_major i\<rparr>
                                     else x\<lparr>f_type := FD_INODE, f_off := 0\<rparr>)
                \<lparr>f_ip := Some ip, f_readable := (omode AND O_WRONLY = 0),
                 f_writable := (omode AND O_WRONLY \<noteq> 0 \<or> omode AND O_RDWR \<noteq> 0)\<rparr>))
           (kseq (if omode AND O_TRUNC \<noteq> 0 \<and> i_type i = T_FILE then itrunc ip else kret ())
             (kseq (iunlock ip) (kseq end_op (kret (word_of_int fd))))))) s)"

definition sys_open :: "('z kfile_scheme, u64) kop" where
  "sys_open = kbind (argint 1) (\<lambda>om. let omode = word_of_int om :: u32 in
     kbind (argstr 0 MAXPATH) (\<lambda>r. case r of None \<Rightarrow> kret (-1) | Some path \<Rightarrow>
     kseq begin_op
       (if omode AND O_CREATE \<noteq> 0
        then kbind (create path T_FILE 0 0) (\<lambda>r. case r of None \<Rightarrow> kseq end_op (kret (-1)) | Some ip \<Rightarrow> open_inode ip omode)
        else kbind (namei path) (\<lambda>r. case r of None \<Rightarrow> kseq end_op (kret (-1)) | Some ip \<Rightarrow>
          kseq (ilock ip) (\<lambda>s.
            if i_type (get_inode ip s) = T_DIR \<and> omode \<noteq> O_RDONLY then put_end ip s
            else open_inode ip omode s)))))"

definition sys_mkdir :: "('z kfile_scheme, u64) kop" where
  "sys_mkdir = kseq begin_op (kbind (argstr 0 MAXPATH) (\<lambda>r. case r of None \<Rightarrow> kseq end_op (kret (-1)) | Some path \<Rightarrow>
     kbind (create path T_DIR 0 0) (\<lambda>r. case r of None \<Rightarrow> kseq end_op (kret (-1)) | Some ip \<Rightarrow>
       kseq (iunlockput ip) (kseq end_op (kret 0)))))"

definition sys_mknod :: "('z kfile_scheme, u64) kop" where
  "sys_mknod = kseq begin_op (kbind (argint 1) (\<lambda>major. kbind (argint 2) (\<lambda>minor.
     kbind (argstr 0 MAXPATH) (\<lambda>r. case r of None \<Rightarrow> kseq end_op (kret (-1)) | Some path \<Rightarrow>
       kbind (create path T_DEVICE (word_of_int major) (word_of_int minor)) (\<lambda>r. case r of
           None \<Rightarrow> kseq end_op (kret (-1))
         | Some ip \<Rightarrow> kseq (iunlockput ip) (kseq end_op (kret 0)))))))"

definition sys_chdir :: "('z kfile_scheme, u64) kop" where
  "sys_chdir = kseq begin_op (kbind (argstr 0 MAXPATH) (\<lambda>r. case r of None \<Rightarrow> kseq end_op (kret (-1)) | Some path \<Rightarrow>
     kbind (namei path) (\<lambda>r. case r of None \<Rightarrow> kseq end_op (kret (-1)) | Some ip \<Rightarrow>
       kseq (ilock ip) (\<lambda>s.
         if i_type (get_inode ip s) \<noteq> T_DIR then put_end ip s
         else kseq (iunlock ip) (kseq (\<lambda>s. deref (p_cwd (myproc s)) iput s) (kseq end_op
           (\<lambda>s. kseq (kupd_proc (kp_me s) (\<lambda>p. p\<lparr>p_cwd := Some ip\<rparr>)) (kret 0) s))) s))))"

section \<open>exec and pipe\<close>

text \<open>
  The loop of \<open>sys_exec\<close>, with \<open>k\<close> entries of \<open>argv\<close> left: the pages allocated, and the
  strings in them, or \<^const>\<open>None\<close> for a jump to \<open>bad\<close>.
\<close>

primrec exec_args :: "nat \<Rightarrow> u64 \<Rightarrow> u64 list \<Rightarrow> u8 list list \<Rightarrow> ('z kfile_scheme, u64 list \<times> u8 list list option) kop" where
  "exec_args 0 uargv pages args = kret (pages, None)"
| "exec_args (Suc k) uargv pages args = kbind (fetchaddr uargv) (\<lambda>r. case r of
       None \<Rightarrow> kret (pages, None)
     | Some uarg \<Rightarrow>
         if uarg = 0 then kret (pages, Some args)
         else kbind kalloc (\<lambda>pg.
           if pg = 0 then kret (pages, None)
           else kbind (fetchstr uarg (unat PGSIZE)) (\<lambda>r. case r of
               None \<Rightarrow> kret (pages @ [pg], None)
             | Some str \<Rightarrow> kseq (write_bytes pg (str @ [0])) (exec_args k (uargv + 8) (pages @ [pg]) (args @ [str])))))"

definition sys_exec :: "('z kfile_scheme, u64) kop" where
  "sys_exec = kbind (argaddr 1) (\<lambda>uargv. kbind (argstr 0 MAXPATH) (\<lambda>r. case r of None \<Rightarrow> kret (-1) | Some path \<Rightarrow>
     kbind (exec_args MAXARG uargv [] []) (\<lambda>(pages, args). case args of
         None \<Rightarrow> kseq (kfor pages kfree) (kret (-1))
       | Some argv \<Rightarrow> kbind (kexec path argv) (\<lambda>ret. kseq (kfor pages kfree) (kret (word_of_int ret))))))"

definition pipe_undo :: "nat list \<Rightarrow> nat \<Rightarrow> nat \<Rightarrow> ('z kfile_scheme, u64) kop" where
  "pipe_undo fds rfile wfile = kseq (kfor fds (\<lambda>fd. set_fd fd None)) (kseq (fileclose rfile) (kseq (fileclose wfile) (kret (-1))))"

definition sys_pipe :: "('z kfile_scheme, u64) kop" where
  "sys_pipe = kbind (argaddr 0) (\<lambda>fdarray. kbind pipealloc (\<lambda>r. case r of None \<Rightarrow> kret (-1) | Some (rfile, wfile) \<Rightarrow>
     kbind (fdalloc rfile) (\<lambda>fd0. if fd0 < 0 then pipe_undo [] rfile wfile
       else kbind (fdalloc wfile) (\<lambda>fd1. if fd1 < 0 then pipe_undo [nat fd0] rfile wfile
         else kbind (copyout_me fdarray (bytes_of_word 4 (word_of_int fd0 :: u32))) (\<lambda>r.
           if r < 0 then pipe_undo [nat fd0, nat fd1] rfile wfile
           else kbind (copyout_me (fdarray + 4) (bytes_of_word 4 (word_of_int fd1 :: u32))) (\<lambda>r.
             if r < 0 then pipe_undo [nat fd0, nat fd1] rfile wfile else kret 0))))))"

section \<open>Dispatch\<close>

definition SYSCALLS :: int where "SYSCALLS = 25"

definition syscalls :: "int \<Rightarrow> ('z kfile_scheme, u64) kop option" where
  "syscalls num =
     (if num = 1 then Some sys_fork else if num = 2 then Some sys_exit else if num = 3 then Some sys_wait
      else if num = 4 then Some sys_pipe else if num = 5 then Some sys_read else if num = 6 then Some sys_kill
      else if num = 7 then Some sys_exec else if num = 8 then Some sys_fstat else if num = 9 then Some sys_chdir
      else if num = 10 then Some sys_dup else if num = 11 then Some sys_getpid else if num = 12 then Some sys_sbrk
      else if num = 13 then Some sys_pause else if num = 14 then Some sys_uptime else if num = 15 then Some sys_open
      else if num = 16 then Some sys_write else if num = 17 then Some sys_mknod else if num = 18 then Some sys_unlink
      else if num = 19 then Some sys_link else if num = 20 then Some sys_mkdir else if num = 21 then Some sys_close
      else if num = 22 then Some (kint sys_sync) else if num = 23 then Some sys_setpriority
      else if num = 24 then Some sys_getpriority else None)"

definition syscall :: "('z kfile_scheme, unit) kop" where
  "syscall = (\<lambda>s. let p = myproc s; num = sint (ucast (tf_load (kp_me s) TF_A7 s) :: u32) in
     case (if num > 0 \<and> num < SYSCALLS then syscalls num else None) of
       Some handler \<Rightarrow> kbind handler (\<lambda>r s. tf_store (kp_me s) TF_A0 r s) s
     | None \<Rightarrow>
         kseq (kprintk (''%d %s: unknown sys call %d'' @ [CHR 0x0A])
             [KWord (word_of_int (p_pid p)), KStr (Some (name_string (p_name p))), KWord (word_of_int num)])
           (\<lambda>s. tf_store (kp_me s) TF_A0 (-1) s) s)"

end
