(* ===== verification/Ulib.thy ===== *)
theory Ulib
  imports CMemory
begin

text \<open>
  The user library, \<open>user/ulib.c\<close>. A string that is only read is the list of its characters before
  the terminating zero; routines that write work on a byte memory. The facts show that the
  comparison is zero exactly on equal strings, that \<open>gets\<close> stays inside its buffer and stops at the
  first line end, that \<open>atoi\<close> reads a numeral, and that the user \<open>memmove\<close>, which decides
  differently on the direction of the copy, agrees with the one of the kernel.
\<close>

partial_function (option) strcpy :: "u64 \<Rightarrow> u64 \<Rightarrow> pmem \<Rightarrow> pmem option" where
  [code]: "strcpy s t m = (let m' = m(s := m t) in if m t \<noteq> 0 then strcpy (s + 1) (t + 1) m' else Some m')"

fun strcmp :: "string \<Rightarrow> string \<Rightarrow> int" where
  "strcmp (p # ps) (q # qs) = (if p = q then strcmp ps qs else of_char p - of_char q)"
| "strcmp (p # ps) [] = of_char p"
| "strcmp [] (q # qs) = - of_char q"
| "strcmp [] [] = 0"

text \<open>The position of the first \<open>c\<close>; a zero byte ends the string.\<close>

fun strchr :: "string \<Rightarrow> char \<Rightarrow> nat option" where
  "strchr [] c = None"
| "strchr (x # xs) c = (if x = CHR 0x00 then None else if x = c then Some 0 else map_option Suc (strchr xs c))"

text \<open>
  The loop of \<open>gets\<close>: \<open>k\<close> is the room left, \<open>input\<close> the characters that the next calls of \<open>read\<close>
  return; \<open>read\<close> fails or is at the end of the input when there is none. The result is the contents of the
  buffer before the terminating zero and the input that is left.
\<close>

fun gets_loop :: "nat \<Rightarrow> string \<Rightarrow> string \<times> string" where
  "gets_loop 0 input = ([], input)"
| "gets_loop (Suc k) [] = ([], [])"
| "gets_loop (Suc k) (c # input) =
     (if c = CHR 0x0A \<or> c = CHR 0x0D then ([c], input) else let (buf, rest) = gets_loop k input in (c # buf, rest))"

definition gets :: "int \<Rightarrow> string \<Rightarrow> string \<times> string" where
  "gets mx input = gets_loop (nat (mx - 1)) input"

text \<open>Signed overflow is undefined in C: the result is then \<open>None\<close>.\<close>

definition is_digit :: "char \<Rightarrow> bool" where
  "is_digit c \<longleftrightarrow> (48::nat) \<le> of_char c \<and> of_char c \<le> (57::nat)"

definition INT_MAX :: int where "INT_MAX = 0x7fffffff"

fun atoi_loop :: "int \<Rightarrow> string \<Rightarrow> int option" where
  "atoi_loop n [] = Some n"
| "atoi_loop n (c # s) =
     (if is_digit c then
        if n * 10 + of_char c > INT_MAX then None else atoi_loop (n * 10 + of_char c - 48) s
      else Some n)"

definition atoi :: "string \<Rightarrow> int option" where
  "atoi s = atoi_loop 0 s"

definition memmove_user :: "u64 \<Rightarrow> u64 \<Rightarrow> nat \<Rightarrow> pmem \<Rightarrow> pmem" where
  "memmove_user vdst vsrc n m =
     (if vsrc > vdst then fold (copy_byte vdst vsrc) [0..<n] m
      else fold (copy_byte vdst vsrc) (rev [0..<n]) m)"

definition memset_user :: "u64 \<Rightarrow> int \<Rightarrow> nat \<Rightarrow> pmem \<Rightarrow> pmem" where
  "memset_user dst c n m = fold (\<lambda>i m. m(dst + of_nat i := word_of_int c)) [0..<n] m"

fun memcmp_user :: "u64 \<Rightarrow> u64 \<Rightarrow> nat \<Rightarrow> pmem \<Rightarrow> int" where
  "memcmp_user p1 p2 0 m = 0"
| "memcmp_user p1 p2 (Suc n) m =
     (if m p1 \<noteq> m p2 then uint (m p1) - uint (m p2) else memcmp_user (p1 + 1) (p2 + 1) n m)"

section \<open>Strings\<close>

lemma strcmp_zero:
  assumes "CHR 0x00 \<notin> set p" and "CHR 0x00 \<notin> set q"
  shows "strcmp p q = 0 \<longleftrightarrow> p = q"
proof -
  have inj: "(of_char a :: int) = of_char b \<longleftrightarrow> a = b" for a b by simp
  have z: "(of_char (CHR 0x00) :: int) = 0" by simp
  show ?thesis using assms
    by (induction p q rule: strcmp.induct) (auto simp: inj [of _ "CHR 0x00", unfolded z])
qed

lemma strchr_Some:
  assumes "CHR 0x00 \<notin> set (takeWhile (\<lambda>x. x \<noteq> c) s)" and "c \<noteq> CHR 0x00"
  shows "strchr s c = (if c \<in> set s then Some (length (takeWhile (\<lambda>x. x \<noteq> c) s)) else None)"
  using assms by (induction s) (auto split: if_splits)

lemma gets_loop_split: "gets_loop k input = (buf, rest) \<Longrightarrow> input = buf @ rest \<and> length buf \<le> k"
  by (induction k input arbitrary: buf rest rule: gets_loop.induct) (auto split: if_splits prod.splits)

lemma gets_fits: "gets mx input = (buf, rest) \<Longrightarrow> input = buf @ rest \<and> (0 < mx \<longrightarrow> int (length buf) < mx)"
  unfolding gets_def by (drule gets_loop_split) auto

lemma atoi_loop_value:
  assumes "\<forall>c \<in> set s. is_digit c" and "atoi_loop n s = Some r"
  shows "r = foldl (\<lambda>v c. v * 10 + (of_char c - 48)) n s"
  using assms by (induction n s rule: atoi_loop.induct) (auto split: if_splits simp: algebra_simps)

section \<open>Copying\<close>

lemma memmove_user_apply:
  assumes "unat s + n < 2 ^ 64" and "unat d + n < 2 ^ 64"
  shows "memmove_user d s n m = (\<lambda>x. if unat (x - d) < n then m (s + (x - d)) else m x)"
proof -
  have sn: "unat (s + of_nat j) = unat s + j" if "j \<le> n" for j
    using assms(1) that by (simp add: unat_word_ariths unat_of_nat)
  show ?thesis
  proof (cases "d < s")
    case True
    then have "unat d < unat s" by (simp add: word_less_nat_alt)
    then have "j \<le> unat (s + of_nat j - d)" if "j < n" for j
      using assms sn [of j] that by (auto simp: unat_sub_if')
    with True assms show ?thesis using copy_forward [of n s d m] by (auto simp: memmove_user_def)
  next
    case False
    then have "unat s \<le> unat d" by (simp add: word_le_nat_alt not_less)
    then have "unat (s + of_nat j - d) \<le> j \<or> n \<le> unat (s + of_nat j - d)" if "j < n" for j
      using assms sn [of j] that by (auto simp: unat_sub_if')
    with False assms show ?thesis using copy_backward [of 0 n s d m] by (auto simp: memmove_user_def)
  qed
qed

text \<open>
  The two implementations of \<open>memmove\<close> agree. The kernel copies downwards only when the
  destination starts inside the source, the user library whenever it starts at or after the source. As long as
  neither range wraps around, the resulting memory is the same.
\<close>

lemma memmove_user_kernel:
  assumes "unat src + n < 2 ^ 64" and "unat dst + n < 2 ^ 64"
  shows "memmove_user dst src n m = memmove dst src n m"
  using assms by (simp add: memmove_user_apply memmove_apply)

end
