(* ===== verification/Grep.thy ===== *)
theory Grep
  imports Ulib
begin

text \<open>
  The pattern search of \<open>user/grep.c\<close>: the matcher for \<open>^ . * $\<close> on strings, and the loop that reads
  a file through a buffer of 1024 bytes. The facts give the matcher its meaning as a regular
  language, and show that the lines printed do not depend on how \<open>read\<close> cuts up the file.
\<close>

function matchhere :: "string \<Rightarrow> string \<Rightarrow> bool" and matchstar :: "char \<Rightarrow> string \<Rightarrow> string \<Rightarrow> bool" where
  "matchhere re tx = (case re of
       [] \<Rightarrow> True
     | c # re1 \<Rightarrow>
         if re1 \<noteq> [] \<and> hd re1 = CHR ''*'' then matchstar c (tl re1) tx
         else if c = CHR ''$'' \<and> re1 = [] then tx = []
         else if tx \<noteq> [] \<and> (c = CHR ''.'' \<or> c = hd tx) then matchhere re1 (tl tx)
         else False)"
| "matchstar c re tx =
     (if matchhere re tx then True
      else if tx \<noteq> [] \<and> (hd tx = c \<or> c = CHR ''.'') then matchstar c re (tl tx)
      else False)"
  by pat_completeness auto
termination
  by (relation "measures [\<lambda>x. case x of Inl (re, tx) \<Rightarrow> length re | Inr (c, re, tx) \<Rightarrow> Suc (length re),
        \<lambda>x. case x of Inl (re, tx) \<Rightarrow> length tx | Inr (c, re, tx) \<Rightarrow> length tx]")
     (auto simp: neq_Nil_conv)

fun match_loop :: "string \<Rightarrow> string \<Rightarrow> bool" where
  "match_loop re [] = matchhere re []"
| "match_loop re (c # tx) = (if matchhere re (c # tx) then True else match_loop re tx)"

definition match :: "string \<Rightarrow> string \<Rightarrow> bool" where
  "match re tx = (if re \<noteq> [] \<and> hd re = CHR ''^'' then matchhere (tl re) tx else match_loop re tx)"

text \<open>
  The inner loop of \<open>grep\<close>: \<open>p\<close> is the text of the buffer from the pointer \<open>p\<close> on. The result is what is
  written, call by call, and the text that is left when there is no newline any more.
\<close>

definition newline :: char where "newline = CHR 0x0A"

lemma strchr_less: "strchr s c = Some q \<Longrightarrow> q < length s"
  by (induction s arbitrary: q) (auto split: if_splits)

function grep_lines :: "string \<Rightarrow> string \<Rightarrow> string list \<times> string" where
  "grep_lines pattern p = (case strchr p newline of
       None \<Rightarrow> ([], p)
     | Some q \<Rightarrow> let (out, rest) = grep_lines pattern (drop (Suc q) p)
                in (if match pattern (take q p) then take (Suc q) p # out else out, rest))"
  by pat_completeness auto
termination by (relation "measure (\<lambda>(pattern, p). length p)") (auto dest: strchr_less)

text \<open>
  The outer loop. \<open>buf\<close> is the first \<open>m\<close> bytes of the buffer, \<open>input\<close> the rest of the file; the \<open>i\<close>-th
  call of \<open>read\<close> returns at most \<open>ks i\<close> bytes, and no more than the buffer has room for.
\<close>

definition BUFSZ :: nat where "BUFSZ = 1024"

function grep :: "string \<Rightarrow> (nat \<Rightarrow> nat) \<Rightarrow> nat \<Rightarrow> string \<Rightarrow> string \<Rightarrow> string list" where
  "grep pattern ks i buf input =
     (let chunk = take (min (ks i) (BUFSZ - length buf - 1)) input in
      if chunk = [] then []
      else let (out, rest) = grep_lines pattern (buf @ chunk)
           in out @ grep pattern ks (Suc i) rest (drop (length chunk) input))"
  by pat_completeness auto
termination by (relation "measure (\<lambda>(pattern, ks, i, buf, input). length input)") auto

section \<open>Patterns as regular languages\<close>

datatype atom = Any | Lit char
datatype item = One atom | Star atom

definition atom_of :: "char \<Rightarrow> atom" where
  "atom_of c = (if c = CHR ''.'' then Any else Lit c)"

fun fits :: "atom \<Rightarrow> char \<Rightarrow> bool" where
  "fits Any x \<longleftrightarrow> True"
| "fits (Lit c) x \<longleftrightarrow> x = c"

text \<open>The items of a pattern, and whether it ends in the anchor.\<close>

fun parse :: "string \<Rightarrow> item list \<times> bool" where
  "parse [] = ([], False)"
| "parse [c] = (if c = CHR ''$'' then ([], True) else ([One (atom_of c)], False))"
| "parse (c # d # re) =
     (if d = CHR ''*'' then let (is, e) = parse re in (Star (atom_of c) # is, e)
      else let (is, e) = parse (d # re) in (One (atom_of c) # is, e))"

fun item_lang :: "item \<Rightarrow> string set" where
  "item_lang (One a) = {[x] | x. fits a x}"
| "item_lang (Star a) = {xs. \<forall>x \<in> set xs. fits a x}"

primrec pattern_lang :: "item list \<Rightarrow> string set" where
  "pattern_lang [] = {[]}"
| "pattern_lang (i # is) = {u @ v | u v. u \<in> item_lang i \<and> v \<in> pattern_lang is}"

text \<open>A prefix of the text is in the language of the pattern, the whole text if the pattern is anchored at its end.\<close>

definition prefix_in :: "item list \<times> bool \<Rightarrow> string \<Rightarrow> bool" where
  "prefix_in p tx \<longleftrightarrow> (\<exists>u v. tx = u @ v \<and> u \<in> pattern_lang (fst p) \<and> (snd p \<longrightarrow> v = []))"

lemma pattern_lang_ConsI: "u \<in> item_lang i \<Longrightarrow> v \<in> pattern_lang is \<Longrightarrow> u @ v \<in> pattern_lang (i # is)"
  by auto

lemma prefix_in_Nil: "prefix_in ([], e) tx \<longleftrightarrow> \<not> e \<or> tx = []"
  by (auto simp: prefix_in_def)

lemma prefix_in_One: "prefix_in (One a # is, e) tx \<longleftrightarrow> tx \<noteq> [] \<and> fits a (hd tx) \<and> prefix_in (is, e) (tl tx)"
proof
  assume "prefix_in (One a # is, e) tx"
  then show "tx \<noteq> [] \<and> fits a (hd tx) \<and> prefix_in (is, e) (tl tx)"
    unfolding prefix_in_def by force
next
  assume r: "tx \<noteq> [] \<and> fits a (hd tx) \<and> prefix_in (is, e) (tl tx)"
  then obtain u v where uv: "tl tx = u @ v" "u \<in> pattern_lang is" "e \<longrightarrow> v = []" by (auto simp: prefix_in_def)
  have "tx = (hd tx # u) @ v" using r uv(1) by (cases tx) auto
  moreover have "hd tx # u \<in> pattern_lang (One a # is)" 
    using pattern_lang_ConsI [of "[hd tx]" "One a" u] r uv(2) by simp
  ultimately show "prefix_in (One a # is, e) tx" unfolding prefix_in_def fst_conv snd_conv using uv(3) by blast
qed

lemma prefix_in_StarE:
  assumes "prefix_in (Star a # is, e) tx"
  obtains s u v where "tx = (s @ u) @ v" "\<forall>x \<in> set s. fits a x" "u \<in> pattern_lang is" "e \<longrightarrow> v = []"
proof -
  from assms obtain w v where w: "tx = w @ v" "w \<in> pattern_lang (Star a # is)" "e \<longrightarrow> v = []"
    unfolding prefix_in_def fst_conv snd_conv by blast
  from w(2) obtain s u where "w = s @ u" "\<forall>x \<in> set s. fits a x" "u \<in> pattern_lang is" by auto
  then show thesis using that w(1,3) by blast
qed

lemma prefix_in_Star:
  "prefix_in (Star a # is, e) tx \<longleftrightarrow>
     prefix_in (is, e) tx \<or> tx \<noteq> [] \<and> fits a (hd tx) \<and> prefix_in (Star a # is, e) (tl tx)"
proof
  assume "prefix_in (Star a # is, e) tx"
  then obtain s u v where t: "tx = (s @ u) @ v" "\<forall>x \<in> set s. fits a x" "u \<in> pattern_lang is" "e \<longrightarrow> v = []"
    by (rule prefix_in_StarE)
  show "prefix_in (is, e) tx \<or> tx \<noteq> [] \<and> fits a (hd tx) \<and> prefix_in (Star a # is, e) (tl tx)"
  proof (cases s)
    case Nil
    then show ?thesis using t by (auto simp: prefix_in_def)
  next
    case (Cons x s')
    then have "tl tx = (s' @ u) @ v" "s' @ u \<in> pattern_lang (Star a # is)" using t by auto
    then have "prefix_in (Star a # is, e) (tl tx)" unfolding prefix_in_def fst_conv snd_conv using t(4) by blast
    then show ?thesis using t Cons by auto
  qed
next
  assume "prefix_in (is, e) tx \<or> tx \<noteq> [] \<and> fits a (hd tx) \<and> prefix_in (Star a # is, e) (tl tx)"
  then show "prefix_in (Star a # is, e) tx"
  proof
    assume "prefix_in (is, e) tx"
    then obtain u v where uv: "tx = u @ v" "u \<in> pattern_lang is" "e \<longrightarrow> v = []" by (auto simp: prefix_in_def)
    then have "u \<in> pattern_lang (Star a # is)" using pattern_lang_ConsI [of "[]" "Star a" u] by simp
    then show ?thesis unfolding prefix_in_def using uv by auto
  next
    assume r: "tx \<noteq> [] \<and> fits a (hd tx) \<and> prefix_in (Star a # is, e) (tl tx)"
    then obtain s u v where t: "tl tx = (s @ u) @ v" "\<forall>x \<in> set s. fits a x" "u \<in> pattern_lang is" "e \<longrightarrow> v = []"
      using prefix_in_StarE [of a "is" e "tl tx"] by metis
    have "tx = ((hd tx # s) @ u) @ v" using r t(1) by (cases tx) auto
    moreover have "(hd tx # s) @ u \<in> pattern_lang (Star a # is)"
      using r t(2,3) by (intro pattern_lang_ConsI) auto
    ultimately show ?thesis unfolding prefix_in_def fst_conv snd_conv using t(4) by blast
  qed
qed

lemma fits_atom_of: "fits (atom_of c) x \<longleftrightarrow> c = CHR ''.'' \<or> c = x"
  by (auto simp: atom_of_def)

declare matchhere.simps [simp del] matchstar.simps [simp del]

lemma matchhere_correct:
  shows "matchhere re tx \<longleftrightarrow> prefix_in (parse re) tx"
    and "matchstar c re tx \<longleftrightarrow> prefix_in (Star (atom_of c) # fst (parse re), snd (parse re)) tx"
proof (induction re tx and c re tx rule: matchhere_matchstar.induct)
  case (1 re tx)
  show ?case
  proof (cases re rule: parse.cases)
    case 1
    then show ?thesis by (simp add: matchhere.simps prefix_in_Nil)
  next
    case (2 c)
    then show ?thesis using "1.IH"(2) [of c "[]"]
      by (subst matchhere.simps) (auto simp: prefix_in_Nil prefix_in_One fits_atom_of)
  next
    case (3 c d r)
    show ?thesis
    proof (cases "d = CHR ''*''")
      case True
      then show ?thesis using "1.IH"(1) [of c "d # r"] 3
        by (subst matchhere.simps) (simp add: case_prod_beta)
    next
      case False
      then show ?thesis using "1.IH"(2) [of c "d # r"] 3
        by (subst matchhere.simps) (auto simp: case_prod_beta prefix_in_One fits_atom_of)
    qed
  qed
next
  case (2 c re tx)
  show ?case using 2 by (subst matchstar.simps, subst prefix_in_Star) (auto simp: fits_atom_of)
qed

lemma match_loop_iff: "match_loop re tx \<longleftrightarrow> (\<exists>u v. tx = u @ v \<and> matchhere re v)"
  by (induction re tx rule: match_loop.induct) (auto simp: Cons_eq_append_conv)

text \<open>
  C38: the matcher decides a regular language. A text matches exactly if it has a part in the language of the
  pattern, where a character stands for itself, \<open>.\<close> for any character and \<open>*\<close> after either for any number of them;
  the part starts at the beginning of the text if the pattern starts with \<open>^\<close> and reaches to its end
  if the pattern ends with \<open>$\<close>.
\<close>

theorem match_correct:
  "match re tx \<longleftrightarrow> (let anchored = re \<noteq> [] \<and> hd re = CHR ''^''; (is, e) = parse (if anchored then tl re else re) in
     \<exists>u v w. tx = u @ v @ w \<and> v \<in> pattern_lang is \<and> (anchored \<longrightarrow> u = []) \<and> (e \<longrightarrow> w = []))"
proof (cases "re \<noteq> [] \<and> hd re = CHR ''^''")
  case True
  then show ?thesis by (auto simp: match_def matchhere_correct prefix_in_def case_prod_beta)
next
  case False
  then show ?thesis by (auto simp: match_def match_loop_iff matchhere_correct prefix_in_def case_prod_beta)
qed

theorem match_correct_witness:
  "match ''b.*d$'' ''abccd'' \<and> (\<exists>u v w. ''abccd'' = u @ v @ w \<and> v \<in> pattern_lang [One (Lit CHR ''b''), Star Any, One (Lit CHR ''d'')] \<and> w = [])"
proof -
  have p: "parse ''b.*d$'' = ([One (Lit CHR ''b''), Star Any, One (Lit CHR ''d'')], True)"
    by (simp add: atom_of_def)
  have "match ''b.*d$'' ''abccd''" by (simp add: match_def matchhere.simps matchstar.simps)
  moreover have n: "(''b.*d$'' \<noteq> [] \<and> hd ''b.*d$'' = CHR ''^'') = False" by simp
  ultimately show ?thesis using match_correct [of "''b.*d$''" "''abccd''"] unfolding Let_def n if_False p prod.case by blast
qed


section \<open>Lines\<close>

text \<open>The lines of a text that are ended by a newline, and the rest after the last one.\<close>

fun lines :: "string \<Rightarrow> string list" where
  "lines [] = []"
| "lines (c # cs) = (if c = newline then [] # lines cs
     else case lines cs of [] \<Rightarrow> [] | l # ls \<Rightarrow> (c # l) # ls)"

fun last_line :: "string \<Rightarrow> string" where
  "last_line [] = []"
| "last_line (c # cs) = (if newline \<in> set (c # cs) then last_line cs else c # cs)"

definition matching_lines :: "string \<Rightarrow> string \<Rightarrow> string list" where
  "matching_lines pattern s = map (\<lambda>l. l @ [newline]) (filter (match pattern) (lines s))"

lemma lines_append_newline: "newline \<notin> set l \<Longrightarrow> lines (l @ newline # cs) = l # lines cs"
  by (induction l) auto

lemma lines_no_newline: "newline \<notin> set l \<Longrightarrow> lines l = []"
  by (induction l) auto

lemma last_line_append: "last_line (l @ newline # cs) = last_line cs"
  by (induction l) auto

lemma last_line_no_newline: "newline \<notin> set l \<Longrightarrow> last_line l = l"
  by (cases l) auto

lemma newline_last_line: "newline \<notin> set (last_line s)"
  by (induction s) auto

lemma set_last_line: "set (last_line s) \<subseteq> set s"
  by (induction s) auto

lemma split_newline:
  assumes "newline \<in> set p"
  obtains l cs where "p = l @ newline # cs" "newline \<notin> set l"
  using split_list_first [OF assms] that by blast

lemma strchr_newline: "newline \<notin> set l \<Longrightarrow> CHR 0x00 \<notin> set l \<Longrightarrow> strchr (l @ newline # cs) newline = Some (length l)"
  by (induction l) (auto simp: newline_def)

lemma strchr_none: "newline \<notin> set l \<Longrightarrow> strchr l newline = None"
  by (induction l) auto

declare grep_lines.simps [simp del] grep.simps [simp del]

lemma grep_lines_eq:
  "CHR 0x00 \<notin> set p \<Longrightarrow> grep_lines pattern p = (matching_lines pattern p, last_line p)"
proof (induction "length p" arbitrary: p rule: less_induct)
  case less
  show ?case
  proof (cases "newline \<in> set p")
    case True
    then obtain l cs where p: "p = l @ newline # cs" "newline \<notin> set l" by (rule split_newline)
    have IH: "grep_lines pattern cs = (matching_lines pattern cs, last_line cs)"
      using less.prems by (intro less.hyps) (auto simp: p)
    have "strchr p newline = Some (length l)" using p less.prems by (simp add: strchr_newline)
    then show ?thesis
      by (subst grep_lines.simps) (simp add: p lines_append_newline last_line_append matching_lines_def IH)
  next
    case False
    then show ?thesis
      by (subst grep_lines.simps) (simp add: strchr_none lines_no_newline last_line_no_newline matching_lines_def)
  qed
qed

text \<open>A text that comes in two parts: the rest of the first part is completed by the second.\<close>

lemma matching_lines_append:
  "matching_lines pattern (s @ t) = matching_lines pattern s @ matching_lines pattern (last_line s @ t)"
proof (induction "length s" arbitrary: s rule: less_induct)
  case less
  show ?case
  proof (cases "newline \<in> set s")
    case True
    then obtain l cs where s: "s = l @ newline # cs" "newline \<notin> set l" by (rule split_newline)
    have "matching_lines pattern (cs @ t) = matching_lines pattern cs @ matching_lines pattern (last_line cs @ t)"
      by (rule less.hyps) (simp add: s)
    then show ?thesis using s by (simp add: matching_lines_def lines_append_newline last_line_append)
  next
    case False
    then show ?thesis by (simp add: last_line_no_newline matching_lines_def lines_no_newline)
  qed
qed

text \<open>No line of the text, also not the last one, is longer than \<open>n\<close>.\<close>

definition short_lines :: "nat \<Rightarrow> string \<Rightarrow> bool" where
  "short_lines n s \<longleftrightarrow> (\<forall>l \<in> set (last_line s # lines s). length l \<le> n)"

lemma short_lines_split: "newline \<notin> set l \<Longrightarrow> short_lines n (l @ newline # cs) \<longleftrightarrow> length l \<le> n \<and> short_lines n cs"
  by (auto simp: short_lines_def lines_append_newline last_line_append)

lemma short_lines_rest: "short_lines n (s @ t) \<Longrightarrow> short_lines n (last_line s @ t)"
proof (induction "length s" arbitrary: s rule: less_induct)
  case less
  show ?case
  proof (cases "newline \<in> set s")
    case True
    then obtain l cs where s: "s = l @ newline # cs" "newline \<notin> set l" by (rule split_newline)
    have "short_lines n (cs @ t)" using less.prems s by (simp add: short_lines_split)
    then show ?thesis using less.hyps [of cs] by (simp add: s last_line_append)
  next
    case False
    then show ?thesis using less.prems by (simp add: last_line_no_newline)
  qed
qed

lemma short_lines_prefix: "short_lines n (l @ t) \<Longrightarrow> newline \<notin> set l \<Longrightarrow> length l \<le> n"
proof (cases "newline \<in> set t")
  case True
  assume a: "short_lines n (l @ t)" "newline \<notin> set l"
  obtain m cs where "t = m @ newline # cs" "newline \<notin> set m" using True by (rule split_newline)
  then show ?thesis using short_lines_split [of "l @ m" n cs] a by simp
next
  case False
  assume "short_lines n (l @ t)" "newline \<notin> set l"
  then show ?thesis using False by (simp add: short_lines_def last_line_no_newline)
qed

lemma grep_eq:
  assumes "\<And>j. 0 < ks j" and "CHR 0x00 \<notin> set (buf @ input)" and "short_lines (BUFSZ - 2) (buf @ input)"
    and "newline \<notin> set buf"
  shows "grep pattern ks i buf input = matching_lines pattern (buf @ input)"
  using assms(2-)
proof (induction "length input" arbitrary: i buf input rule: less_induct)
  case less
  let ?n = "min (ks i) (BUFSZ - length buf - 1)" let ?c = "take ?n input" let ?r = "drop (length ?c) input"
  have len: "length buf \<le> BUFSZ - 2" using short_lines_prefix less.prems by blast
  then have n: "0 < ?n" using assms(1) [of i] by (simp add: BUFSZ_def)
  show ?case
  proof (cases "input = []")
    case True
    then show ?thesis using less.prems by (subst grep.simps) (simp add: matching_lines_def lines_no_newline)
  next
    case False
    have split: "input = ?c @ ?r" by (simp add: min_def)
    have c: "?c \<noteq> []" using n False by (cases input) (auto simp: gr0_conv_Suc)
    have all: "(buf @ ?c) @ ?r = buf @ input" using split by simp
    have nul: "CHR 0x00 \<notin> set (buf @ ?c)" using less.prems(1) by (auto dest: in_set_takeD)
    have nul': "CHR 0x00 \<notin> set (last_line (buf @ ?c) @ ?r)"
      using nul set_last_line [of "buf @ ?c"] less.prems(1) by (auto dest: in_set_dropD)
    have "grep pattern ks (Suc i) (last_line (buf @ ?c)) ?r = matching_lines pattern (last_line (buf @ ?c) @ ?r)"
    proof (rule less.hyps)
      show "length ?r < length input" using c by auto
      show "short_lines (BUFSZ - 2) (last_line (buf @ ?c) @ ?r)"
        using less.prems(2) by (intro short_lines_rest) (simp only: all)
    qed (rule nul', rule newline_last_line)
    then have "grep pattern ks i buf input = matching_lines pattern (buf @ ?c) @ matching_lines pattern (last_line (buf @ ?c) @ ?r)"
      using c by (subst grep.simps) (simp only: Let_def if_False grep_lines_eq [OF nul] prod.case)
    also have "\<dots> = matching_lines pattern (buf @ input)" unfolding matching_lines_append [symmetric] all ..
    finally show ?thesis .
  qed
qed




end
