(* ===== verification/Nice.thy ===== *)
theory Nice
  imports Ulib Printk ProcOps
begin

text \<open>
  The user program \<open>user/nice.c\<close>, which shows and sets the priority of a process. It reads its arguments
  with a check against overflow, unlike \<open>atoi\<close>. Its system calls \<open>getpriority\<close> and \<open>setpriority\<close> are the
  operations of the kernel on the process table.
\<close>

fun parse_loop :: "int \<Rightarrow> string \<Rightarrow> int option" where
  "parse_loop number [] = Some number"
| "parse_loop number (c # tx) =
     (if \<not> is_digit c then None
      else let digit = of_char c - 48 in
        if number > (INT_MAX - digit) div 10 then None
        else parse_loop (number * 10 + digit) tx)"

definition parse_nonnegative_int :: "string \<Rightarrow> int option" where
  "parse_nonnegative_int tx = (if tx = [] then None else parse_loop 0 tx)"

text \<open>The result of \<open>main\<close>: the exit status, the output with its file descriptor, and the process table.\<close>

type_synonym run = "(int \<times> int \<times> string \<times> ptable) option"

definition finish :: "int \<Rightarrow> int \<Rightarrow> string \<Rightarrow> karg list \<Rightarrow> ptable \<Rightarrow> run" where
  "finish status fd fmt as ps = map_option (\<lambda>out. (status, fd, out, ps)) (vprintf (fmt @ [CHR 0x0A]) as)"

definition quoted :: string where
  "quoted = [CHR 0x27] @ ''%s'' @ [CHR 0x27]"

definition int_arg :: "int \<Rightarrow> karg" where
  "int_arg n = KWord (word_of_int n)"

definition nice_main :: "string list \<Rightarrow> ptable \<Rightarrow> run" where
  "nice_main argv ps =
     (if length argv \<noteq> 2 \<and> length argv \<noteq> 3 then finish 1 2 ''usage: nice pid [priority]'' [] ps
      else case parse_nonnegative_int (argv ! 1) of
        None \<Rightarrow> finish 1 2 (''nice: invalid pid '' @ quoted) [KStr (Some (argv ! 1))] ps
      | Some pid \<Rightarrow>
          if pid = 0 then finish 1 2 (''nice: invalid pid '' @ quoted) [KStr (Some (argv ! 1))] ps
          else if length argv = 2 then
            (let priority = kgetpriority pid ps in
             if priority < 0 then finish 1 2 ''nice: process %d not found'' [int_arg pid] ps
             else finish 0 1 ''pid %d priority = %d'' [int_arg pid, int_arg priority] ps)
          else case parse_nonnegative_int (argv ! 2) of
            None \<Rightarrow> finish 1 2 (''nice: invalid priority '' @ quoted) [KStr (Some (argv ! 2))] ps
          | Some priority \<Rightarrow>
              (let (r, ps') = ksetpriority pid priority ps in
               if r < 0 then finish 1 2 ''nice: failed to set pid %d priority to %d'' [int_arg pid, int_arg priority] ps'
               else finish 0 1 ''pid %d priority changed to %d'' [int_arg pid, int_arg priority] ps'))"

section \<open>Reading numbers\<close>

definition decimal :: "int \<Rightarrow> string \<Rightarrow> int" where
  "decimal = foldl (\<lambda>v c. v * 10 + (of_char c - 48))"

lemma is_digit_value: "is_digit c \<Longrightarrow> 0 \<le> (of_char c - 48 :: int) \<and> (of_char c - 48 :: int) \<le> 9"
proof -
  assume "is_digit c"
  then have "48 \<le> (of_char c :: nat)" "(of_char c :: nat) \<le> 57" by (simp_all add: is_digit_def)
  moreover have "(of_char c :: int) = int (of_char c)" by (simp add: of_char_def)
  ultimately show ?thesis by linarith
qed

lemma decimal_ge: "0 \<le> n \<Longrightarrow> \<forall>c \<in> set tx. is_digit c \<Longrightarrow> n \<le> decimal n tx"
proof (induction tx arbitrary: n)
  case (Cons c tx)
  then have d: "0 \<le> (of_char c - 48 :: int)" using is_digit_value [of c] by simp
  then have "n * 10 + (of_char c - 48) \<le> decimal (n * 10 + (of_char c - 48)) tx" using Cons by (intro Cons.IH) simp_all
  then show ?case using d Cons.prems(1) by (simp add: decimal_def)
qed (simp add: decimal_def)

lemma parse_loop_eq:
  assumes "0 \<le> n" and "n \<le> INT_MAX"
  shows "parse_loop n tx = (if (\<forall>c \<in> set tx. is_digit c) \<and> decimal n tx \<le> INT_MAX then Some (decimal n tx) else None)"
  using assms
proof (induction n tx rule: parse_loop.induct)
  case (1 n)
  then show ?case by (simp add: decimal_def)
next
  case (2 n c tx)
  let ?d = "of_char c - 48 :: int"
  show ?case
  proof (cases "is_digit c")
    case True
    note d = is_digit_value [OF True]
    have big: "n > (INT_MAX - ?d) div 10 \<longleftrightarrow> n * 10 + ?d > INT_MAX" by linarith
    have dec: "decimal n (c # tx) = decimal (n * 10 + ?d) tx" by (simp add: decimal_def)
    show ?thesis
    proof (cases "n * 10 + ?d > INT_MAX")
      case False
      then show ?thesis using 2 True d big dec by (simp add: Let_def)
    next
      case over: True
      have "INT_MAX < decimal n (c # tx)" if "\<forall>c \<in> set tx. is_digit c"
        using decimal_ge [OF _ that, of "n * 10 + ?d"] over d 2(2) dec by simp
      then show ?thesis using True over big by (auto simp: Let_def)
    qed
  qed simp
qed

text \<open>
  C40: \<open>nice\<close> reads its arguments without overflow. The result is the value of the numeral, and every string that
  is not a numeral of a number up to \<open>INT_MAX\<close> is rejected: the check before each step never lets the number
  overflow and never rejects one that fits.
\<close>

theorem parse_nonnegative_int_correct:
  "parse_nonnegative_int tx =
     (if tx \<noteq> [] \<and> (\<forall>c \<in> set tx. is_digit c) \<and> decimal 0 tx \<le> INT_MAX then Some (decimal 0 tx) else None)"
  by (simp add: parse_nonnegative_int_def parse_loop_eq INT_MAX_def)

theorem parse_nonnegative_int_correct_witness:
  "parse_nonnegative_int ''2147483647'' = Some 2147483647 \<and> parse_nonnegative_int ''2147483648'' = None"
  using parse_nonnegative_int_correct [of "''2147483647''"] parse_nonnegative_int_correct [of "''2147483648''"]
  by (simp add: is_digit_def decimal_def INT_MAX_def)

section \<open>The program\<close>

lemma vprintf_messages:
  "\<exists>out. finish st fd (''nice: invalid pid '' @ quoted) [KStr s] ps = Some (st, fd, out, ps)"
  "\<exists>out. finish st fd (''nice: invalid priority '' @ quoted) [KStr s] ps = Some (st, fd, out, ps)"
  "\<exists>out. finish st fd ''nice: failed to set pid %d priority to %d'' [int_arg a, int_arg b] ps = Some (st, fd, out, ps)"
  "\<exists>out. finish st fd ''pid %d priority changed to %d'' [int_arg a, int_arg b] ps = Some (st, fd, out, ps)"
  by (simp_all add: finish_def quoted_def int_arg_def vprintf_def vprintf_dir_def peek_def)

lemma ksetpriority_result: "fst (ksetpriority pid pr ps) = 0 \<or> ksetpriority pid pr ps = (-1, ps)"
  by (auto simp: ksetpriority_def split: option.split)

text \<open>
  \<open>nice pid priority\<close> does what it says. Its exit status is 0 exactly if both arguments are numerals that fit and
  the system call succeeds, and then the process table is the one the system call left; otherwise it is
  1, a message goes to file descriptor 2 and the table is unchanged.
\<close>

lemma nice_sets_priority:
  "\<exists>out. nice_main [n, a, b] ps =
     (case (parse_nonnegative_int a, parse_nonnegative_int b) of
        (Some pid, Some pr) \<Rightarrow>
          (if fst (ksetpriority pid pr ps) = 0 then Some (0, 1, out, snd (ksetpriority pid pr ps)) else Some (1, 2, out, ps))
      | _ \<Rightarrow> Some (1, 2, out, ps))"
proof (cases "parse_nonnegative_int a")
  case None
  then show ?thesis using vprintf_messages(1) by (simp add: nice_main_def)
next
  case (Some pid)
  show ?thesis
  proof (cases "parse_nonnegative_int b")
    case None
    then show ?thesis using Some vprintf_messages(1) [of 1 2] vprintf_messages(2) [of 1 2] by (simp add: nice_main_def)
  next
    case (Some pr)
    obtain r qs where k: "ksetpriority pid pr ps = (r, qs)" by (cases "ksetpriority pid pr ps")
    have r: "r = 0 \<or> r = -1 \<and> qs = ps" using ksetpriority_result [of pid pr ps] k by auto
    have z: "ksetpriority 0 pr ps = (-1, ps)" by (simp add: ksetpriority_def)
    show ?thesis
    proof (cases "pid = 0")
      case True
      then show ?thesis using Some \<open>parse_nonnegative_int a = Some pid\<close> vprintf_messages(1) [of 1 2] by (simp add: nice_main_def z)
    next
      case False
      then show ?thesis
        using r Some \<open>parse_nonnegative_int a = Some pid\<close> vprintf_messages(3) [of 1 2] vprintf_messages(4) [of 0 1]
        by (auto simp: nice_main_def k)
    qed
  qed
qed

end
