(* ===== verification/Shell.thy ===== *)
theory Shell
  imports Ulib Fcntl
begin

text \<open>
  The command parser of the shell, \<open>user/sh.c\<close>. The parser works on a line in a buffer: a pointer into the line is a
  position, a word of the command is a pair of positions, and after parsing a zero byte is written
  behind each word. \<open>panic\<close> ends the process with a message. The facts show that parsing always
  ends, that the zero bytes end exactly the words, and that a printed command is parsed back.
\<close>

unbundle bit_operations_syntax

section \<open>Tokens\<close>

definition MAXARGS :: nat where "MAXARGS = 10"
definition whitespace :: string where "whitespace = [CHR '' '', CHR 0x09, CHR 0x0D, CHR 0x0A, CHR 0x0B]"
definition symbols :: string where "symbols = ''<|>&;()''"

definition at :: "string \<Rightarrow> nat \<Rightarrow> char" where
  "at line i = (if i < length line then line ! i else CHR 0x00)"

definition is_ws :: "char \<Rightarrow> bool" where
  "is_ws c \<longleftrightarrow> strchr whitespace c \<noteq> None"

definition is_sym :: "char \<Rightarrow> bool" where
  "is_sym c \<longleftrightarrow> strchr symbols c \<noteq> None"

function skip_ws :: "string \<Rightarrow> nat \<Rightarrow> nat" where
  "skip_ws line s = (if s < length line \<and> is_ws (at line s) then skip_ws line (Suc s) else s)"
  by pat_completeness auto
termination by (relation "measure (\<lambda>(line, s). length line - s)") auto

function skip_word :: "string \<Rightarrow> nat \<Rightarrow> nat" where
  "skip_word line s = (if s < length line \<and> \<not> is_ws (at line s) \<and> \<not> is_sym (at line s) then skip_word line (Suc s) else s)"
  by pat_completeness auto
termination by (relation "measure (\<lambda>(line, s). length line - s)") auto

declare skip_ws.simps [simp del] skip_word.simps [simp del]

text \<open>The token, its begin and end, and the position after it and the white space that follows.\<close>

definition gettoken :: "string \<Rightarrow> nat \<Rightarrow> char \<times> nat \<times> nat \<times> nat" where
  "gettoken line s =
     (let q = skip_ws line s; c = at line q;
          (ret, eq) = (if c = CHR 0x00 then (c, q)
            else if c \<in> set ''|();&<'' then (c, Suc q)
            else if c = CHR ''>'' then
              (if at line (Suc q) = CHR ''>'' then (CHR ''+'', Suc (Suc q)) else (c, Suc q))
            else (CHR ''a'', skip_word line q))
      in (ret, q, eq, skip_ws line eq))"

definition peek_tok :: "string \<Rightarrow> nat \<Rightarrow> string \<Rightarrow> bool \<times> nat" where
  "peek_tok line s toks =
     (let s1 = skip_ws line s in (at line s1 \<noteq> CHR 0x00 \<and> strchr toks (at line s1) \<noteq> None, s1))"

section \<open>Commands\<close>

datatype 'w cmd =
    Exec "'w list"
  | Redir "'w cmd" 'w u32 int
  | Pipe "'w cmd" "'w cmd"
  | Lst "'w cmd" "'w cmd"
  | Back "'w cmd"

type_synonym word_pos = "nat \<times> nat"

text \<open>
  The outcome of a parsing routine: a result and the position after it, the message of a panic, or no result
  because the recursion was cut off.
\<close>

datatype 'a presult = Parsed 'a nat | SyntaxError string | OutOfFuel

fun pbind :: "'a presult \<Rightarrow> ('a \<Rightarrow> nat \<Rightarrow> 'b presult) \<Rightarrow> 'b presult" where
  "pbind (Parsed x s) f = f x s"
| "pbind (SyntaxError e) f = SyntaxError e"
| "pbind OutOfFuel f = OutOfFuel"

definition redircmd :: "char \<Rightarrow> 'w cmd \<Rightarrow> 'w \<Rightarrow> 'w cmd" where
  "redircmd tok cmd f =
     (if tok = CHR ''<'' then Redir cmd f O_RDONLY 0
      else if tok = CHR ''>'' then Redir cmd f (O_WRONLY OR O_CREATE OR O_TRUNC) 1
      else if tok = CHR ''+'' then Redir cmd f (O_WRONLY OR O_CREATE) 1
      else cmd)"

text \<open>
  \<open>parseredirs\<close> returns the redirections it found, in the order in which they wrap the command. That
  is what the code does: \<open>parseexec\<close> goes on to fill the command inside the wrappers.
\<close>

primrec parseredirs :: "nat \<Rightarrow> string \<Rightarrow> nat \<Rightarrow> (char \<times> word_pos) list presult" where
  "parseredirs 0 line s = OutOfFuel"
| "parseredirs (Suc n) line s =
     (case peek_tok line s ''<>'' of
        (False, s1) \<Rightarrow> Parsed [] s1
      | (True, s1) \<Rightarrow>
          let (tok, _, _, s2) = gettoken line s1; (tok2, q, eq, s3) = gettoken line s2 in
          if tok2 \<noteq> CHR ''a'' then SyntaxError ''missing file for redirection''
          else pbind (parseredirs n line s3) (\<lambda>rs s4. Parsed ((tok, q, eq) # rs) s4))"

definition wrap :: "word_pos cmd \<Rightarrow> (char \<times> word_pos) list \<Rightarrow> word_pos cmd" where
  "wrap cmd rs = foldl (\<lambda>c (tok, f). redircmd tok c f) cmd rs"

text \<open>The loop of \<open>parseexec\<close>: the words and the redirections seen so far are \<open>args\<close> and \<open>rs\<close>.\<close>

primrec parseexec_loop :: "nat \<Rightarrow> string \<Rightarrow> word_pos list \<Rightarrow> (char \<times> word_pos) list \<Rightarrow> nat \<Rightarrow> word_pos cmd presult" where
  "parseexec_loop 0 line args rs s = OutOfFuel"
| "parseexec_loop (Suc n) line args rs s =
     (case peek_tok line s ''|)&;'' of
        (True, s1) \<Rightarrow> Parsed (wrap (Exec args) rs) s1
      | (False, s1) \<Rightarrow>
          let (tok, q, eq, s2) = gettoken line s1 in
          if tok = CHR 0x00 then Parsed (wrap (Exec args) rs) s2
          else if tok \<noteq> CHR ''a'' then SyntaxError ''syntax''
          else if Suc (length args) \<ge> MAXARGS then SyntaxError ''too many args''
          else pbind (parseredirs n line s2) (\<lambda>rs' s3. parseexec_loop n line (args @ [(q, eq)]) (rs @ rs') s3))"

text \<open>
  The routines call each other: \<open>parseline\<close>, \<open>parsepipe\<close>, \<open>parseexec\<close>, \<open>parseblock\<close>, and that again \<open>parseline\<close> for what
  is between the parentheses. That last call is the argument \<open>pl\<close>. The number \<open>n\<close> bounds the iterations of each loop
  and the depth of the recursion.
\<close>

type_synonym parser = "string \<Rightarrow> nat \<Rightarrow> word_pos cmd presult"

definition parseblock :: "parser \<Rightarrow> nat \<Rightarrow> parser" where
  "parseblock pl n line s =
     (case peek_tok line s ''('' of
        (False, s1) \<Rightarrow> SyntaxError ''parseblock''
      | (True, s1) \<Rightarrow> let (_, _, _, s2) = gettoken line s1 in
          pbind (pl line s2) (\<lambda>cmd s3.
            case peek_tok line s3 '')'' of
              (False, s4) \<Rightarrow> SyntaxError ''syntax - missing )''
            | (True, s4) \<Rightarrow> let (_, _, _, s5) = gettoken line s4 in
                pbind (parseredirs n line s5) (\<lambda>rs s6. Parsed (wrap cmd rs) s6)))"

definition parseexec :: "parser \<Rightarrow> nat \<Rightarrow> parser" where
  "parseexec pl n line s =
     (case peek_tok line s ''('' of
        (True, s1) \<Rightarrow> parseblock pl n line s1
      | (False, s1) \<Rightarrow> pbind (parseredirs n line s1) (\<lambda>rs s2. parseexec_loop n line [] rs s2))"

primrec parsepipe :: "nat \<Rightarrow> parser \<Rightarrow> nat \<Rightarrow> parser" where
  "parsepipe 0 pl n line s = OutOfFuel"
| "parsepipe (Suc k) pl n line s =
     pbind (parseexec pl n line s) (\<lambda>cmd s1.
       case peek_tok line s1 ''|'' of
         (True, s2) \<Rightarrow> let (_, _, _, s3) = gettoken line s2 in
            pbind (parsepipe k pl n line s3) (\<lambda>right s4. Parsed (Pipe cmd right) s4)
       | (False, s2) \<Rightarrow> Parsed cmd s2)"

text \<open>The loop of \<open>parseline\<close> over ampersands.\<close>

primrec parseback :: "nat \<Rightarrow> string \<Rightarrow> word_pos cmd \<Rightarrow> nat \<Rightarrow> word_pos cmd presult" where
  "parseback 0 line cmd s = OutOfFuel"
| "parseback (Suc n) line cmd s =
     (case peek_tok line s ''&'' of
        (True, s1) \<Rightarrow> let (_, _, _, s2) = gettoken line s1 in parseback n line (Back cmd) s2
      | (False, s1) \<Rightarrow> Parsed cmd s1)"

primrec parseline :: "nat \<Rightarrow> parser" where
  "parseline 0 line s = OutOfFuel"
| "parseline (Suc n) line s =
     pbind (parsepipe n (parseline n) n line s) (\<lambda>cmd s1. pbind (parseback n line cmd s1) (\<lambda>cmd s2.
       case peek_tok line s2 '';'' of
         (True, s3) \<Rightarrow> let (_, _, _, s4) = gettoken line s3 in
            pbind (parseline n line s4) (\<lambda>right s5. Parsed (Lst cmd right) s5)
       | (False, s3) \<Rightarrow> Parsed cmd s3))"

text \<open>\<open>nulterminate\<close> writes a zero at the end of each word.\<close>

primrec words :: "'w cmd \<Rightarrow> 'w list" where
  "words (Exec ws) = ws"
| "words (Redir c f m fd) = words c @ [f]"
| "words (Pipe l r) = words l @ words r"
| "words (Lst l r) = words l @ words r"
| "words (Back c) = words c"

primrec nulterminate :: "word_pos cmd \<Rightarrow> string \<Rightarrow> string" where
  "nulterminate (Exec ws) line = fold (\<lambda>(q, eq) line. line[eq := CHR 0x00]) ws line"
| "nulterminate (Redir c f m fd) line = (nulterminate c line)[snd f := CHR 0x00]"
| "nulterminate (Pipe l r) line = nulterminate r (nulterminate l line)"
| "nulterminate (Lst l r) line = nulterminate r (nulterminate l line)"
| "nulterminate (Back c) line = nulterminate c line"

text \<open>
  \<open>parsecmd\<close> returns the command and the line with the zeros in it. Each loop and each level of the recursion reads at least
  one character, so that the bound below is never reached.
\<close>

definition parsecmd :: "string \<Rightarrow> (word_pos cmd \<times> string) presult" where
  "parsecmd line =
     pbind (parseline (length line + 3) line 0) (\<lambda>cmd s.
       let (_, s1) = peek_tok line s '''' in
       if s1 \<noteq> length line then SyntaxError ''syntax'' else Parsed (cmd, nulterminate cmd line) s1)"


section \<open>Scanning\<close>

definition word_char :: "char \<Rightarrow> bool" where
  "word_char c \<longleftrightarrow> \<not> is_ws c \<and> \<not> is_sym c \<and> c \<noteq> CHR 0x00"

lemma at_Nil: "length line \<le> s \<Longrightarrow> at line s = CHR 0x00"
  by (simp add: at_def)

lemma is_ws_iff: "is_ws c \<longleftrightarrow> c \<in> set whitespace"
  by (simp add: is_ws_def whitespace_def)

lemma is_sym_iff: "is_sym c \<longleftrightarrow> c \<in> set symbols"
  by (simp add: is_sym_def symbols_def)

lemma skip_ws_bounds: "s \<le> skip_ws line s \<and> skip_ws line s \<le> max s (length line)"
  by (induction line s rule: skip_ws.induct) (subst (1 2) skip_ws.simps, auto)

lemma skip_word_bounds: "s \<le> skip_word line s \<and> skip_word line s \<le> max s (length line)"
  by (induction line s rule: skip_word.induct) (subst (1 2) skip_word.simps, auto)

lemma skip_word_stop: "skip_word line s < length line \<Longrightarrow> \<not> word_char (at line (skip_word line s))"
proof (induction line s rule: skip_word.induct)
  case (1 line s)
  then show ?case by (cases "s < length line \<and> \<not> is_ws (at line s) \<and> \<not> is_sym (at line s)")
    (auto simp: skip_word.simps [of line s] word_char_def)
qed

lemma skip_word_chars: "s \<le> i \<Longrightarrow> i < skip_word line s \<Longrightarrow> \<not> is_ws (at line i) \<and> \<not> is_sym (at line i)"
proof (induction line s rule: skip_word.induct)
  case (1 line s)
  show ?case
  proof (cases "s < length line \<and> \<not> is_ws (at line s) \<and> \<not> is_sym (at line s)")
    case True
    then have i: "i < skip_word line (Suc s)" using 1(3) by (simp add: skip_word.simps [of line s])
    show ?thesis
    proof (cases "i = s")
      case False
      then show ?thesis using "1.IH" [OF True] "1.prems"(1) i by simp
    qed (use True in simp)
  next
    case False
    then have "skip_word line s = s" by (subst skip_word.simps) auto
    then show ?thesis using "1.prems" by simp
  qed
qed

lemma skip_word_progress: "s < length line \<Longrightarrow> \<not> is_ws (at line s) \<Longrightarrow> \<not> is_sym (at line s) \<Longrightarrow> s < skip_word line s"
  using skip_word_bounds [of "Suc s" line] by (subst skip_word.simps) simp

lemma skip_ws_stop: "skip_ws line s < length line \<Longrightarrow> \<not> is_ws (at line (skip_ws line s))"
proof (induction line s rule: skip_ws.induct)
  case (1 line s)
  then show ?case by (cases "s < length line \<and> is_ws (at line s)") (auto simp: skip_ws.simps [of line s])
qed

text \<open>A word of the line: word characters up to a character that is none, or up to the end.\<close>

definition word_at :: "string \<Rightarrow> word_pos \<Rightarrow> bool" where
  "word_at line w \<longleftrightarrow> fst w < snd w \<and> snd w \<le> length line \<and>
     (\<forall>i. fst w \<le> i \<and> i < snd w \<longrightarrow> word_char (at line i)) \<and> (snd w < length line \<longrightarrow> \<not> word_char (at line (snd w)))"

lemma gettoken_facts:
  assumes "gettoken line s = (tok, q, eq, s')" and "s \<le> length line"
  shows "s \<le> q" "q \<le> eq" "eq \<le> s'" "s' \<le> length line" "tok \<noteq> CHR 0x00 \<Longrightarrow> s < s'"
    and "tok = CHR ''a'' \<Longrightarrow> CHR 0x00 \<notin> set line \<Longrightarrow> word_at line (q, eq)"
proof -
  have q: "q = skip_ws line s" and s': "s' = skip_ws line eq"
    using assms(1) by (auto simp: gettoken_def Let_def split: if_splits)
  let ?c = "at line q"
  have bq: "s \<le> q" "q \<le> length line" using skip_ws_bounds [of s line] assms(2) by (simp_all add: q)
  have lt: "q < length line" if "?c \<noteq> CHR 0x00" using that bq(2) at_Nil [of line q] by (cases "q = length line") auto
  have eq: "(eq = q \<and> ?c = CHR 0x00 \<and> tok = CHR 0x00) \<or> (eq = Suc q \<and> ?c \<noteq> CHR 0x00 \<and> tok \<noteq> CHR ''a'')
      \<or> (eq = Suc (Suc q) \<and> ?c \<noteq> CHR 0x00 \<and> at line (Suc q) \<noteq> CHR 0x00 \<and> tok \<noteq> CHR ''a'')
      \<or> (eq = skip_word line q \<and> ?c \<noteq> CHR 0x00 \<and> \<not> is_sym ?c \<and> tok = CHR ''a'')"
    using assms(1) by (auto simp: gettoken_def Let_def q is_sym_iff symbols_def split: if_splits)
  have lt2: "Suc q < length line" if "at line (Suc q) \<noteq> CHR 0x00" using that by (auto simp: at_def split: if_splits)
  have prog: "q < skip_word line q" if "?c \<noteq> CHR 0x00" "\<not> is_sym ?c"
    using skip_word_progress [OF lt [OF that(1)] skip_ws_stop [of line s, folded q, OF lt [OF that(1)]] that(2)] .
  have beq: "q \<le> eq" "eq \<le> length line" "tok \<noteq> CHR 0x00 \<Longrightarrow> q < eq"
    using eq bq lt lt2 prog skip_word_bounds [of q line] by auto
  show "s \<le> q" "q \<le> eq" using bq beq by simp_all
  show "eq \<le> s'" "s' \<le> length line" using skip_ws_bounds [of eq line] beq by (simp_all add: s')
  then show "tok \<noteq> CHR 0x00 \<Longrightarrow> s < s'" using beq(3) bq by simp
  show "word_at line (q, eq)" if "tok = CHR ''a''" "CHR 0x00 \<notin> set line"
  proof -
    have e: "eq = skip_word line q" and c: "?c \<noteq> CHR 0x00" "\<not> is_sym ?c" using eq that(1) by auto
    have nz: "at line i \<noteq> CHR 0x00" if "i < length line" for i
      using that \<open>CHR 0x00 \<notin> set line\<close> nth_mem [of i line] by (auto simp: at_def simp del: nth_mem)
    have "word_char (at line i)" if "q \<le> i" "i < eq" for i
      using skip_word_chars [of q i line] that nz [of i] beq(2) by (simp add: e word_char_def)
    then show ?thesis using prog [OF c] beq(2) skip_word_stop [of line q] by (simp add: word_at_def e)
  qed
qed

lemma peek_tok_facts:
  assumes "peek_tok line s toks = (b, s')" and "s \<le> length line"
  shows "s \<le> s'" "s' \<le> length line" "skip_ws line s' = s'" "b \<Longrightarrow> at line s' \<noteq> CHR 0x00"
proof -
  have s': "s' = skip_ws line s" using assms(1) by (simp add: peek_tok_def Let_def)
  show "s \<le> s'" "s' \<le> length line" using skip_ws_bounds [of s line] assms(2) by (simp_all add: s')
  show "skip_ws line s' = s'" using skip_ws_stop [of line s] by (subst skip_ws.simps) (auto simp: s')
  show "b \<Longrightarrow> at line s' \<noteq> CHR 0x00" using assms(1) by (auto simp: peek_tok_def Let_def)
qed

lemma gettoken_nonzero:
  assumes "gettoken line s = (tok, q, eq, s')" and "skip_ws line s = s" and "at line s \<noteq> CHR 0x00"
  shows "tok \<noteq> CHR 0x00"
  using assms by (auto simp: gettoken_def Let_def split: if_splits)

text \<open>After a token was seen, the next position is larger: each loop and each call gets on.\<close>

lemma token_after_peek:
  assumes "peek_tok line s toks = (True, s1)" and "gettoken line s1 = (tok, q, eq, s2)" and "s \<le> length line"
  shows "s < s2" "s2 \<le> length line"
proof -
  note p = peek_tok_facts [OF assms(1,3)]
  show "s < s2" using gettoken_facts(5) [OF assms(2) p(2) gettoken_nonzero [OF assms(2) p(3) p(4)]] p(1) by simp
  show "s2 \<le> length line" using gettoken_facts(4) [OF assms(2) p(2)] .
qed


section \<open>Parsing ends, and finds words\<close>

text \<open>A routine that started at \<open>s\<close> came to a result; a parsed result has not gone back, and has words of the line only.\<close>

definition finished :: "('a \<Rightarrow> word_pos list) \<Rightarrow> string \<Rightarrow> nat \<Rightarrow> 'a presult \<Rightarrow> bool" where
  "finished ws line s r \<longleftrightarrow> (case r of
       Parsed x s' \<Rightarrow> s \<le> s' \<and> s' \<le> length line \<and> (CHR 0x00 \<notin> set line \<longrightarrow> (\<forall>w \<in> set (ws x). word_at line w))
     | SyntaxError e \<Rightarrow> True
     | OutOfFuel \<Rightarrow> False)"

lemma finished_simps [simp]:
  "finished ws line s (Parsed x s') \<longleftrightarrow> s \<le> s' \<and> s' \<le> length line \<and> (CHR 0x00 \<notin> set line \<longrightarrow> (\<forall>w \<in> set (ws x). word_at line w))"
  "finished ws line s (SyntaxError e)" "\<not> finished ws line s OutOfFuel"
  by (simp_all add: finished_def)

lemma finished_pbind:
  assumes "finished ws line s r"
    and "\<And>x s'. r = Parsed x s' \<Longrightarrow> s \<le> s' \<Longrightarrow> s' \<le> length line \<Longrightarrow>
      (CHR 0x00 \<notin> set line \<longrightarrow> (\<forall>w \<in> set (ws x). word_at line w)) \<Longrightarrow> finished ws' line s (f x s')"
  shows "finished ws' line s (pbind r f)"
  using assms by (cases r) auto

lemma finished_mono: "finished ws line s r \<Longrightarrow> t \<le> s \<Longrightarrow> finished ws line t r"
  by (cases r) auto

definition redir_words :: "(char \<times> word_pos) list \<Rightarrow> word_pos list" where
  "redir_words rs = map snd rs"

lemma words_wrap: "set (words (wrap cmd rs)) \<subseteq> set (words cmd) \<union> set (redir_words rs)"
proof (induction rs arbitrary: cmd)
  case (Cons r rs)
  obtain tok f where r: "r = (tok, f)" by (cases r)
  have "set (words (redircmd tok cmd f)) \<subseteq> set (words cmd) \<union> {f}" by (auto simp: redircmd_def)
  then show ?case using Cons.IH [of "redircmd tok cmd f"] by (auto simp: wrap_def r redir_words_def)
qed (simp add: wrap_def)

lemma parseredirs_finished:
  "s \<le> length line \<Longrightarrow> length line - s < n \<Longrightarrow> finished redir_words line s (parseredirs n line s)"
proof (induction n arbitrary: s)
  case (Suc n)
  obtain b s1 where pk: "peek_tok line s ''<>'' = (b, s1)" by fastforce
  obtain tok q0 e0 s2 where t1: "gettoken line s1 = (tok, q0, e0, s2)" by (cases "gettoken line s1") auto
  obtain tok2 q eq s3 where t2: "gettoken line s2 = (tok2, q, eq, s3)" by (cases "gettoken line s2") auto
  note p = peek_tok_facts [OF pk Suc.prems(1)]
  show ?case
  proof (cases b)
    case True
    have pk': "peek_tok line s ''<>'' = (True, s1)" using pk True by simp
    note a = token_after_peek [OF pk' t1 Suc.prems(1)]
    note g = gettoken_facts [OF t2 a(2)]
    have "finished redir_words line s3 (parseredirs n line s3)" using a g Suc.prems by (intro Suc.IH) linarith+
    then have f: "finished redir_words line s (parseredirs n line s3)" by (rule finished_mono) (use a g in linarith)
    have "finished redir_words line s (pbind (parseredirs n line s3) (\<lambda>rs s4. Parsed ((tok, q, eq) # rs) s4))"
      if "tok2 = CHR ''a''" using g(6) [OF that] by (intro finished_pbind [OF f]) (auto simp: redir_words_def)
    then show ?thesis using True by (simp add: pk t1 t2 Let_def)
  next
    case False
    then show ?thesis using p by (simp add: pk redir_words_def)
  qed
qed simp

lemma parseexec_loop_finished:
  assumes "s \<le> length line" and "length line - s + 1 < n" and "CHR 0x00 \<notin> set line \<longrightarrow> (\<forall>w \<in> set (args @ redir_words rs). word_at line w)"
  shows "finished words line s (parseexec_loop n line args rs s)"
  using assms
proof (induction n arbitrary: s args rs)
  case (Suc n)
  obtain b s1 where pk: "peek_tok line s ''|)&;'' = (b, s1)" by fastforce
  obtain tok q eq s2 where t: "gettoken line s1 = (tok, q, eq, s2)" by (cases "gettoken line s1") auto
  note p = peek_tok_facts [OF pk Suc.prems(1)]
  note g = gettoken_facts [OF t p(2)]
  have ws: "CHR 0x00 \<notin> set line \<longrightarrow> (\<forall>w \<in> set (words (wrap (Exec args) rs)). word_at line w)"
    using Suc.prems(3) words_wrap [of "Exec args" rs] by auto
  show ?case
  proof (cases "b \<or> tok \<noteq> CHR ''a'' \<or> Suc (length args) \<ge> MAXARGS")
    case True
    then show ?thesis using ws p g by (cases b) (auto simp: pk t Let_def)
  next
    case False
    have lt: "s < s2" using g(5) False p(1) by simp
    have "finished redir_words line s2 (parseredirs n line s2)" using lt g(4) Suc.prems(2) by (intro parseredirs_finished) linarith+
    then have "finished redir_words line s (parseredirs n line s2)" by (rule finished_mono) (use lt in simp)
    then have "finished words line s (pbind (parseredirs n line s2) (\<lambda>rs' s3. parseexec_loop n line (args @ [(q, eq)]) (rs @ rs') s3))"
    proof (rule finished_pbind)
      fix rs' s3 assume r: "parseredirs n line s2 = Parsed rs' s3" "s \<le> s3" "s3 \<le> length line"
        "CHR 0x00 \<notin> set line \<longrightarrow> (\<forall>w \<in> set (redir_words rs'). word_at line w)"
      have "s2 \<le> s3" using parseredirs_finished [of s2 line n] r(1) lt g(4) Suc.prems(2) by simp
      then have "finished words line s3 (parseexec_loop n line (args @ [(q, eq)]) (rs @ rs') s3)"
        using lt Suc.prems r g(6) False by (intro Suc.IH) (auto simp: redir_words_def)
      then show "finished words line s (parseexec_loop n line (args @ [(q, eq)]) (rs @ rs') s3)"
        by (rule finished_mono) (rule r(2))
    qed
    then show ?thesis using False by (simp add: pk t Let_def)
  qed
qed simp


lemma parseblock_finished:
  assumes pl: "\<And>s. s \<le> length line \<Longrightarrow> length line - s + 3 \<le> n \<Longrightarrow> finished words line s (pl line s)"
    and s: "s \<le> length line" "length line - s + 2 \<le> n"
  shows "finished words line s (parseblock pl n line s)"
proof -
  obtain b s1 where pk: "peek_tok line s ''('' = (b, s1)" by fastforce
  obtain tok q eq s2 where t: "gettoken line s1 = (tok, q, eq, s2)" by (cases "gettoken line s1") auto
  have "finished words line s (pbind (pl line s2) (\<lambda>cmd s3.
            case peek_tok line s3 '')'' of
              (False, s4) \<Rightarrow> SyntaxError ''syntax - missing )''
            | (True, s4) \<Rightarrow> let (_, _, _, s5) = gettoken line s4 in
                pbind (parseredirs n line s5) (\<lambda>rs s6. Parsed (wrap cmd rs) s6)))" if b
  proof -
    have pk': "peek_tok line s ''('' = (True, s1)" using pk that by simp
    note a = token_after_peek [OF pk' t s(1)]
    have "finished words line s2 (pl line s2)" using a s by (intro pl) linarith+
    then have "finished words line s (pl line s2)" by (rule finished_mono) (use a in simp)
    then show ?thesis
    proof (rule finished_pbind)
      fix cmd s3 assume c: "s \<le> s3" "s3 \<le> length line" "CHR 0x00 \<notin> set line \<longrightarrow> (\<forall>w \<in> set (words cmd). word_at line w)"
      obtain b' s4 where pk4: "peek_tok line s3 '')'' = (b', s4)" by fastforce
      obtain tok' q' eq' s5 where t5: "gettoken line s4 = (tok', q', eq', s5)" by (cases "gettoken line s4") auto
      have "finished words line s (pbind (parseredirs n line s5) (\<lambda>rs s6. Parsed (wrap cmd rs) s6))" if b'
      proof -
        have pk4': "peek_tok line s3 '')'' = (True, s4)" using pk4 that by simp
        note a5 = token_after_peek [OF pk4' t5 c(2)]
        have "finished redir_words line s5 (parseredirs n line s5)" using a5 c(1) s by (intro parseredirs_finished) linarith+
        then have "finished redir_words line s (parseredirs n line s5)" by (rule finished_mono) (use a5 c in simp)
        then show ?thesis
          by (rule finished_pbind) (use c(3) words_wrap [of cmd] in auto)
      qed
      then show "finished words line s (case peek_tok line s3 '')'' of
              (False, s4) \<Rightarrow> SyntaxError ''syntax - missing )''
            | (True, s4) \<Rightarrow> let (_, _, _, s5) = gettoken line s4 in
                pbind (parseredirs n line s5) (\<lambda>rs s6. Parsed (wrap cmd rs) s6))"
        by (cases b') (simp_all add: pk4 t5)
    qed
  qed
  then show ?thesis by (cases b) (simp_all add: parseblock_def pk t)
qed

lemma parseexec_finished:
  assumes pl: "\<And>s. s \<le> length line \<Longrightarrow> length line - s + 3 \<le> n \<Longrightarrow> finished words line s (pl line s)"
    and s: "s \<le> length line" "length line - s + 2 \<le> n"
  shows "finished words line s (parseexec pl n line s)"
proof -
  obtain b s1 where pk: "peek_tok line s ''('' = (b, s1)" by fastforce
  note p = peek_tok_facts [OF pk s(1)]
  have "finished words line s1 (parseblock pl n line s1)" using p s by (intro parseblock_finished pl) linarith+
  moreover have "finished words line s1 (pbind (parseredirs n line s1) (\<lambda>rs s2. parseexec_loop n line [] rs s2))"
  proof (rule finished_pbind)
    show "finished redir_words line s1 (parseredirs n line s1)" using p s by (intro parseredirs_finished) linarith+
    fix rs s2 assume r: "s1 \<le> s2" "s2 \<le> length line" "CHR 0x00 \<notin> set line \<longrightarrow> (\<forall>w \<in> set (redir_words rs). word_at line w)"
    have "finished words line s2 (parseexec_loop n line [] rs s2)" using r p s by (intro parseexec_loop_finished) auto
    then show "finished words line s1 (parseexec_loop n line [] rs s2)" by (rule finished_mono) (rule r(1))
  qed
  ultimately show ?thesis using p(1) by (cases b) (auto simp: parseexec_def pk intro: finished_mono)
qed

lemma parsepipe_finished:
  assumes pl: "\<And>s. s \<le> length line \<Longrightarrow> length line - s + 3 \<le> n \<Longrightarrow> finished words line s (pl line s)"
    and "s \<le> length line" "length line - s + 2 \<le> n" "length line - s < k"
  shows "finished words line s (parsepipe k pl n line s)"
  using assms(2-)
proof (induction k arbitrary: s)
  case (Suc k)
  have "finished words line s (parseexec pl n line s)" using Suc.prems by (intro parseexec_finished pl)
  then show ?case unfolding parsepipe.simps
  proof (rule finished_pbind)
    fix cmd s1 assume c: "s \<le> s1" "s1 \<le> length line" "CHR 0x00 \<notin> set line \<longrightarrow> (\<forall>w \<in> set (words cmd). word_at line w)"
    obtain b s2 where pk: "peek_tok line s1 ''|'' = (b, s2)" by fastforce
    obtain tok q eq s3 where t: "gettoken line s2 = (tok, q, eq, s3)" by (cases "gettoken line s2") auto
    have "finished words line s (pbind (parsepipe k pl n line s3) (\<lambda>right s4. Parsed (Pipe cmd right) s4))" if b
    proof -
      have pk': "peek_tok line s1 ''|'' = (True, s2)" using pk that by simp
      note a = token_after_peek [OF pk' t c(2)]
      have "finished words line s3 (parsepipe k pl n line s3)" using a c Suc.prems by (intro Suc.IH) linarith+
      then have "finished words line s (parsepipe k pl n line s3)" by (rule finished_mono) (use a c in simp)
      then show ?thesis by (rule finished_pbind) (use c(3) in auto)
    qed
    moreover have "s \<le> s2 \<and> s2 \<le> length line" using peek_tok_facts [OF pk c(2)] c(1) by simp
    ultimately show "finished words line s (case peek_tok line s1 ''|'' of
         (True, s2) \<Rightarrow> let (_, _, _, s3) = gettoken line s2 in
            pbind (parsepipe k pl n line s3) (\<lambda>right s4. Parsed (Pipe cmd right) s4)
       | (False, s2) \<Rightarrow> Parsed cmd s2)" using c(3) by (cases b) (simp_all add: pk t)
  qed
qed simp

lemma parseback_finished:
  assumes "s \<le> length line" "length line - s < n" "CHR 0x00 \<notin> set line \<longrightarrow> (\<forall>w \<in> set (words cmd). word_at line w)"
  shows "finished words line s (parseback n line cmd s)"
  using assms
proof (induction n arbitrary: s cmd)
  case (Suc n)
  obtain b s1 where pk: "peek_tok line s ''&'' = (b, s1)" by fastforce
  obtain tok q eq s2 where t: "gettoken line s1 = (tok, q, eq, s2)" by (cases "gettoken line s1") auto
  note p = peek_tok_facts [OF pk Suc.prems(1)]
  have "finished words line s (parseback n line (Back cmd) s2)" if b
  proof -
    have pk': "peek_tok line s ''&'' = (True, s1)" using pk that by simp
    note a = token_after_peek [OF pk' t Suc.prems(1)]
    have "finished words line s2 (parseback n line (Back cmd) s2)" using a Suc.prems by (intro Suc.IH) auto
    then show ?thesis by (rule finished_mono) (use a in simp)
  qed
  then show ?case using p Suc.prems(3) by (cases b) (simp_all add: pk t)
qed simp

lemma parseline_finished:
  "s \<le> length line \<Longrightarrow> length line - s + 3 \<le> n \<Longrightarrow> finished words line s (parseline n line s)"
proof (induction n arbitrary: s)
  case (Suc n)
  have "finished words line s (parsepipe n (parseline n) n line s)"
    using Suc.prems by (intro parsepipe_finished Suc.IH) linarith+
  then show ?case unfolding parseline.simps
  proof (rule finished_pbind)
    fix cmd s1 assume c: "s \<le> s1" "s1 \<le> length line" "CHR 0x00 \<notin> set line \<longrightarrow> (\<forall>w \<in> set (words cmd). word_at line w)"
    have "finished words line s1 (parseback n line cmd s1)" using c Suc.prems by (intro parseback_finished) auto
    then have "finished words line s (parseback n line cmd s1)" by (rule finished_mono) (rule c(1))
    then show "finished words line s (pbind (parseback n line cmd s1) (\<lambda>cmd s2.
       case peek_tok line s2 '';'' of
         (True, s3) \<Rightarrow> let (_, _, _, s4) = gettoken line s3 in
            pbind (parseline n line s4) (\<lambda>right s5. Parsed (Lst cmd right) s5)
       | (False, s3) \<Rightarrow> Parsed cmd s3))"
    proof (rule finished_pbind)
      fix cmd s2 assume c: "s \<le> s2" "s2 \<le> length line" "CHR 0x00 \<notin> set line \<longrightarrow> (\<forall>w \<in> set (words cmd). word_at line w)"
      obtain b s3 where pk: "peek_tok line s2 '';'' = (b, s3)" by fastforce
      obtain tok q eq s4 where t: "gettoken line s3 = (tok, q, eq, s4)" by (cases "gettoken line s3") auto
      have "finished words line s (pbind (parseline n line s4) (\<lambda>right s5. Parsed (Lst cmd right) s5))" if b
      proof -
        have pk': "peek_tok line s2 '';'' = (True, s3)" using pk that by simp
        note a = token_after_peek [OF pk' t c(2)]
        have "finished words line s4 (parseline n line s4)" using a c Suc.prems by (intro Suc.IH) linarith+
        then have "finished words line s (parseline n line s4)" by (rule finished_mono) (use a c in simp)
        then show ?thesis by (rule finished_pbind) (use c(3) in auto)
      qed
      moreover have "s \<le> s3 \<and> s3 \<le> length line" using peek_tok_facts [OF pk c(2)] c(1) by simp
      ultimately show "finished words line s (case peek_tok line s2 '';'' of
         (True, s3) \<Rightarrow> let (_, _, _, s4) = gettoken line s3 in
            pbind (parseline n line s4) (\<lambda>right s5. Parsed (Lst cmd right) s5)
       | (False, s3) \<Rightarrow> Parsed cmd s3)" using c(3) by (cases b) (simp_all add: pk t)
    qed
  qed
qed simp


section \<open>Zeros at the ends of the words\<close>

text \<open>The text of a word in the line, and the C string that starts at a position of a buffer.\<close>

definition slice :: "string \<Rightarrow> word_pos \<Rightarrow> string" where
  "slice line w = take (snd w - fst w) (drop (fst w) line)"

definition cstring :: "string \<Rightarrow> nat \<Rightarrow> string" where
  "cstring buf q = takeWhile (\<lambda>c. c \<noteq> CHR 0x00) (drop q buf)"

definition put_zeros :: "word_pos list \<Rightarrow> string \<Rightarrow> string" where
  "put_zeros ws line = fold (\<lambda>w line. line[snd w := CHR 0x00]) ws line"

lemma nulterminate_zeros: "nulterminate cmd line = put_zeros (words cmd) line"
  by (induction cmd arbitrary: line) (simp_all add: put_zeros_def case_prod_unfold)

lemma length_put_zeros [simp]: "length (put_zeros ws line) = length line"
  by (induction ws arbitrary: line) (simp_all add: put_zeros_def)

lemma nth_put_zeros: "i < length line \<Longrightarrow> put_zeros ws line ! i = (if i \<in> snd ` set ws then CHR 0x00 else line ! i)"
proof (induction ws arbitrary: line)
  case (Cons w ws)
  have "put_zeros (w # ws) line = put_zeros ws (line[snd w := CHR 0x00])" by (simp add: put_zeros_def)
  then show ?case using Cons.IH [of "line[snd w := CHR 0x00]"] Cons.prems by (auto simp: nth_list_update)
qed (simp add: put_zeros_def)

lemma takeWhile_slice:
  assumes "i \<le> length xs" and "\<And>j. j < i \<Longrightarrow> P (xs ! j)" and "i < length xs \<Longrightarrow> \<not> P (xs ! i)"
  shows "takeWhile P xs = take i xs"
  using assms by (intro takeWhile_eq_take_P_nth) auto

lemma cstring_word:
  assumes "\<forall>w \<in> set ws. word_at line w" and w: "w \<in> set ws"
  shows "cstring (put_zeros ws line) (fst w) = slice line w"
proof -
  obtain q e where qe: "w = (q, e)" by (cases w)
  have wd: "q < e" "e \<le> length line" and wc: "\<And>i. q \<le> i \<Longrightarrow> i < e \<Longrightarrow> word_char (line ! i)"
    using assms(1) w by (auto simp: qe word_at_def at_def)
  have stop: "\<not> word_char (line ! snd v)" if "v \<in> set ws" "snd v < length line" for v
    using assms(1) that by (auto simp: word_at_def at_def split: if_splits)
  have inside: "put_zeros ws line ! i = line ! i \<and> line ! i \<noteq> CHR 0x00" if "q \<le> i" "i < e" for i
  proof -
    have "i < length line" using that wd by simp
    moreover from this have "i \<notin> snd ` set ws" using stop wc [OF that] by blast
    ultimately show ?thesis using wc [OF that] by (simp add: nth_put_zeros word_char_def)
  qed
  have stopped: "put_zeros ws line ! e = CHR 0x00" if "e < length line"
    using w that by (force simp: qe nth_put_zeros)
  have "cstring (put_zeros ws line) q = take (e - q) (drop q (put_zeros ws line))"
    unfolding cstring_def
  proof (rule takeWhile_slice)
    show "e - q \<le> length (drop q (put_zeros ws line))" using wd by simp
    show "drop q (put_zeros ws line) ! j \<noteq> CHR 0x00" if "j < e - q" for j
      using inside [of "q + j"] that wd by simp
    show "\<not> drop q (put_zeros ws line) ! (e - q) \<noteq> CHR 0x00" if "e - q < length (drop q (put_zeros ws line))"
      using stopped that wd by simp
  qed
  also have "\<dots> = take (e - q) (drop q line)"
    using inside wd by (intro nth_equalityI) auto
  finally show ?thesis by (simp add: qe slice_def)
qed

lemma parsecmd_words:
  assumes "CHR 0x00 \<notin> set line"
  shows "case parsecmd line of
      Parsed (cmd, buf) s \<Rightarrow> s = length line \<and> length buf = length line \<and>
        (\<forall>w \<in> set (words cmd). word_at line w \<and> cstring buf (fst w) = slice line w)
    | SyntaxError e \<Rightarrow> True
    | OutOfFuel \<Rightarrow> False"
proof -
  have f: "finished words line 0 (parseline (length line + 3) line 0)" by (rule parseline_finished) simp_all
  show ?thesis
  proof (cases "parseline (length line + 3) line 0")
    case (Parsed cmd s)
    have ws: "\<forall>w \<in> set (words cmd). word_at line w" using f assms Parsed by simp
    obtain b s1 where pk: "peek_tok line s [] = (b, s1)" by fastforce
    show ?thesis using ws cstring_word [OF ws] by (simp add: parsecmd_def Parsed pk nulterminate_zeros)
  qed (use f in \<open>simp_all add: parsecmd_def\<close>)
qed


section \<open>Printing and parsing\<close>

text \<open>A command with its words as strings is printed with parentheses around each command that is part of another.\<close>

definition redir_modes :: "(u32 \<times> int) list" where
  "redir_modes = [(O_RDONLY, 0), (O_WRONLY OR O_CREATE OR O_TRUNC, 1), (O_WRONLY OR O_CREATE, 1)]"

definition redir_symbol :: "u32 \<Rightarrow> string" where
  "redir_symbol m = (if m = O_RDONLY then ''<'' else if m = O_WRONLY OR O_CREATE OR O_TRUNC then ''>'' else ''>>'')"

primrec unparse :: "string cmd \<Rightarrow> string" where
  "unparse (Exec ws) = concat (map (\<lambda>w. w @ '' '') ws)"
| "unparse (Redir c f m fd) = ''('' @ unparse c @ '')'' @ redir_symbol m @ f @ '' ''"
| "unparse (Pipe l r) = ''('' @ unparse l @ '')|('' @ unparse r @ '')''"
| "unparse (Lst l r) = ''('' @ unparse l @ '');('' @ unparse r @ '')''"
| "unparse (Back c) = ''('' @ unparse c @ '')&''"

definition valid_word :: "string \<Rightarrow> bool" where
  "valid_word w \<longleftrightarrow> w \<noteq> [] \<and> (\<forall>c \<in> set w. word_char c)"

primrec valid_cmd :: "string cmd \<Rightarrow> bool" where
  "valid_cmd (Exec ws) \<longleftrightarrow> length ws < MAXARGS \<and> (\<forall>w \<in> set ws. valid_word w)"
| "valid_cmd (Redir c f m fd) \<longleftrightarrow> valid_cmd c \<and> valid_word f \<and> (m, fd) \<in> set redir_modes"
| "valid_cmd (Pipe l r) \<longleftrightarrow> valid_cmd l \<and> valid_cmd r"
| "valid_cmd (Lst l r) \<longleftrightarrow> valid_cmd l \<and> valid_cmd r"
| "valid_cmd (Back c) \<longleftrightarrow> valid_cmd c"

definition stops :: "string \<Rightarrow> bool" where
  "stops r \<longleftrightarrow> r = [] \<or> hd r = CHR '')''"

definition first :: "string \<Rightarrow> char" where
  "first r = (if r = [] then CHR 0x00 else hd r)"

lemma at_drop: "drop s line = r \<Longrightarrow> at line s = first r"
  by (auto simp: at_def first_def hd_drop_conv_nth)

lemma drop_tail: "drop s line = c # r \<Longrightarrow> drop (Suc s) line = r"
  by (metis drop_Suc list.sel(3) tl_drop)

lemma drop_next: "drop s line = u @ r \<Longrightarrow> drop (s + length u) line = r"
  by (metis add.commute append_eq_conv_conj drop_drop)

lemma first_append [simp]: "u \<noteq> [] \<Longrightarrow> first (u @ r) = first u"
  by (simp add: first_def)

lemma first_Cons [simp]: "first (c # r) = c" "first [] = CHR 0x00"
  by (simp_all add: first_def)

lemma not_ws_symbol: "c \<in> set ''|();&<>'' \<Longrightarrow> \<not> is_ws c" "\<not> is_ws (CHR 0x00)" "word_char c \<Longrightarrow> \<not> is_ws c"
  by (auto simp: is_ws_iff whitespace_def word_char_def)

lemma stops_first: "stops r \<Longrightarrow> first r = CHR 0x00 \<or> first r = CHR '')''"
  by (auto simp: stops_def first_def)

lemma stops_not_ws: "stops r \<Longrightarrow> \<not> is_ws (first r)"
  using stops_first not_ws_symbol by fastforce

lemma skip_ws_none: "\<not> is_ws (at line s) \<Longrightarrow> skip_ws line s = s"
  by (subst skip_ws.simps) simp

lemma skip_ws_space:
  assumes "drop s line = CHR '' '' # r" and "\<not> is_ws (first r)"
  shows "skip_ws line s = Suc s"
proof -
  have "at line s = CHR '' ''" using at_drop [OF assms(1)] by simp
  moreover have "s < length line" using assms(1) by (metis drop_eq_Nil linorder_not_less list.distinct(1))
  moreover have "at line (Suc s) = first r" using at_drop [OF drop_tail [OF assms(1)]] .
  ultimately show ?thesis using assms(2) skip_ws_none [of line "Suc s"]
    by (subst skip_ws.simps) (simp add: is_ws_iff whitespace_def)
qed

lemma peek_tok_at: "\<not> is_ws (at line s) \<Longrightarrow> peek_tok line s toks = (at line s \<noteq> CHR 0x00 \<and> strchr toks (at line s) \<noteq> None, s)"
  by (simp add: peek_tok_def skip_ws_none)

lemma gettoken_symbol:
  assumes "drop s line = c # r" and "c \<in> set ''|();&''" and "\<not> is_ws (first r)"
  shows "gettoken line s = (c, s, Suc s, Suc s)"
proof -
  have "at line s = c" using at_drop [OF assms(1)] by simp
  moreover have "skip_ws line s = s" using not_ws_symbol(1) [of c] assms(2) calculation by (intro skip_ws_none) auto
  moreover have "at line (Suc s) = first r" using at_drop [OF drop_tail [OF assms(1)]] .
  then have "skip_ws line (Suc s) = Suc s" using assms(3) by (intro skip_ws_none) simp
  ultimately show ?thesis using assms(2) by (auto simp: gettoken_def)
qed

lemma skip_word_eq:
  assumes "drop s line = w @ r" and "\<forall>c \<in> set w. word_char c" and "is_ws (first r)"
  shows "skip_word line s = s + length w"
  using assms
proof (induction w arbitrary: s)
  case Nil
  then have "at line s = first r" using at_drop [of s line r] by simp
  then show ?case using Nil by (subst skip_word.simps) simp
next
  case (Cons c w)
  have "at line s = c" using at_drop [OF Cons.prems(1)] by simp
  moreover have "s < length line" using Cons.prems(1) by (metis append_Cons drop_eq_Nil linorder_not_less list.distinct(1))
  moreover have "drop (Suc s) line = w @ r" using drop_tail [of s line c] Cons.prems(1) by simp
  then have "skip_word line (Suc s) = Suc s + length w" using Cons by simp
  ultimately show ?case using Cons.prems(2) by (subst skip_word.simps) (simp add: word_char_def)
qed

lemma gettoken_word:
  assumes "drop s line = w @ CHR '' '' # r" and "valid_word w" and "\<not> is_ws (first r)"
  shows "gettoken line s = (CHR ''a'', s, s + length w, Suc (s + length w))" and "slice line (s, s + length w) = w"
proof -
  have w: "w \<noteq> []" "word_char (hd w)" using assms(2) by (auto simp: valid_word_def)
  have a: "at line s = hd w" using at_drop [OF assms(1)] w(1) by (simp add: first_def)
  have ws: "skip_ws line s = s" using w(2) not_ws_symbol(3) a by (intro skip_ws_none) simp
  have "is_ws (first (CHR '' '' # r))" by (simp add: is_ws_iff whitespace_def)
  then have e: "skip_word line s = s + length w" using skip_word_eq [OF assms(1)] assms(2) by (simp add: valid_word_def)
  have "skip_ws line (s + length w) = Suc (s + length w)"
    using skip_ws_space [OF drop_next [OF assms(1)] assms(3)] .
  moreover have "hd w \<noteq> CHR 0x00" "hd w \<notin> set ''|();&<''" "hd w \<noteq> CHR ''>''"
    using w(2) by (auto simp: word_char_def is_sym_iff symbols_def)
  ultimately show "gettoken line s = (CHR ''a'', s, s + length w, Suc (s + length w))"
    using ws a e by (simp add: gettoken_def)
  show "slice line (s, s + length w) = w" using assms(1) by (simp add: slice_def)
qed


lemma parseredirs_none:
  assumes "\<not> is_ws (at line s)" and "at line s \<noteq> CHR ''<''" and "at line s \<noteq> CHR ''>''" and "0 < n"
  shows "parseredirs n line s = Parsed [] s"
  using assms by (cases n) (simp_all add: peek_tok_at)

text \<open>A redirection: its symbol, a word and a space.\<close>

lemma gettoken_redir:
  assumes "drop s line = redir_symbol m @ f @ r" and "(m, fd) \<in> set redir_modes" and "valid_word f"
  shows "\<exists>tok q e. gettoken line s = (tok, q, e, s + length (redir_symbol m)) \<and> redircmd tok c w = Redir c w m fd"
proof -
  have m: "O_WRONLY OR O_CREATE OR O_TRUNC \<noteq> O_RDONLY" "O_WRONLY OR O_CREATE \<noteq> O_RDONLY" "O_WRONLY OR O_CREATE \<noteq> O_WRONLY OR O_CREATE OR O_TRUNC"
    by code_simp+
  have f: "word_char (hd f)" "f \<noteq> []" using assms(3) by (auto simp: valid_word_def)
  have hf: "hd f \<noteq> CHR ''>''" using f(1) by (auto simp: word_char_def is_sym_iff symbols_def)
  have s0: "at line s = first (redir_symbol m)" using at_drop [OF assms(1)] by (simp add: redir_symbol_def)
  have nx: "at line (s + length (redir_symbol m)) = hd f"
    using at_drop [OF drop_next [OF assms(1)]] f(2) by (simp add: first_def)
  then have sk: "skip_ws line (s + length (redir_symbol m)) = s + length (redir_symbol m)"
    using not_ws_symbol(3) [OF f(1)] by (intro skip_ws_none) simp
  have sk0: "skip_ws line s = s"
    using s0 by (intro skip_ws_none) (auto simp: redir_symbol_def is_ws_iff whitespace_def)
  consider "redir_symbol m = ''<''" "\<And>w. redircmd CHR ''<'' c w = Redir c w m fd"
    | "redir_symbol m = ''>''" "\<And>w. redircmd CHR ''>'' c w = Redir c w m fd"
    | "redir_symbol m = ''>>''" "\<And>w. redircmd CHR ''+'' c w = Redir c w m fd"
    using assms(2) m unfolding redir_modes_def redir_symbol_def redircmd_def by force
  then show ?thesis
  proof cases
    case 1
    then show ?thesis using s0 sk sk0 by (simp add: gettoken_def)
  next
    case 2
    then show ?thesis using s0 sk sk0 nx hf by (simp add: gettoken_def)
  next
    case 3
    have "drop s line = CHR ''>'' # CHR ''>'' # f @ r" using assms(1) 3(1) by simp
    from at_drop [OF drop_tail [OF this]] have "at line (Suc s) = CHR ''>''" by simp
    moreover have "skip_ws line (Suc (Suc s)) = Suc (Suc s)" "at line s = CHR ''>''" using sk s0 3(1) by simp_all
    ultimately have "gettoken line s = (CHR ''+'', s, Suc (Suc s), s + length (redir_symbol m))"
      using sk0 3(1) by (simp add: gettoken_def)
    then show ?thesis using 3(2) by blast
  qed
qed

lemma parseredirs_one:
  assumes d: "drop s line = redir_symbol m @ f @ CHR '' '' # r" and m: "(m, fd) \<in> set redir_modes" and f: "valid_word f"
    and r: "stops r" and n: "1 < n"
  shows "\<exists>rs. parseredirs n line s = Parsed rs (s + length (redir_symbol m @ f @ '' '')) \<and>
    (\<forall>c. \<exists>w. wrap c rs = Redir c w m fd \<and> slice line w = f)"
proof -
  let ?s1 = "s + length (redir_symbol m)" let ?s2 = "Suc (?s1 + length f)"
  obtain k where k: "n = Suc (Suc k)" using less_imp_Suc_add [OF n] by auto
  have s0: "at line s = first (redir_symbol m)" using at_drop [OF d] by (simp add: redir_symbol_def)
  have pk: "peek_tok line s ''<>'' = (True, s)"
    using s0 by (subst peek_tok_at) (auto simp: redir_symbol_def is_ws_iff whitespace_def)
  obtain tok q e where t: "gettoken line s = (tok, q, e, ?s1)"
    using gettoken_redir [OF d m f, of "Exec []" "(0, 0) :: word_pos"] by auto
  have red: "redircmd tok c w = Redir c w m fd" for c :: "word_pos cmd" and w using gettoken_redir [OF d m f, of c w] t by auto
  note g = gettoken_word [OF drop_next [OF d] f stops_not_ws [OF r]]
  have "drop ?s2 line = r" using drop_tail [OF drop_next [OF drop_next [OF d]]] by simp
  then have "at line ?s2 = first r" by (rule at_drop)
  then have "parseredirs (Suc k) line ?s2 = Parsed [] ?s2"
    using stops_first [OF r] stops_not_ws [OF r] by (intro parseredirs_none) auto
  then have "parseredirs n line s = Parsed [(tok, ?s1, ?s1 + length f)] ?s2"
    by (simp add: k pk t g(1) del: parseredirs.simps(2)) (simp add: pk t g(1))
  then show ?thesis using red g(2) by (auto simp: wrap_def)
qed


text \<open>How a printed command can start.\<close>

definition starts :: "char \<Rightarrow> bool" where
  "starts c \<longleftrightarrow> c = CHR 0x00 \<or> c = CHR '')'' \<or> c = CHR ''('' \<or> word_char c"

lemma starts_facts: "starts c \<Longrightarrow> \<not> is_ws c" "starts c \<Longrightarrow> c \<noteq> CHR ''<''" "starts c \<Longrightarrow> c \<noteq> CHR ''>''"
  by (auto simp: starts_def not_ws_symbol word_char_def is_sym_iff symbols_def)

lemma stops_starts: "stops r \<Longrightarrow> starts (first r)"
  using stops_first by (auto simp: starts_def)

lemma words_start:
  assumes "\<forall>w \<in> set ws. valid_word w" and "stops r"
  shows "starts (first (concat (map (\<lambda>w. w @ '' '') ws) @ r))"
  using assms by (cases ws) (auto simp: stops_def starts_def valid_word_def first_def)

lemma unparse_start: "valid_cmd t \<Longrightarrow> stops r \<Longrightarrow> starts (first (unparse t @ r))"
  using words_start by (cases t) (auto simp: starts_def)

lemma parseexec_loop_words:
  assumes "drop s line = concat (map (\<lambda>w. w @ '' '') ws) @ r" and "stops r" and "\<forall>w \<in> set ws. valid_word w"
    and "length args + length ws < MAXARGS" and "length ws < n"
  shows "\<exists>ps. parseexec_loop n line args [] s = Parsed (Exec (args @ ps)) (s + length (concat (map (\<lambda>w. w @ '' '') ws))) \<and>
    map (slice line) ps = ws"
  using assms
proof (induction ws arbitrary: s args n)
  case Nil
  then obtain m where n: "n = Suc m" by (cases n) auto
  have a: "at line s = first r" using at_drop [OF Nil.prems(1)] by simp
  have ns: "\<not> is_ws (at line s)" using stops_not_ws Nil.prems(2) a by simp
  have "at line s = CHR 0x00 \<or> at line s = CHR '')''" using stops_first [OF Nil.prems(2)] unfolding a .
  then have "parseexec_loop n line args [] s = Parsed (Exec args) s"
  proof
    assume z: "at line s = CHR 0x00"
    have pk: "peek_tok line s ''|)&;'' = (False, s)" using peek_tok_at [OF ns] z by simp
    have g: "gettoken line s = (CHR 0x00, s, s, s)" using skip_ws_none [OF ns] z by (simp add: gettoken_def)
    show ?thesis by (simp add: n pk g wrap_def)
  next
    assume z: "at line s = CHR '')''"
    have pk: "peek_tok line s ''|)&;'' = (True, s)" using peek_tok_at [OF ns] z by simp
    show ?thesis by (simp add: n pk wrap_def)
  qed
  then show ?case by simp
next
  case (Cons w ws)
  obtain m where n: "n = Suc m" using Cons.prems(5) by (cases n) auto
  let ?r = "concat (map (\<lambda>w. w @ '' '') ws) @ r" let ?s = "Suc (s + length w)"
  have d: "drop s line = w @ CHR '' '' # ?r" using Cons.prems(1) by simp
  have w: "valid_word w" "\<forall>w \<in> set ws. valid_word w" using Cons.prems(3) by simp_all
  note st = words_start [OF w(2) Cons.prems(2)]
  note g = gettoken_word [OF d w(1) starts_facts(1) [OF st]]
  have a: "at line s = hd w" using at_drop [OF d] w(1) by (simp add: valid_word_def first_def)
  have wc: "word_char (at line s)" using w(1) a by (simp add: valid_word_def)
  have pk: "peek_tok line s ''|)&;'' = (False, s)"
    using wc by (subst peek_tok_at) (auto simp: word_char_def is_sym_iff symbols_def)
  have d': "drop ?s line = ?r" using drop_tail [OF drop_next [OF d]] .
  have "parseredirs m line ?s = Parsed [] ?s"
    using starts_facts [OF st] at_drop [OF d'] Cons.prems(5) n by (intro parseredirs_none) auto
  moreover obtain ps where ps: "parseexec_loop m line (args @ [(s, s + length w)]) [] ?s =
      Parsed (Exec ((args @ [(s, s + length w)]) @ ps)) (?s + length (concat (map (\<lambda>w. w @ '' '') ws)))" "map (slice line) ps = ws"
    using Cons.IH [OF d' Cons.prems(2) w(2), of "args @ [(s, s + length w)]" m] Cons.prems(4,5) n by auto
  ultimately have "parseexec_loop n line args [] s =
      Parsed (Exec (args @ (s, s + length w) # ps)) (s + length (concat (map (\<lambda>w. w @ '' '') (w # ws))))"
    using Cons.prems(4) by (simp add: n pk g(1) add_ac)
  then show ?case using ps(2) g(2) by (intro exI [of _ "(s, s + length w) # ps"]) simp
qed

lemma parseexec_words:
  assumes d: "drop s line = unparse (Exec ws) @ r" and v: "valid_cmd (Exec ws)" and r: "stops r" and n: "length ws < n"
  shows "\<exists>c. parseexec pl n line s = Parsed c (s + length (unparse (Exec ws))) \<and> map_cmd (slice line) c = Exec ws"
proof -
  have st: "starts (at line s)" using unparse_start [OF v r] at_drop [OF d] by simp
  have p: "at line s \<noteq> CHR ''(''"
    using at_drop [OF d] v stops_first [OF r]
    by (cases ws) (auto simp: first_def valid_word_def word_char_def is_sym_iff symbols_def stops_def)
  have "parseredirs n line s = Parsed [] s" using starts_facts [OF st] n by (intro parseredirs_none) auto
  then have "parseexec pl n line s = parseexec_loop n line [] [] s"
    using p starts_facts(1) [OF st] by (simp add: parseexec_def peek_tok_at)
  then show ?thesis using parseexec_loop_words [of s line ws r "[]" n] d v r n by auto
qed

lemma parseexec_block:
  assumes d: "drop s line = CHR ''('' # unparse t @ CHR '')'' # r" and v: "valid_cmd t" and r: "\<not> is_ws (first r)"
    and pl: "pl line (Suc s) = Parsed c (Suc s + length (unparse t))"
  shows "parseexec pl n line s =
    pbind (parseredirs n line (s + length (unparse t) + 2)) (\<lambda>rs s6. Parsed (wrap c rs) s6)"
proof -
  let ?e = "Suc s + length (unparse t)"
  have a: "at line s = CHR ''(''" using at_drop [OF d] by simp
  have ns: "\<not> is_ws (at line s)" by (simp add: a is_ws_iff whitespace_def)
  have pk: "peek_tok line s ''('' = (True, s)" by (simp add: peek_tok_at [OF ns] a)
  have "starts (first (unparse t @ CHR '')'' # r))" by (rule unparse_start [OF v]) (simp add: stops_def)
  then have g: "gettoken line s = (CHR ''('', s, Suc s, Suc s)" using d by (intro gettoken_symbol) (auto dest: starts_facts)
  have de: "drop ?e line = CHR '')'' # r" by (rule drop_next [OF drop_tail [OF d]])
  have ae: "at line ?e = CHR '')''" using at_drop [OF de] by simp
  have nse: "\<not> is_ws (at line ?e)" unfolding ae by (simp add: is_ws_iff whitespace_def)
  have pke: "peek_tok line ?e '')'' = (True, ?e)" unfolding peek_tok_at [OF nse] ae by simp
  have ge: "gettoken line ?e = (CHR '')'', ?e, Suc ?e, Suc ?e)" by (rule gettoken_symbol [OF de _ r]) simp
  have e: "s + length (unparse t) + 2 = Suc ?e" by simp
  show ?thesis unfolding e by (simp add: parseexec_def parseblock_def pk g pl pke ge del: add_Suc)
qed

lemma parseexec_block_plain:
  assumes d: "drop s line = CHR ''('' # unparse t @ CHR '')'' # r" and v: "valid_cmd t"
    and r: "\<not> is_ws (first r)" "first r \<noteq> CHR ''<''" "first r \<noteq> CHR ''>''" and n: "0 < n"
    and pl: "pl line (Suc s) = Parsed c (Suc s + length (unparse t))"
  shows "parseexec pl n line s = Parsed c (s + length (unparse t) + 2)"
proof -
  have "drop (s + length (unparse t) + 2) line = r" using drop_tail [OF drop_next [OF drop_tail [OF d]]] by simp
  then have "at line (s + length (unparse t) + 2) = first r" by (rule at_drop)
  then have "parseredirs n line (s + length (unparse t) + 2) = Parsed [] (s + length (unparse t) + 2)"
    using r n by (intro parseredirs_none) simp_all
  then show ?thesis using parseexec_block [where pl = pl, OF d v r(1) pl, of n] by (simp add: wrap_def)
qed

lemma parsepipe_plain:
  assumes "parseexec pl n line s = Parsed c s'" and "\<not> is_ws (at line s')" and "at line s' \<noteq> CHR ''|''" and "0 < k"
  shows "parsepipe k pl n line s = Parsed c s'"
  using assms by (cases k) (simp_all add: peek_tok_at)

lemma parseline_plain:
  assumes "parsepipe n (parseline n) n line s = Parsed c s'" and "at line s' = CHR 0x00 \<or> at line s' = CHR '')''" and "0 < n"
  shows "parseline (Suc n) line s = Parsed c s'"
proof -
  have ns: "\<not> is_ws (at line s')" using assms(2) by (auto simp: is_ws_iff whitespace_def)
  have "parseback n line c s' = Parsed c s'" using assms(2,3) by (cases n) (auto simp: peek_tok_at [OF ns])
  then show ?thesis using assms(1,2) by (auto simp: peek_tok_at [OF ns])
qed


text \<open>A printed command, up to the end of the line or a closing parenthesis, is parsed to a command with the same words.\<close>

definition reads_back :: "string \<Rightarrow> nat \<Rightarrow> string cmd \<Rightarrow> word_pos cmd presult \<Rightarrow> bool" where
  "reads_back line s t r \<longleftrightarrow> (\<exists>c. r = Parsed c (s + length (unparse t)) \<and> map_cmd (slice line) c = t)"

definition parses :: "string \<Rightarrow> string cmd \<Rightarrow> bool" where
  "parses line t \<longleftrightarrow> (\<forall>s r n. drop s line = unparse t @ r \<longrightarrow> stops r \<longrightarrow> s \<le> length line \<longrightarrow> length line - s + 3 \<le> n \<longrightarrow>
     reads_back line s t (parseline n line s))"

lemma parses_block:
  assumes p: "parses line t" and d: "drop s line = CHR ''('' # unparse t @ CHR '')'' # r" and n: "length line - s + 2 \<le> n"
  obtains c where "parseline n line (Suc s) = Parsed c (Suc s + length (unparse t))" "map_cmd (slice line) c = t"
proof -
  have lt: "s < length line" using d by (metis drop_eq_Nil linorder_not_less list.distinct(1))
  have "reads_back line (Suc s) t (parseline n line (Suc s))"
    using p [unfolded parses_def, rule_format, OF drop_tail [OF d], of n] lt n by (simp add: stops_def)
  then show thesis using that by (auto simp: reads_back_def)
qed

lemma parses_Exec:
  assumes "valid_cmd (Exec ws)"
  shows "parses line (Exec ws)"
  unfolding parses_def
proof (intro allI impI)
  fix s r n assume d: "drop s line = unparse (Exec ws) @ r" and r: "stops r" and s: "s \<le> length line" and n: "length line - s + 3 \<le> n"
  obtain m where m: "n = Suc m" "length line - s + 2 \<le> m" using n by (cases n) auto
  have "length ws \<le> length (unparse (Exec ws))" by (induction ws) auto
  moreover have "length (unparse (Exec ws)) \<le> length line - s" using arg_cong [OF d, of length] by simp
  ultimately have "length ws < m" using m by linarith
  then obtain c where c: "parseexec (parseline m) m line s = Parsed c (s + length (unparse (Exec ws)))" "map_cmd (slice line) c = Exec ws"
    using parseexec_words [OF d assms r] by blast
  have a: "at line (s + length (unparse (Exec ws))) = first r" by (rule at_drop [OF drop_next [OF d]])
  have "parseline n line s = Parsed c (s + length (unparse (Exec ws)))"
    unfolding m using stops_first [OF r] stops_not_ws [OF r] a m
    by (intro parseline_plain parsepipe_plain c(1)) auto
  then show "reads_back line s (Exec ws) (parseline n line s)" using c(2) by (auto simp: reads_back_def)
qed

lemma parses_Redir:
  assumes p: "parses line t" and v: "valid_cmd (Redir t f mo fd)"
  shows "parses line (Redir t f mo fd)"
  unfolding parses_def
proof (intro allI impI)
  let ?t = "Redir t f mo fd"
  fix s r n assume d: "drop s line = unparse ?t @ r" and r: "stops r" and s: "s \<le> length line" and n: "length line - s + 3 \<le> n"
  obtain m where m: "n = Suc m" "length line - s + 2 \<le> m" using n by (cases n) auto
  have vt: "valid_cmd t" and vf: "valid_word f" and vm: "(mo, fd) \<in> set redir_modes" using v by simp_all
  have d0: "drop s line = CHR ''('' # unparse t @ CHR '')'' # redir_symbol mo @ f @ CHR '' '' # r" using d by simp
  obtain c where c: "parseline m line (Suc s) = Parsed c (Suc s + length (unparse t))" "map_cmd (slice line) c = t"
    by (rule parses_block [OF p d0 m(2)])
  have d1: "drop (s + length (unparse t) + 2) line = redir_symbol mo @ f @ CHR '' '' # r"
    using drop_tail [OF drop_next [OF drop_tail [OF d0]]] by simp
  obtain rs where rs: "parseredirs m line (s + length (unparse t) + 2) = Parsed rs (s + length (unparse ?t))"
      "\<forall>c. \<exists>w. wrap c rs = Redir c w mo fd \<and> slice line w = f"
    using parseredirs_one [OF d1 vm vf r, of m] m(2) by (auto simp: add_ac)
  have nw: "\<not> is_ws (first (redir_symbol mo @ f @ CHR '' '' # r))"
    by (auto simp: redir_symbol_def is_ws_iff whitespace_def)
  obtain w where w: "wrap c rs = Redir c w mo fd" "slice line w = f" using rs(2) by blast
  have e: "parseexec (parseline m) m line s = Parsed (Redir c w mo fd) (s + length (unparse ?t))"
    using parseexec_block [where pl = "parseline m", OF d0 vt nw c(1), of m] rs(1) w(1) by simp
  have a: "at line (s + length (unparse ?t)) = first r" by (rule at_drop [OF drop_next [OF d]])
  have "parseline n line s = Parsed (Redir c w mo fd) (s + length (unparse ?t))"
    unfolding m using stops_first [OF r] stops_not_ws [OF r] a m by (intro parseline_plain parsepipe_plain e) auto
  then show "reads_back line s ?t (parseline n line s)" using c(2) w(2) by (auto simp: reads_back_def)
qed


lemma paren_exec:
  assumes "parses line t" and "valid_cmd t" and "drop s line = CHR ''('' # unparse t @ CHR '')'' # r" and "length line - s + 2 \<le> n"
    and "\<not> is_ws (first r)" "first r \<noteq> CHR ''<''" "first r \<noteq> CHR ''>''"
  obtains c where "parseexec (parseline n) n line s = Parsed c (s + length (unparse t) + 2)" "map_cmd (slice line) c = t"
    "drop (s + length (unparse t) + 2) line = r"
proof -
  obtain c where c: "parseline n line (Suc s) = Parsed c (Suc s + length (unparse t))" "map_cmd (slice line) c = t"
    by (rule parses_block [OF assms(1,3,4)])
  have "0 < n" using assms(4) by linarith
  then have "parseexec (parseline n) n line s = Parsed c (s + length (unparse t) + 2)"
    using c(1) by (intro parseexec_block_plain [OF assms(3,2,5-7)])
  moreover have "drop (s + length (unparse t) + 2) line = r" using drop_tail [OF drop_next [OF drop_tail [OF assms(3)]]] by simp
  ultimately show thesis using c(2) by (intro that)
qed

lemma at_symbol:
  assumes "drop s line = c # r" and "c \<in> set ''|;&''"
  shows "\<not> is_ws (at line s)" "at line s = c" "peek_tok line s [c] = (True, s)"
proof -
  show a: "at line s = c" using at_drop [OF assms(1)] by simp
  show ns: "\<not> is_ws (at line s)" unfolding a using assms(2) by (auto simp: is_ws_iff whitespace_def)
  show "peek_tok line s [c] = (True, s)" unfolding peek_tok_at [OF ns] a using assms(2) by auto
qed

lemma paren_line:
  assumes "parses line t" and "valid_cmd t" and d: "drop s line = CHR ''('' # unparse t @ CHR '')'' # r" and n: "length line - s + 3 \<le> n"
    and r: "stops r"
  obtains c where "parseline n line s = Parsed c (s + length (unparse t) + 2)" "map_cmd (slice line) c = t"
proof -
  obtain m where m: "n = Suc m" "length line - s + 2 \<le> m" using n by (cases n) auto
  obtain c where c: "parseexec (parseline m) m line s = Parsed c (s + length (unparse t) + 2)" "map_cmd (slice line) c = t"
      "drop (s + length (unparse t) + 2) line = r"
    by (rule paren_exec [OF assms(1,2) d m(2)]) (use starts_facts [OF stops_starts [OF r]] in simp_all)
  have "parseline n line s = Parsed c (s + length (unparse t) + 2)"
    unfolding m(1) using stops_first [OF r] stops_not_ws [OF r] at_drop [OF c(3)] m
    by (intro parseline_plain parsepipe_plain c(1)) auto
  then show thesis using c(2) by (rule that)
qed

lemma parses_Pipe:
  assumes p: "parses line l" "parses line t" and v: "valid_cmd l" "valid_cmd t"
  shows "parses line (Pipe l t)"
  unfolding parses_def
proof (intro allI impI)
  let ?t = "Pipe l t"
  fix s r n assume d: "drop s line = unparse ?t @ r" and r: "stops r" and s: "s \<le> length line" and n: "length line - s + 3 \<le> n"
  let ?q = "CHR ''('' # unparse t @ CHR '')'' # r" let ?s1 = "s + length (unparse l) + 2"
  obtain k where k: "n = Suc (Suc (Suc k))" "length line - s \<le> k" by (rule that [of "n - 3"]) (use n in linarith)+
  let ?m = "Suc (Suc k)"
  have d0: "drop s line = CHR ''('' # unparse l @ CHR '')'' # CHR ''|'' # ?q" using d by simp
  obtain c where c: "parseexec (parseline ?m) ?m line s = Parsed c ?s1" "map_cmd (slice line) c = l" "drop ?s1 line = CHR ''|'' # ?q"
    by (rule paren_exec [OF p(1) v(1) d0, of ?m]) (use k in \<open>auto simp: is_ws_iff whitespace_def\<close>)
  have pk: "peek_tok line ?s1 ''|'' = (True, ?s1)" by (rule at_symbol(3) [OF c(3)]) simp
  have g: "gettoken line ?s1 = (CHR ''|'', ?s1, Suc ?s1, Suc ?s1)"
    by (rule gettoken_symbol [OF c(3)]) (simp_all add: is_ws_iff whitespace_def)
  obtain c' where c': "parseexec (parseline ?m) ?m line (Suc ?s1) = Parsed c' (Suc ?s1 + length (unparse t) + 2)" "map_cmd (slice line) c' = t"
      "drop (Suc ?s1 + length (unparse t) + 2) line = r"
    by (rule paren_exec [OF p(2) v(2) drop_tail [OF c(3)], of ?m]) (use k starts_facts [OF stops_starts [OF r]] in \<open>auto\<close>)
  have len: "Suc ?s1 + length (unparse t) + 2 = s + length (unparse ?t)" by simp
  have a: "at line (s + length (unparse ?t)) = first r" by (rule at_drop [OF drop_next [OF d]])
  have "parsepipe (Suc k) (parseline ?m) ?m line (Suc ?s1) = Parsed c' (s + length (unparse ?t))"
    using stops_first [OF r] stops_not_ws [OF r] a c'(1) [unfolded len] by (intro parsepipe_plain) auto
  then have "parsepipe ?m (parseline ?m) ?m line s = Parsed (Pipe c c') (s + length (unparse ?t))"
    using c(1) pk g by (simp only: parsepipe.simps pbind.simps prod.case bool.case Let_def)
  then have "parseline n line s = Parsed (Pipe c c') (s + length (unparse ?t))"
    unfolding k(1) using stops_first [OF r] a by (intro parseline_plain) auto
  then show "reads_back line s ?t (parseline n line s)" using c(2) c'(2) by (auto simp: reads_back_def)
qed

lemma parses_Lst:
  assumes p: "parses line l" "parses line t" and v: "valid_cmd l" "valid_cmd t"
  shows "parses line (Lst l t)"
  unfolding parses_def
proof (intro allI impI)
  let ?t = "Lst l t"
  fix s r n assume d: "drop s line = unparse ?t @ r" and r: "stops r" and s: "s \<le> length line" and n: "length line - s + 3 \<le> n"
  let ?q = "CHR ''('' # unparse t @ CHR '')'' # r" let ?s1 = "s + length (unparse l) + 2"
  obtain m where m: "n = Suc m" "length line - s + 2 \<le> m" "0 < m" using n by (cases n) auto
  have d0: "drop s line = CHR ''('' # unparse l @ CHR '')'' # CHR '';'' # ?q" using d by simp
  obtain c where c: "parseexec (parseline m) m line s = Parsed c ?s1" "map_cmd (slice line) c = l" "drop ?s1 line = CHR '';'' # ?q"
    by (rule paren_exec [OF p(1) v(1) d0 m(2)]) (auto simp: is_ws_iff whitespace_def)
  have pk: "peek_tok line ?s1 '';'' = (True, ?s1)" by (rule at_symbol(3) [OF c(3)]) simp
  have g: "gettoken line ?s1 = (CHR '';'', ?s1, Suc ?s1, Suc ?s1)"
    by (rule gettoken_symbol [OF c(3)]) (simp_all add: is_ws_iff whitespace_def)
  have a: "\<not> is_ws (at line ?s1)" "at line ?s1 = CHR '';''" using at_symbol(1,2) [OF c(3)] by simp_all
  have "?s1 < length line" using c(3) by (metis drop_eq_Nil linorder_not_less list.distinct(1))
  then have m2: "length line - Suc ?s1 + 3 \<le> m" using m(2) by linarith
  obtain c' where c': "parseline m line (Suc ?s1) = Parsed c' (Suc ?s1 + length (unparse t) + 2)" "map_cmd (slice line) c' = t"
    by (rule paren_line [OF p(2) v(2) drop_tail [OF c(3)] m2 r])
  have len: "Suc ?s1 + length (unparse t) + 2 = s + length (unparse ?t)" by simp
  have "parsepipe m (parseline m) m line s = Parsed c ?s1" using a m(3) by (intro parsepipe_plain c(1)) simp_all
  moreover have "parseback m line c ?s1 = Parsed c ?s1" using a m(3) by (cases m) (simp_all add: peek_tok_at [OF a(1)] del: add_2_eq_Suc')
  ultimately have "parseline n line s = Parsed (Lst c c') (s + length (unparse ?t))"
    unfolding m(1) using pk g c'(1) [unfolded len] by (simp only: parseline.simps pbind.simps prod.case bool.case Let_def)
  then show "reads_back line s ?t (parseline n line s)" using c(2) c'(2) by (auto simp: reads_back_def)
qed

lemma parses_Back:
  assumes p: "parses line t" and v: "valid_cmd t"
  shows "parses line (Back t)"
  unfolding parses_def
proof (intro allI impI)
  fix s r n assume d: "drop s line = unparse (Back t) @ r" and r: "stops r" and s: "s \<le> length line" and n: "length line - s + 3 \<le> n"
  let ?s1 = "s + length (unparse t) + 2"
  obtain k where k: "n = Suc (Suc (Suc k))" "length line - s \<le> k" by (rule that [of "n - 3"]) (use n in linarith)+
  let ?m = "Suc (Suc k)"
  have d0: "drop s line = CHR ''('' # unparse t @ CHR '')'' # CHR ''&'' # r" using d by simp
  obtain c where c: "parseexec (parseline ?m) ?m line s = Parsed c ?s1" "map_cmd (slice line) c = t" "drop ?s1 line = CHR ''&'' # r"
    by (rule paren_exec [OF p v d0, of ?m]) (use k in \<open>auto simp: is_ws_iff whitespace_def\<close>)
  have pk: "peek_tok line ?s1 ''&'' = (True, ?s1)" by (rule at_symbol(3) [OF c(3)]) simp
  have g: "gettoken line ?s1 = (CHR ''&'', ?s1, Suc ?s1, Suc ?s1)"
    by (rule gettoken_symbol [OF c(3)]) (use stops_not_ws [OF r] in simp_all)
  have a: "\<not> is_ws (at line ?s1)" "at line ?s1 = CHR ''&''" using at_symbol(1,2) [OF c(3)] by simp_all
  have e: "at line (Suc ?s1) = first r" using at_drop [OF drop_tail [OF c(3)]] .
  have ne: "\<not> is_ws (at line (Suc ?s1))" "at line (Suc ?s1) = CHR 0x00 \<or> at line (Suc ?s1) = CHR '')''"
    using stops_not_ws [OF r] stops_first [OF r] unfolding e by simp_all
  have pks: "peek_tok line (Suc ?s1) ''&'' = (False, Suc ?s1)" "peek_tok line (Suc ?s1) '';'' = (False, Suc ?s1)"
    unfolding peek_tok_at [OF ne(1)] using ne(2) by auto
  have "parsepipe ?m (parseline ?m) ?m line s = Parsed c ?s1" using a by (intro parsepipe_plain c(1)) simp_all
  moreover have "parseback ?m line c ?s1 = Parsed (Back c) (Suc ?s1)"
    by (simp only: parseback.simps pk g pks prod.case bool.case Let_def)
  ultimately have "parseline n line s = Parsed (Back c) (Suc ?s1)"
    unfolding k(1) using pks by (simp only: parseline.simps pbind.simps prod.case bool.case)
  then show "reads_back line s (Back t) (parseline n line s)" using c(2) by (auto simp: reads_back_def)
qed

lemma valid_cmd_parses: "valid_cmd t \<Longrightarrow> parses line t"
  by (induction t) (auto intro: parses_Redir parses_Pipe parses_Lst parses_Back simp del: unparse.simps valid_cmd.simps(1) intro!: parses_Exec)


lemma set_words: "set_cmd c = set (words c)"
  by (induction c) auto

lemma unparse_no_zero: "valid_cmd t \<Longrightarrow> CHR 0x00 \<notin> set (unparse t)"
  by (induction t) (auto simp: valid_word_def word_char_def redir_symbol_def)

text \<open>
  C36: a printed command is parsed back. For every command, of any nesting, with words without white space
  and symbols and with fewer than \<open>MAXARGS\<close> arguments, \<open>parsecmd\<close> on its text returns a command of the same
  structure, and after \<open>nulterminate\<close> the C string at the beginning of each word is that word: no zero byte
  falls into another word.
\<close>

theorem parse_unparse:
  assumes "valid_cmd t"
  shows "\<exists>cmd buf. parsecmd (unparse t) = Parsed (cmd, buf) (length (unparse t)) \<and> map_cmd (\<lambda>w. cstring buf (fst w)) cmd = t"
proof -
  let ?line = "unparse t"
  have "reads_back ?line 0 t (parseline (length ?line + 3) ?line 0)"
    using valid_cmd_parses [OF assms, unfolded parses_def, rule_format, of 0 ?line "[]"] by (simp add: stops_def)
  then obtain c where c: "parseline (length ?line + 3) ?line 0 = Parsed c (length ?line)" "map_cmd (slice ?line) c = t"
    by (auto simp: reads_back_def)
  have "peek_tok ?line (length ?line) [] = (False, length ?line)"
    by (subst peek_tok_at) (simp_all add: at_Nil not_ws_symbol)
  then have p: "parsecmd ?line = Parsed (c, nulterminate c ?line) (length ?line)" using c(1) by (simp add: parsecmd_def)
  have "cstring (nulterminate c ?line) (fst w) = slice ?line w" if "w \<in> set_cmd c" for w
    using parsecmd_words [OF unparse_no_zero [OF assms]] that unfolding p by (simp add: set_words)
  then have "map_cmd (\<lambda>w. cstring (nulterminate c ?line) (fst w)) c = map_cmd (slice ?line) c" by (intro cmd.map_cong refl)
  then show ?thesis using p c(2) by simp
qed

theorem parse_unparse_witness:
  "let t = Lst (Pipe (Exec [''ls'', ''-l'']) (Redir (Exec [''wc'']) ''out'' (O_WRONLY OR O_CREATE OR O_TRUNC) 1)) (Back (Exec [''echo'', ''hi''])) in
   unparse t = ''((ls -l )|((wc )>out ));((echo hi )&)'' \<and>
   (\<exists>cmd buf. parsecmd ''((ls -l )|((wc )>out ));((echo hi )&)'' = Parsed (cmd, buf) 37 \<and> map_cmd (\<lambda>w. cstring buf (fst w)) cmd = t)"
proof -
  let ?t = "Lst (Pipe (Exec [''ls'', ''-l'']) (Redir (Exec [''wc'']) ''out'' (O_WRONLY OR O_CREATE OR O_TRUNC) 1)) (Back (Exec [''echo'', ''hi'']))"
  have v: "valid_cmd ?t"
    by (simp add: MAXARGS_def redir_modes_def valid_word_def word_char_def is_ws_iff is_sym_iff whitespace_def symbols_def)
  have "O_WRONLY OR O_CREATE OR O_TRUNC \<noteq> O_RDONLY" by code_simp
  then have u: "unparse ?t = ''((ls -l )|((wc )>out ));((echo hi )&)''" by (simp add: redir_symbol_def)
  have l: "length ''((ls -l )|((wc )>out ));((echo hi )&)'' = 37" by simp
  show ?thesis using parse_unparse [OF v] unfolding u l Let_def by blast
qed

text \<open>
  C37: the parser ends on every line, and finds words only. For any line, however wrong, it returns a command
  or a syntax error; each word of a command is a non-empty run of word characters that ends at the end of the line or at another character, and it is
  the C string at its begin after \<open>nulterminate\<close>.
\<close>

theorem parsecmd_total:
  assumes "CHR 0x00 \<notin> set line"
  shows "(\<exists>e. parsecmd line = SyntaxError e) \<or>
    (\<exists>cmd buf. parsecmd line = Parsed (cmd, buf) (length line) \<and> length buf = length line \<and>
      (\<forall>w \<in> set (words cmd). word_at line w \<and> cstring buf (fst w) = slice line w))"
  using parsecmd_words [OF assms] by (cases "parsecmd line") auto

theorem parsecmd_total_witness:
  "parsecmd ''ls >'' = SyntaxError ''missing file for redirection'' \<and>
   (\<exists>cmd buf. parsecmd ''ls'' = Parsed (cmd, buf) 2 \<and> (\<forall>w \<in> set (words cmd). cstring buf (fst w) = slice ''ls'' w))"
proof
  show "parsecmd ''ls >'' = SyntaxError ''missing file for redirection''" by code_simp
  have "case parsecmd ''ls'' of SyntaxError e \<Rightarrow> False | _ \<Rightarrow> True" by code_simp
  then have "\<not> (\<exists>e. parsecmd ''ls'' = SyntaxError e)" by auto
  then show "\<exists>cmd buf. parsecmd ''ls'' = Parsed (cmd, buf) 2 \<and> (\<forall>w \<in> set (words cmd). cstring buf (fst w) = slice ''ls'' w)"
    using parsecmd_total [of "''ls''"] by (auto simp: numeral_2_eq_2)
qed

end
