(* ===== verification/Virtio.thy ===== *)
theory Virtio
  imports File
begin

text \<open>
  The disk driver, \<open>kernel/virtio_disk.c\<close> and \<open>kernel/virtio.h\<close>. The descriptor table and the two rings, which the driver
  shares with the device, are lists of their entries; an address in a descriptor says which object of the
  driver it points to. A read of a device register is answered by the device, as a function of the writes to its
  registers so far. \<open>virtio_disk_rw\<close> has two parts: it submits a request, and after
  the interrupt handler has seen its end it gives the descriptors back.
\<close>

unbundle bit_operations_syntax

section \<open>The data\<close>

definition NUM :: nat where "NUM = 8"
definition VRING_DESC_F_NEXT :: u16 where "VRING_DESC_F_NEXT = 1"
definition VRING_DESC_F_WRITE :: u16 where "VRING_DESC_F_WRITE = 2"
definition VIRTIO_BLK_T_IN :: u32 where "VIRTIO_BLK_T_IN = 0"
definition VIRTIO_BLK_T_OUT :: u32 where "VIRTIO_BLK_T_OUT = 1"

datatype virtio_mmio =
    VIRTIO_MMIO_MAGIC_VALUE | VIRTIO_MMIO_VERSION | VIRTIO_MMIO_DEVICE_ID | VIRTIO_MMIO_VENDOR_ID
  | VIRTIO_MMIO_DEVICE_FEATURES | VIRTIO_MMIO_DRIVER_FEATURES | VIRTIO_MMIO_QUEUE_SEL | VIRTIO_MMIO_QUEUE_NUM_MAX
  | VIRTIO_MMIO_QUEUE_NUM | VIRTIO_MMIO_QUEUE_READY | VIRTIO_MMIO_QUEUE_NOTIFY | VIRTIO_MMIO_INTERRUPT_STATUS
  | VIRTIO_MMIO_INTERRUPT_ACK | VIRTIO_MMIO_STATUS | VIRTIO_MMIO_QUEUE_DESC_LOW | VIRTIO_MMIO_QUEUE_DESC_HIGH
  | VIRTIO_MMIO_DRIVER_DESC_LOW | VIRTIO_MMIO_DRIVER_DESC_HIGH | VIRTIO_MMIO_DEVICE_DESC_LOW | VIRTIO_MMIO_DEVICE_DESC_HIGH

primrec mmio_offset :: "virtio_mmio \<Rightarrow> u64" where
    "mmio_offset VIRTIO_MMIO_MAGIC_VALUE = 0x000"
  | "mmio_offset VIRTIO_MMIO_VERSION = 0x004"
  | "mmio_offset VIRTIO_MMIO_DEVICE_ID = 0x008"
  | "mmio_offset VIRTIO_MMIO_VENDOR_ID = 0x00c"
  | "mmio_offset VIRTIO_MMIO_DEVICE_FEATURES = 0x010"
  | "mmio_offset VIRTIO_MMIO_DRIVER_FEATURES = 0x020"
  | "mmio_offset VIRTIO_MMIO_QUEUE_SEL = 0x030"
  | "mmio_offset VIRTIO_MMIO_QUEUE_NUM_MAX = 0x034"
  | "mmio_offset VIRTIO_MMIO_QUEUE_NUM = 0x038"
  | "mmio_offset VIRTIO_MMIO_QUEUE_READY = 0x044"
  | "mmio_offset VIRTIO_MMIO_QUEUE_NOTIFY = 0x050"
  | "mmio_offset VIRTIO_MMIO_INTERRUPT_STATUS = 0x060"
  | "mmio_offset VIRTIO_MMIO_INTERRUPT_ACK = 0x064"
  | "mmio_offset VIRTIO_MMIO_STATUS = 0x070"
  | "mmio_offset VIRTIO_MMIO_QUEUE_DESC_LOW = 0x080"
  | "mmio_offset VIRTIO_MMIO_QUEUE_DESC_HIGH = 0x084"
  | "mmio_offset VIRTIO_MMIO_DRIVER_DESC_LOW = 0x090"
  | "mmio_offset VIRTIO_MMIO_DRIVER_DESC_HIGH = 0x094"
  | "mmio_offset VIRTIO_MMIO_DEVICE_DESC_LOW = 0x0a0"
  | "mmio_offset VIRTIO_MMIO_DEVICE_DESC_HIGH = 0x0a4"

text \<open>The macro \<open>R\<close>: the address of a register.\<close>

definition R :: "virtio_mmio \<Rightarrow> u64" where
  "R r = VIRTIO0 + mmio_offset r"

definition VIRTIO_CONFIG_S_ACKNOWLEDGE :: u32 where "VIRTIO_CONFIG_S_ACKNOWLEDGE = 1"
definition VIRTIO_CONFIG_S_DRIVER :: u32 where "VIRTIO_CONFIG_S_DRIVER = 2"
definition VIRTIO_CONFIG_S_DRIVER_OK :: u32 where "VIRTIO_CONFIG_S_DRIVER_OK = 4"
definition VIRTIO_CONFIG_S_FEATURES_OK :: u32 where "VIRTIO_CONFIG_S_FEATURES_OK = 8"
definition VIRTIO_BLK_F_RO :: nat where "VIRTIO_BLK_F_RO = 5"
definition VIRTIO_BLK_F_SCSI :: nat where "VIRTIO_BLK_F_SCSI = 7"
definition VIRTIO_BLK_F_FLUSH :: nat where "VIRTIO_BLK_F_FLUSH = 9"
definition VIRTIO_BLK_F_CONFIG_WCE :: nat where "VIRTIO_BLK_F_CONFIG_WCE = 11"
definition VIRTIO_BLK_F_MQ :: nat where "VIRTIO_BLK_F_MQ = 12"
definition VIRTIO_F_ANY_LAYOUT :: nat where "VIRTIO_F_ANY_LAYOUT = 27"
definition VIRTIO_RING_F_INDIRECT_DESC :: nat where "VIRTIO_RING_F_INDIRECT_DESC = 28"
definition VIRTIO_RING_F_EVENT_IDX :: nat where "VIRTIO_RING_F_EVENT_IDX = 29"

text \<open>What a descriptor can point to: \<open>disk.ops[i]\<close>, the data of buffer \<open>b\<close>, or \<open>disk.info[i].status\<close>.\<close>

datatype vaddr = VNull | VOps nat | VData nat | VStatus nat

record virtq_desc =
  vq_addr :: vaddr
  vq_len :: u32
  vq_flags :: u16
  vq_next :: u16

record virtio_blk_req =
  rq_type :: u32
  rq_reserved :: u32
  rq_sector :: u64

text \<open>
  \<open>struct disk\<close> with the rings it points to: \<open>vd_used_idx\<close> is \<open>used->idx\<close>, which the device writes, and \<open>vd_seen\<close> is
  \<open>disk.used_idx\<close>, up to where the driver has looked.
\<close>

record vdisk =
  vd_desc :: "virtq_desc list"
  vd_avail_idx :: u16
  vd_avail_ring :: "u16 list"
  vd_used_idx :: u16
  vd_used_ring :: "u32 list"
  vd_free :: "bool list"
  vd_seen :: u16
  vd_b :: "nat option list"
  vd_status :: "u8 list"
  vd_ops :: "virtio_blk_req list"

text \<open>
  \<open>kv_owned\<close> is \<open>b->disk\<close> of each buffer. The last two fields are the device's own: how far it has read the
  ring of available requests, and which requests it works on.
\<close>

record kvirtio = kfile +
  kv_disk :: vdisk
  kv_owned :: "nat \<Rightarrow> bool"
  kv_mmio :: "(u64 \<times> u32) list"
  kv_pages :: "u64 \<times> u64 \<times> u64"
  kv_dev_idx :: u16
  kv_dev_work :: "nat list"

definition zero_desc :: virtq_desc where
  "zero_desc = \<lparr>vq_addr = VNull, vq_len = 0, vq_flags = 0, vq_next = 0\<rparr>"

definition zero_req :: virtio_blk_req where
  "zero_req = \<lparr>rq_type = 0, rq_reserved = 0, rq_sector = 0\<rparr>"

definition upd_disk :: "(vdisk \<Rightarrow> vdisk) \<Rightarrow> ('z kvirtio_scheme, unit) kop" where
  "upd_disk f = kmod (\<lambda>s. s\<lparr>kv_disk := f (kv_disk s)\<rparr>)"

section \<open>Registers and set-up\<close>

type_synonym regs = "(u64 \<times> u32) list \<Rightarrow> u64 \<Rightarrow> u32"

definition r_mmio :: "regs \<Rightarrow> virtio_mmio \<Rightarrow> ('z kvirtio_scheme, u32) kop" where
  "r_mmio dev r = kget (\<lambda>s. dev (kv_mmio s) (R r))"

definition w_mmio :: "virtio_mmio \<Rightarrow> u32 \<Rightarrow> ('z kvirtio_scheme, unit) kop" where
  "w_mmio r v = kmod (\<lambda>s. s\<lparr>kv_mmio := kv_mmio s @ [(R r, v)]\<rparr>)"

definition driver_features :: "u32 \<Rightarrow> u32" where
  "driver_features f = ucast (fold (\<lambda>k f. f AND NOT (push_bit k 1)) [VIRTIO_BLK_F_RO, VIRTIO_BLK_F_SCSI, VIRTIO_BLK_F_FLUSH, VIRTIO_BLK_F_CONFIG_WCE,
     VIRTIO_BLK_F_MQ, VIRTIO_F_ANY_LAYOUT, VIRTIO_RING_F_EVENT_IDX, VIRTIO_RING_F_INDIRECT_DESC] (ucast f :: u64))"

definition virtio_reset :: "regs \<Rightarrow> ('z kvirtio_scheme, u32) kop" where
  "virtio_reset dev =
     kseq (w_mmio VIRTIO_MMIO_STATUS 0)
    (kseq (w_mmio VIRTIO_MMIO_STATUS VIRTIO_CONFIG_S_ACKNOWLEDGE)
    (kseq (w_mmio VIRTIO_MMIO_STATUS (VIRTIO_CONFIG_S_ACKNOWLEDGE OR VIRTIO_CONFIG_S_DRIVER))
    (kbind (r_mmio dev VIRTIO_MMIO_DEVICE_FEATURES) (\<lambda>f.
     kseq (w_mmio VIRTIO_MMIO_DRIVER_FEATURES (driver_features f))
    (kseq (w_mmio VIRTIO_MMIO_STATUS (VIRTIO_CONFIG_S_ACKNOWLEDGE OR VIRTIO_CONFIG_S_DRIVER OR VIRTIO_CONFIG_S_FEATURES_OK))
    (kbind (r_mmio dev VIRTIO_MMIO_STATUS) (\<lambda>status.
       if status AND VIRTIO_CONFIG_S_FEATURES_OK = 0 then kpanic ''virtio disk FEATURES_OK unset''
       else kret status)))))))"

definition w_mmio_addr :: "virtio_mmio \<Rightarrow> virtio_mmio \<Rightarrow> u64 \<Rightarrow> ('z kvirtio_scheme, unit) kop" where
  "w_mmio_addr lo hi a = kseq (w_mmio lo (ucast a)) (w_mmio hi (ucast (drop_bit 32 a)))"

text \<open>The queue pages after \<open>memset\<close>; the fields of \<open>disk\<close> that are not in them keep their values.\<close>

definition zero_queue :: "vdisk \<Rightarrow> vdisk" where
  "zero_queue d = d\<lparr>vd_desc := replicate NUM zero_desc, vd_avail_idx := 0, vd_avail_ring := replicate NUM 0,
     vd_used_idx := 0, vd_used_ring := replicate NUM 0\<rparr>"

definition virtio_queue :: "regs \<Rightarrow> u32 \<Rightarrow> ('z kvirtio_scheme, unit) kop" where
  "virtio_queue dev status =
     kseq (w_mmio VIRTIO_MMIO_QUEUE_SEL 0)
    (kbind (r_mmio dev VIRTIO_MMIO_QUEUE_READY) (\<lambda>ready.
     if ready \<noteq> 0 then kpanic ''virtio disk should not be ready'' else
     kbind (r_mmio dev VIRTIO_MMIO_QUEUE_NUM_MAX) (\<lambda>mx.
     if mx = 0 then kpanic ''virtio disk has no queue 0''
     else if mx < of_nat NUM then kpanic ''virtio disk max queue too short'' else
     kbind kalloc (\<lambda>desc. kbind kalloc (\<lambda>avail. kbind kalloc (\<lambda>used.
     if desc = 0 \<or> avail = 0 \<or> used = 0 then kpanic ''virtio disk kalloc'' else
     kseq (kmod (\<lambda>s. s\<lparr>km_mem := memset used 0 4096 (memset avail 0 4096 (memset desc 0 4096 (km_mem s))), kv_pages := (desc, avail, used)\<rparr>))
    (kseq (upd_disk zero_queue)
    (kseq (w_mmio VIRTIO_MMIO_QUEUE_NUM (of_nat NUM))
    (kseq (w_mmio_addr VIRTIO_MMIO_QUEUE_DESC_LOW VIRTIO_MMIO_QUEUE_DESC_HIGH desc)
    (kseq (w_mmio_addr VIRTIO_MMIO_DRIVER_DESC_LOW VIRTIO_MMIO_DRIVER_DESC_HIGH avail)
    (kseq (w_mmio_addr VIRTIO_MMIO_DEVICE_DESC_LOW VIRTIO_MMIO_DEVICE_DESC_HIGH used)
    (kseq (w_mmio VIRTIO_MMIO_QUEUE_READY 1)
    (kseq (upd_disk (\<lambda>d. d\<lparr>vd_free := replicate NUM True\<rparr>))
       (w_mmio VIRTIO_MMIO_STATUS (status OR VIRTIO_CONFIG_S_DRIVER_OK)))))))))))))))"

definition virtio_disk_init :: "regs \<Rightarrow> ('z kvirtio_scheme, unit) kop" where
  "virtio_disk_init dev = (\<lambda>s.
     if dev (kv_mmio s) (R VIRTIO_MMIO_MAGIC_VALUE) \<noteq> 0x74726976 \<or> dev (kv_mmio s) (R VIRTIO_MMIO_VERSION) \<noteq> 2 \<or>
        dev (kv_mmio s) (R VIRTIO_MMIO_DEVICE_ID) \<noteq> 2 \<or> dev (kv_mmio s) (R VIRTIO_MMIO_VENDOR_ID) \<noteq> 0x554d4551
     then Panic ''could not find virtio disk''
     else kbind (virtio_reset dev) (virtio_queue dev) s)"

section \<open>Descriptors\<close>

definition alloc_desc :: "('z kvirtio_scheme, nat option) kop" where
  "alloc_desc = (\<lambda>s. case scan_idx (\<lambda>x. x) (vd_free (kv_disk s)) of
       Some i \<Rightarrow> kseq (upd_disk (\<lambda>d. d\<lparr>vd_free := (vd_free d)[i := False]\<rparr>)) (kret (Some i)) s
     | None \<Rightarrow> Ret None s)"

definition free_desc :: "nat \<Rightarrow> ('z kvirtio_scheme, unit) kop" where
  "free_desc i = (\<lambda>s.
     if i \<ge> NUM then Panic ''free_desc 1''
     else if vd_free (kv_disk s) ! i then Panic ''free_desc 2''
     else kseq (upd_disk (\<lambda>d. d\<lparr>vd_desc := (vd_desc d)[i := zero_desc], vd_free := (vd_free d)[i := True]\<rparr>))
       (kwakeup AddrDiskFree) s)"

text \<open>Each round of \<open>free_chain\<close> frees a descriptor that was in use, so there are at most \<open>NUM + 1\<close> rounds.\<close>

primrec free_chain_loop :: "nat \<Rightarrow> nat \<Rightarrow> ('z kvirtio_scheme, unit) kop" where
  "free_chain_loop 0 i = (\<lambda>s. Fault)"
| "free_chain_loop (Suc k) i = (\<lambda>s.
     if i \<ge> NUM then Panic ''free_desc 1''
     else let flag = vq_flags (vd_desc (kv_disk s) ! i); nxt = vq_next (vd_desc (kv_disk s) ! i) in
       kseq (free_desc i) (if flag AND VRING_DESC_F_NEXT \<noteq> 0 then free_chain_loop k (unat nxt) else kret ()) s)"

definition free_chain :: "nat \<Rightarrow> ('z kvirtio_scheme, unit) kop" where
  "free_chain i = free_chain_loop (Suc NUM) i"

primrec alloc3_loop :: "nat \<Rightarrow> nat list \<Rightarrow> ('z kvirtio_scheme, nat list option) kop" where
  "alloc3_loop 0 idx = kret (Some idx)"
| "alloc3_loop (Suc k) idx = kbind alloc_desc (\<lambda>r. case r of
       None \<Rightarrow> kseq (kfor idx free_desc) (kret None)
     | Some i \<Rightarrow> alloc3_loop k (idx @ [i]))"

definition alloc3_desc :: "('z kvirtio_scheme, nat list option) kop" where
  "alloc3_desc = alloc3_loop 3 []"

section \<open>Requests\<close>

definition format_req :: "nat \<Rightarrow> bool \<Rightarrow> u64 \<Rightarrow> nat \<Rightarrow> nat \<Rightarrow> nat \<Rightarrow> vdisk \<Rightarrow> vdisk" where
  "format_req b write sector i0 i1 i2 d = d\<lparr>
     vd_ops := (vd_ops d)[i0 := \<lparr>rq_type = (if write then VIRTIO_BLK_T_OUT else VIRTIO_BLK_T_IN), rq_reserved = 0, rq_sector = sector\<rparr>],
     vd_desc := (vd_desc d)
       [i0 := \<lparr>vq_addr = VOps i0, vq_len = 16, vq_flags = VRING_DESC_F_NEXT, vq_next = of_nat i1\<rparr>,
        i1 := \<lparr>vq_addr = VData b, vq_len = of_nat BSIZE, vq_flags = (if write then 0 else VRING_DESC_F_WRITE) OR VRING_DESC_F_NEXT, vq_next = of_nat i2\<rparr>,
        i2 := \<lparr>vq_addr = VStatus i0, vq_len = 1, vq_flags = VRING_DESC_F_WRITE, vq_next = 0\<rparr>],
     vd_status := (vd_status d)[i0 := 0xff],
     vd_b := (vd_b d)[i0 := Some b]\<rparr>"

definition avail_put :: "nat \<Rightarrow> vdisk \<Rightarrow> vdisk" where
  "avail_put i0 d = d\<lparr>vd_avail_ring := (vd_avail_ring d)[unat (vd_avail_idx d) mod NUM := of_nat i0],
     vd_avail_idx := vd_avail_idx d + 1\<rparr>"

text \<open>The first part of \<open>virtio_disk_rw\<close>; the product of the block number and \<open>BSIZE / 512\<close> has 32 bits.\<close>

definition virtio_disk_rw_submit :: "nat \<Rightarrow> bool \<Rightarrow> ('z kvirtio_scheme, nat) kop" where
  "virtio_disk_rw_submit b write = kbind alloc3_desc (\<lambda>r. case r of
       None \<Rightarrow> ksleep AddrDiskFree
     | Some idx \<Rightarrow> (case idx of
         [i0, i1, i2] \<Rightarrow> (\<lambda>s.
           kseq (upd_disk (format_req b write (ucast (b_blockno (kb_buf s b) * 2)) i0 i1 i2))
          (kseq (kmod (\<lambda>s. s\<lparr>kv_owned := (kv_owned s)(b := True)\<rparr>))
          (kseq (upd_disk (avail_put i0))
          (kseq (w_mmio VIRTIO_MMIO_QUEUE_NOTIFY 0) (kret i0)))) s)
       | _ \<Rightarrow> (\<lambda>s. Fault)))"

text \<open>The second part, from the loop that waits for the end of the request.\<close>

definition virtio_disk_rw_wait :: "nat \<Rightarrow> nat \<Rightarrow> ('z kvirtio_scheme, unit) kop" where
  "virtio_disk_rw_wait b i0 = (\<lambda>s.
     if kv_owned s b then ksleep (AddrBuf b) s
     else kseq (upd_disk (\<lambda>d. d\<lparr>vd_b := (vd_b d)[i0 := None]\<rparr>)) (free_chain i0) s)"

definition virtio_disk_rw :: "nat \<Rightarrow> bool \<Rightarrow> ('z kvirtio_scheme, unit) kop" where
  "virtio_disk_rw b write = kbind (virtio_disk_rw_submit b write) (virtio_disk_rw_wait b)"

text \<open>The loop of the interrupt handler runs once for each entry that the device has added.\<close>

primrec intr_loop :: "nat \<Rightarrow> ('z kvirtio_scheme, unit) kop" where
  "intr_loop 0 = (\<lambda>s. if vd_seen (kv_disk s) = vd_used_idx (kv_disk s) then Ret () s else Fault)"
| "intr_loop (Suc n) = (\<lambda>s. let d = kv_disk s in
     if vd_seen d = vd_used_idx d then Ret () s
     else let id = unat (vd_used_ring d ! (unat (vd_seen d) mod NUM)) in
       if id \<ge> NUM then Fault
       else if vd_status d ! id \<noteq> 0 then Panic ''virtio_disk_intr status''
       else case vd_b d ! id of
           None \<Rightarrow> Fault
         | Some b \<Rightarrow>
             kseq (kmod (\<lambda>s. s\<lparr>kv_owned := (kv_owned s)(b := False)\<rparr>))
            (kseq (kwakeup (AddrBuf b))
            (kseq (upd_disk (\<lambda>d. d\<lparr>vd_seen := vd_seen d + 1\<rparr>)) (intr_loop n))) s)"

definition virtio_disk_intr :: "regs \<Rightarrow> ('z kvirtio_scheme, unit) kop" where
  "virtio_disk_intr dev =
     kbind (r_mmio dev VIRTIO_MMIO_INTERRUPT_STATUS) (\<lambda>v.
       kseq (w_mmio VIRTIO_MMIO_INTERRUPT_ACK (v AND 3))
         (\<lambda>s. intr_loop (unat (vd_used_idx (kv_disk s) - vd_seen (kv_disk s))) s))"


section \<open>What the device does\<close>

text \<open>
  The documented behaviour of a virtio block device, on which the driver relies. It takes the next entry of the ring of
  available requests; or it performs one of the requests it has taken, in any order: it follows the chain
  from its head, reads or writes the block at the sector, sets the status byte to 0 and adds the head to the
  ring of used requests.
\<close>

definition device_fetch :: "'z kvirtio_scheme \<Rightarrow> 'z kvirtio_scheme option" where
  "device_fetch s = (let d = kv_disk s in
     if kv_dev_idx s = vd_avail_idx d then None
     else Some (s\<lparr>kv_dev_idx := kv_dev_idx s + 1,
       kv_dev_work := kv_dev_work s @ [unat (vd_avail_ring d ! (unat (kv_dev_idx s) mod NUM))]\<rparr>))"

definition used_put :: "nat \<Rightarrow> vdisk \<Rightarrow> vdisk" where
  "used_put h d = d\<lparr>vd_used_ring := (vd_used_ring d)[unat (vd_used_idx d) mod NUM := of_nat h],
     vd_used_idx := vd_used_idx d + 1\<rparr>"

definition transfer :: "bool \<Rightarrow> u32 \<Rightarrow> nat \<Rightarrow> 'z kvirtio_scheme \<Rightarrow> 'z kvirtio_scheme" where
  "transfer out blk b s =
     (if out then s\<lparr>kb_disk := (kb_disk s)(blk := b_data (kb_buf s b)), kb_writes := kb_writes s @ [(blk, b_data (kb_buf s b))]\<rparr>
      else s\<lparr>kb_buf := (kb_buf s)(b := (kb_buf s b)\<lparr>b_data := kb_disk s blk\<rparr>)\<rparr>)"

definition device_complete :: "nat \<Rightarrow> 'z kvirtio_scheme \<Rightarrow> 'z kvirtio_scheme option" where
  "device_complete h s =
     (let d = kv_disk s; d0 = vd_desc d ! h; d1 = vd_desc d ! unat (vq_next d0); d2 = vd_desc d ! unat (vq_next d1) in
      case (vq_addr d0, vq_addr d1, vq_addr d2) of
        (VOps k, VData b, VStatus m) \<Rightarrow>
          Some ((transfer (rq_type (vd_ops d ! k) = VIRTIO_BLK_T_OUT) (ucast (rq_sector (vd_ops d ! k) div 2)) b s)
            \<lparr>kv_disk := used_put h (d\<lparr>vd_status := (vd_status d)[m := 0]\<rparr>), kv_dev_work := remove1 h (kv_dev_work s)\<rparr>)
      | _ \<Rightarrow> None)"

definition virtio_device :: "(kvirtio \<Rightarrow> kvirtio \<Rightarrow> bool) \<Rightarrow> bool" where
  "virtio_device D \<longleftrightarrow> (\<forall>s t. D s t \<longrightarrow> device_fetch s = Some t \<or> (\<exists>h \<in> set (kv_dev_work s). device_complete h s = Some t))"

section \<open>The invariant of the queue\<close>

interpretation vring: ring_buffer NUM "TYPE(16)"
  by unfold_locales (simp_all add: NUM_def)

definition chain :: "vdisk \<Rightarrow> nat \<Rightarrow> nat list" where
  "chain d h = (let i = unat (vq_next (vd_desc d ! h)) in [h, i, unat (vq_next (vd_desc d ! i))])"

definition heads :: "vdisk \<Rightarrow> nat set" where
  "heads d = {h. h < NUM \<and> vd_b d ! h \<noteq> None}"

text \<open>The three descriptors of a request for buffer \<open>b\<close>.\<close>

definition formed :: "vdisk \<Rightarrow> nat \<Rightarrow> nat \<Rightarrow> u32 \<Rightarrow> bool" where
  "formed d h b blk \<longleftrightarrow> (\<exists>w i1 i2. i1 < NUM \<and> i2 < NUM \<and> distinct [h, i1, i2] \<and>
     vd_desc d ! h = \<lparr>vq_addr = VOps h, vq_len = 16, vq_flags = VRING_DESC_F_NEXT, vq_next = of_nat i1\<rparr> \<and>
     vd_desc d ! i1 = \<lparr>vq_addr = VData b, vq_len = of_nat BSIZE, vq_flags = (if w then 0 else VRING_DESC_F_WRITE) OR VRING_DESC_F_NEXT, vq_next = of_nat i2\<rparr> \<and>
     vd_desc d ! i2 = \<lparr>vq_addr = VStatus h, vq_len = 1, vq_flags = VRING_DESC_F_WRITE, vq_next = 0\<rparr> \<and>
     vd_ops d ! h = \<lparr>rq_type = (if w then VIRTIO_BLK_T_OUT else VIRTIO_BLK_T_IN), rq_reserved = 0, rq_sector = ucast (blk * 2)\<rparr>)"

definition lengths_ok :: "vdisk \<Rightarrow> bool" where
  "lengths_ok d \<longleftrightarrow> length (vd_desc d) = NUM \<and> length (vd_avail_ring d) = NUM \<and> length (vd_used_ring d) = NUM \<and> length (vd_free d) = NUM \<and>
     length (vd_b d) = NUM \<and> length (vd_status d) = NUM \<and> length (vd_ops d) = NUM"

text \<open>The requests on their way: not yet taken by the device, taken, and performed but not yet seen by the driver.\<close>

definition avail_heads :: "vdisk \<Rightarrow> u16 \<Rightarrow> nat list" where
  "avail_heads d idx = map unat (ring_contents NUM (vd_avail_ring d) idx (vd_avail_idx d))"

definition used_heads :: "vdisk \<Rightarrow> nat list" where
  "used_heads d = map unat (ring_contents NUM (vd_used_ring d) (vd_seen d) (vd_used_idx d))"

definition queue_inv :: "vdisk \<Rightarrow> (nat \<Rightarrow> bool) \<Rightarrow> (nat \<Rightarrow> u32) \<Rightarrow> u16 \<Rightarrow> nat list \<Rightarrow> bool" where
  "queue_inv d owned blk idx work \<longleftrightarrow> lengths_ok d \<and>
     (\<forall>h < NUM. \<forall>b. vd_b d ! h = Some b \<longrightarrow> formed d h b (blk b) \<and> blk b < 2 ^ 31) \<and>
     (\<forall>h \<in> heads d. \<forall>k \<in> heads d. h \<noteq> k \<longrightarrow> set (chain d h) \<inter> set (chain d k) = {} \<and> vd_b d ! h \<noteq> vd_b d ! k) \<and>
     (\<forall>i < NUM. vd_free d ! i \<longleftrightarrow> (\<forall>h \<in> heads d. i \<notin> set (chain d h))) \<and>
     distinct (avail_heads d idx @ work @ used_heads d) \<and>
     set (avail_heads d idx @ work @ used_heads d) = {h \<in> heads d. owned (the (vd_b d ! h))} \<and>
     (\<forall>h \<in> set (used_heads d). vd_status d ! h = 0)"

lemma NUM_bound: "i < NUM \<Longrightarrow> unat (of_nat i :: u16) = i" "i < NUM \<Longrightarrow> unat (of_nat i :: u32) = i"
  by (simp_all add: NUM_def unat_of_nat)

lemma formed_chain:
  assumes "formed d h b blk"
  obtains w i1 i2 where "chain d h = [h, i1, i2]" "distinct [h, i1, i2]" "i1 < NUM" "i2 < NUM"
    "vd_desc d ! h = \<lparr>vq_addr = VOps h, vq_len = 16, vq_flags = VRING_DESC_F_NEXT, vq_next = of_nat i1\<rparr>"
    "vd_desc d ! i1 = \<lparr>vq_addr = VData b, vq_len = of_nat BSIZE, vq_flags = (if w then 0 else VRING_DESC_F_WRITE) OR VRING_DESC_F_NEXT, vq_next = of_nat i2\<rparr>"
    "vd_desc d ! i2 = \<lparr>vq_addr = VStatus h, vq_len = 1, vq_flags = VRING_DESC_F_WRITE, vq_next = 0\<rparr>"
    "vd_ops d ! h = \<lparr>rq_type = (if w then VIRTIO_BLK_T_OUT else VIRTIO_BLK_T_IN), rq_reserved = 0, rq_sector = ucast (blk * 2)\<rparr>"
proof -
  from assms obtain w i1 i2 where f: "i1 < NUM" "i2 < NUM" "distinct [h, i1, i2]"
    "vd_desc d ! h = \<lparr>vq_addr = VOps h, vq_len = 16, vq_flags = VRING_DESC_F_NEXT, vq_next = of_nat i1\<rparr>"
    "vd_desc d ! i1 = \<lparr>vq_addr = VData b, vq_len = of_nat BSIZE, vq_flags = (if w then 0 else VRING_DESC_F_WRITE) OR VRING_DESC_F_NEXT, vq_next = of_nat i2\<rparr>"
    "vd_desc d ! i2 = \<lparr>vq_addr = VStatus h, vq_len = 1, vq_flags = VRING_DESC_F_WRITE, vq_next = 0\<rparr>"
    "vd_ops d ! h = \<lparr>rq_type = (if w then VIRTIO_BLK_T_OUT else VIRTIO_BLK_T_IN), rq_reserved = 0, rq_sector = ucast (blk * 2)\<rparr>"
    unfolding formed_def by blast
  have "chain d h = [h, i1, i2]" using f(1,2,4,5) by (simp add: chain_def NUM_bound)
  then show thesis using that f by blast
qed

text \<open>A request looks only at its own descriptors and its own header.\<close>

lemma formed_cong:
  assumes "formed d h b blk" and "\<And>i. i \<in> set (chain d h) \<Longrightarrow> vd_desc d' ! i = vd_desc d ! i" and "vd_ops d' ! h = vd_ops d ! h"
  shows "formed d' h b blk" and "chain d' h = chain d h"
proof -
  obtain w i1 i2 where c: "chain d h = [h, i1, i2]" "distinct [h, i1, i2]" "i1 < NUM" "i2 < NUM"
    "vd_desc d ! h = \<lparr>vq_addr = VOps h, vq_len = 16, vq_flags = VRING_DESC_F_NEXT, vq_next = of_nat i1\<rparr>"
    "vd_desc d ! i1 = \<lparr>vq_addr = VData b, vq_len = of_nat BSIZE, vq_flags = (if w then 0 else VRING_DESC_F_WRITE) OR VRING_DESC_F_NEXT, vq_next = of_nat i2\<rparr>"
    "vd_desc d ! i2 = \<lparr>vq_addr = VStatus h, vq_len = 1, vq_flags = VRING_DESC_F_WRITE, vq_next = 0\<rparr>"
    "vd_ops d ! h = \<lparr>rq_type = (if w then VIRTIO_BLK_T_OUT else VIRTIO_BLK_T_IN), rq_reserved = 0, rq_sector = ucast (blk * 2)\<rparr>"
    by (rule formed_chain [OF assms(1)])
  have e: "vd_desc d' ! h = vd_desc d ! h" "vd_desc d' ! i1 = vd_desc d ! i1" "vd_desc d' ! i2 = vd_desc d ! i2"
    using assms(2) c(1) by simp_all
  show "formed d' h b blk" unfolding formed_def e assms(3) using c(2-) e assms(3) by (intro exI [of _ w] exI [of _ i1] exI [of _ i2]) simp
  show "chain d' h = chain d h" using c(1,3,4,5,6) e by (simp add: chain_def NUM_bound)
qed


definition in_flight :: "vdisk \<Rightarrow> u16 \<Rightarrow> nat list \<Rightarrow> nat list" where
  "in_flight d idx work = avail_heads d idx @ work @ used_heads d"

lemma queue_invD:
  assumes "queue_inv d owned blk idx work"
  shows "lengths_ok d"
    and "h \<in> heads d \<Longrightarrow> vd_b d ! h = Some b \<Longrightarrow> formed d h b (blk b) \<and> blk b < 2 ^ 31"
    and "h \<in> heads d \<Longrightarrow> k \<in> heads d \<Longrightarrow> h \<noteq> k \<Longrightarrow> set (chain d h) \<inter> set (chain d k) = {}"
    and "h \<in> heads d \<Longrightarrow> k \<in> heads d \<Longrightarrow> h \<noteq> k \<Longrightarrow> vd_b d ! h \<noteq> vd_b d ! k"
    and "i < NUM \<Longrightarrow> vd_free d ! i \<longleftrightarrow> (\<forall>h \<in> heads d. i \<notin> set (chain d h))"
    and "distinct (in_flight d idx work)"
    and "set (in_flight d idx work) = {h \<in> heads d. owned (the (vd_b d ! h))}"
    and "h \<in> set (used_heads d) \<Longrightarrow> vd_status d ! h = 0"
  using assms unfolding queue_inv_def in_flight_def heads_def by blast+

lemma queue_invI:
  assumes "lengths_ok d"
    and "\<And>h b. h \<in> heads d \<Longrightarrow> vd_b d ! h = Some b \<Longrightarrow> formed d h b (blk b) \<and> blk b < 2 ^ 31"
    and "\<And>h k. h \<in> heads d \<Longrightarrow> k \<in> heads d \<Longrightarrow> h \<noteq> k \<Longrightarrow> set (chain d h) \<inter> set (chain d k) = {}"
    and "\<And>h k. h \<in> heads d \<Longrightarrow> k \<in> heads d \<Longrightarrow> h \<noteq> k \<Longrightarrow> vd_b d ! h \<noteq> vd_b d ! k"
    and "\<And>i. i < NUM \<Longrightarrow> vd_free d ! i \<longleftrightarrow> (\<forall>h \<in> heads d. i \<notin> set (chain d h))"
    and "distinct (in_flight d idx work)"
    and "set (in_flight d idx work) = {h \<in> heads d. owned (the (vd_b d ! h))}"
    and "\<And>h. h \<in> set (used_heads d) \<Longrightarrow> vd_status d ! h = 0"
  shows "queue_inv d owned blk idx work"
proof -
  have "formed d h b (blk b) \<and> blk b < 2 ^ 31" if "h < NUM" "vd_b d ! h = Some b" for h b
    using assms(2) [of h b] that by (simp add: heads_def)
  then show ?thesis using assms(1,3-8) unfolding queue_inv_def in_flight_def by blast
qed

lemma head_chain:
  assumes "queue_inv d owned blk idx work" and "h \<in> heads d" and "i \<in> set (chain d h)"
  shows "i < NUM" and "\<not> vd_free d ! i"
proof -
  obtain b where b: "vd_b d ! h = Some b" "h < NUM" using assms(2) by (auto simp: heads_def)
  from queue_invD(2) [OF assms(1,2) b(1)] have "formed d h b (blk b)" by simp
  then show l: "i < NUM" using assms(3) b(2) by (auto elim: formed_chain)
  show "\<not> vd_free d ! i" using queue_invD(5) [OF assms(1) l] assms(2,3) by blast
qed

lemma head_in_chain: "h \<in> set (chain d h)"
  by (simp add: chain_def Let_def)

lemma in_flight_bound:
  assumes "queue_inv d owned blk idx work"
  shows "length (in_flight d idx work) \<le> NUM" and "i < NUM \<Longrightarrow> i \<notin> heads d \<Longrightarrow> length (in_flight d idx work) < NUM"
proof -
  note D = queue_invD [OF assms]
  have sub: "set (in_flight d idx work) \<subseteq> {0..<NUM}" unfolding D(7) by (auto simp: heads_def)
  show "length (in_flight d idx work) \<le> NUM"
    using card_mono [OF finite_atLeastLessThan sub] distinct_card [OF D(6)] by simp
  assume "i < NUM" "i \<notin> heads d"
  then have "i \<in> {0..<NUM}" "i \<notin> set (in_flight d idx work)" unfolding D(7) by simp_all
  then have "set (in_flight d idx work) \<subset> {0..<NUM}" using sub by blast
  from psubset_card_mono [OF finite_atLeastLessThan this] show "length (in_flight d idx work) < NUM"
    unfolding distinct_card [OF D(6)] by simp
qed

text \<open>Descriptors that are free may be overwritten.\<close>

lemma queue_inv_zero:
  assumes inv: "queue_inv d owned blk idx work" and "length D = NUM" and D: "\<And>i. i < NUM \<Longrightarrow> \<not> vd_free d ! i \<Longrightarrow> D ! i = vd_desc d ! i"
  shows "queue_inv (d\<lparr>vd_desc := D\<rparr>) owned blk idx work"
proof -
  let ?d = "d\<lparr>vd_desc := D\<rparr>"
  note I = queue_invD [OF inv]
  have hd: "heads ?d = heads d" by (simp add: heads_def)
  have fl: "in_flight ?d idx work = in_flight d idx work" "used_heads ?d = used_heads d"
    by (simp_all add: in_flight_def avail_heads_def used_heads_def)
  have fc: "formed ?d h b (blk b) \<and> chain ?d h = chain d h" if "h \<in> heads d" "vd_b d ! h = Some b" for h b
    using formed_cong [of d h b "blk b" ?d] I(2) [OF that] head_chain [OF inv that(1)] D by auto
  have ch: "chain ?d h = chain d h" if "h \<in> heads d" for h using fc [OF that] that by (auto simp: heads_def)
  show ?thesis
  proof (rule queue_invI, unfold hd fl)
    show "lengths_ok ?d" using I(1) assms(2) by (simp add: lengths_ok_def)
    show "formed ?d h b (blk b) \<and> blk b < 2 ^ 31" if "h \<in> heads d" "vd_b ?d ! h = Some b" for h b
      using fc [OF that(1)] I(2) [OF that(1)] that(2) by simp
    show "set (chain ?d h) \<inter> set (chain ?d k) = {}" if "h \<in> heads d" "k \<in> heads d" "h \<noteq> k" for h k
      unfolding ch [OF that(1)] ch [OF that(2)] using that by (rule I(3))
    show "vd_b ?d ! h \<noteq> vd_b ?d ! k" if "h \<in> heads d" "k \<in> heads d" "h \<noteq> k" for h k
      using I(4) [OF that] by simp
    show "vd_free ?d ! i \<longleftrightarrow> (\<forall>h \<in> heads d. i \<notin> set (chain ?d h))" if "i < NUM" for i
      using I(5) [OF that] ch by simp
    show "distinct (in_flight d idx work)" by (rule I(6))
    show "set (in_flight d idx work) = {h \<in> heads d. owned (the (vd_b ?d ! h))}" using I(7) by simp
    show "vd_status ?d ! h = 0" if "h \<in> set (used_heads d)" for h using I(8) [OF that] by simp
  qed
qed

lemma avail_heads_put:
  assumes "length (vd_avail_ring d) = NUM" and "length (avail_heads d idx) < NUM" and "i < NUM"
  shows "avail_heads (avail_put i d) idx = avail_heads d idx @ [i]"
proof -
  have "unat (vd_avail_idx d - idx) < NUM" using assms(2) by (simp add: avail_heads_def)
  then show ?thesis
    using vring.contents_put [OF assms(1), of "vd_avail_idx d" idx "of_nat i"] assms(3)
    by (simp add: avail_heads_def avail_put_def ring_slot_def NUM_bound)
qed

lemma used_heads_put:
  assumes "length (vd_used_ring d) = NUM" and "length (used_heads d) < NUM" and "i < NUM"
  shows "used_heads (used_put i d) = used_heads d @ [i]"
proof -
  have "unat (vd_used_idx d - vd_seen d) < NUM" using assms(2) by (simp add: used_heads_def)
  then show ?thesis
    using vring.contents_put [OF assms(1), of "vd_used_idx d" "vd_seen d" "of_nat i"] assms(3)
    by (simp add: used_heads_def used_put_def ring_slot_def NUM_bound)
qed


text \<open>A new request on three free descriptors.\<close>

lemma queue_inv_submit:
  assumes inv: "queue_inv d owned blk idx work" and i: "i0 < NUM" "i1 < NUM" "i2 < NUM" "distinct [i0, i1, i2]"
    and free: "vd_free d ! i0" "vd_free d ! i1" "vd_free d ! i2"
    and b: "\<And>h. h \<in> heads d \<Longrightarrow> vd_b d ! h \<noteq> Some b" "blk b < 2 ^ 31"
    and d': "d' = avail_put i0 (format_req b w (ucast (blk b * 2)) i0 i1 i2 (d\<lparr>vd_free := (vd_free d)[i0 := False, i1 := False, i2 := False]\<rparr>))"
  shows "queue_inv d' (owned(b := True)) blk idx work" and "heads d' = insert i0 (heads d)" and "in_flight d' idx work = avail_heads d idx @ [i0] @ work @ used_heads d"
    and "rq_type (vd_ops d' ! i0) = (if w then VIRTIO_BLK_T_OUT else VIRTIO_BLK_T_IN)"
proof -
  note I = queue_invD [OF inv]
  have len: "length (vd_desc d) = NUM" "length (vd_ops d) = NUM" "length (vd_b d) = NUM" "length (vd_free d) = NUM" "length (vd_status d) = NUM"
    "length (vd_avail_ring d) = NUM" using I(1) by (simp_all add: lengths_ok_def)
  have nf: "j \<notin> {i0, i1, i2}" if "h \<in> heads d" "j \<in> set (chain d h)" for h j
    using head_chain(2) [OF inv that] free by auto
  have n0: "i0 \<notin> heads d" using nf [of i0 i0] head_in_chain by auto
  show hd: "heads d' = insert i0 (heads d)"
    using i(1) len(3) by (auto simp: d' heads_def avail_put_def format_req_def nth_update_if)
  have de: "vd_desc d' ! j = vd_desc d ! j" if "j \<notin> {i0, i1, i2}" for j using that by (simp add: d' avail_put_def format_req_def)
  have op: "vd_ops d' ! j = vd_ops d ! j" if "j \<noteq> i0" for j using that by (simp add: d' avail_put_def format_req_def)
  have old: "formed d' h c (blk c) \<and> chain d' h = chain d h" if "h \<in> heads d" "vd_b d ! h = Some c" for h c
  proof -
    have f: "formed d h c (blk c)" using I(2) [OF that] by simp
    have e: "\<And>j. j \<in> set (chain d h) \<Longrightarrow> vd_desc d' ! j = vd_desc d ! j" using nf [OF that(1)] by (intro de)
    have o: "vd_ops d' ! h = vd_ops d ! h" using nf [OF that(1) head_in_chain] by (intro op) simp
    show ?thesis using formed_cong [OF f e o] by simp
  qed
  have ch: "chain d' h = chain d h" if "h \<in> heads d" for h using old [OF that] that by (auto simp: heads_def)
  have new: "formed d' i0 b (blk b)"
    unfolding formed_def using i len by (intro exI [of _ w] exI [of _ i1] exI [of _ i2]) (auto simp: d' avail_put_def format_req_def)
  have ch0: "chain d' i0 = [i0, i1, i2]" using i len by (simp add: chain_def d' avail_put_def format_req_def NUM_bound)
  have vb: "vd_b d' ! i0 = Some b" "\<And>h. h \<noteq> i0 \<Longrightarrow> vd_b d' ! h = vd_b d ! h"
    using i(1) len(3) by (auto simp: d' avail_put_def format_req_def)
  have "length (avail_heads d idx) < NUM" using in_flight_bound(2) [OF inv i(1) n0] by (simp add: in_flight_def)
  then have av: "avail_heads d' idx = avail_heads d idx @ [i0]"
    using avail_heads_put [of "format_req b w (ucast (blk b * 2)) i0 i1 i2 (d\<lparr>vd_free := (vd_free d)[i0 := False, i1 := False, i2 := False]\<rparr>)" idx i0] len(6) i(1)
    unfolding d' by (simp add: format_req_def avail_heads_def)
  have us: "used_heads d' = used_heads d" by (simp add: d' avail_put_def format_req_def used_heads_def)
  show fl: "in_flight d' idx work = avail_heads d idx @ [i0] @ work @ used_heads d" by (simp add: in_flight_def av us)
  have set_fl: "set (in_flight d' idx work) = insert i0 (set (in_flight d idx work))" unfolding fl by (auto simp: in_flight_def)
  have n0f: "i0 \<notin> set (in_flight d idx work)" unfolding I(7) using n0 by simp
  show "rq_type (vd_ops d' ! i0) = (if w then VIRTIO_BLK_T_OUT else VIRTIO_BLK_T_IN)"
    using i(1) len(2) by (simp add: d' avail_put_def format_req_def)
  show "queue_inv d' (owned(b := True)) blk idx work"
  proof (rule queue_invI)
    show "lengths_ok d'" using I(1) by (simp add: lengths_ok_def d' avail_put_def format_req_def)
    show "formed d' h c (blk c) \<and> blk c < 2 ^ 31" if "h \<in> heads d'" "vd_b d' ! h = Some c" for h c
      using that old [of h c] I(2) [of h c] new vb b(2) n0 unfolding hd by (cases "h = i0") auto
    have dj: "set (chain d' h) \<inter> {i0, i1, i2} = {}" if "h \<in> heads d" for h using nf [OF that] ch [OF that] by auto
    show "set (chain d' h) \<inter> set (chain d' k) = {}" if "h \<in> heads d'" "k \<in> heads d'" "h \<noteq> k" for h k
      using that dj [of h] dj [of k] I(3) [of h k] ch [of h] ch [of k] unfolding hd by (cases "h = i0"; cases "k = i0") (auto simp: ch0)
    show "vd_b d' ! h \<noteq> vd_b d' ! k" if "h \<in> heads d'" "k \<in> heads d'" "h \<noteq> k" for h k
      using that vb(1) vb(2) [of h] vb(2) [of k] b(1) [of h] b(1) [of k] I(4) [of h k] unfolding hd
      by (cases "h = i0"; cases "k = i0") (auto simp: n0)
    show "vd_free d' ! j \<longleftrightarrow> (\<forall>h \<in> heads d'. j \<notin> set (chain d' h))" if "j < NUM" for j
    proof -
      have "vd_free d' ! j \<longleftrightarrow> j \<notin> {i0, i1, i2} \<and> vd_free d ! j"
        using that len(4) by (auto simp: d' avail_put_def format_req_def nth_update_if)
      then show ?thesis using I(5) [OF that] ch unfolding hd by (auto simp: ch0)
    qed
    show "distinct (in_flight d' idx work)" using I(6) n0f unfolding fl by (auto simp: in_flight_def)
    have own: "(owned(b := True)) (the (vd_b d' ! h)) \<longleftrightarrow> owned (the (vd_b d ! h))" if h: "h \<in> heads d" for h
    proof -
      have "h \<noteq> i0" using h n0 by blast
      moreover obtain c where "vd_b d ! h = Some c" using h by (auto simp: heads_def)
      moreover from this have "c \<noteq> b" using b(1) [OF h] by simp
      ultimately show ?thesis using vb(2) [of h] by simp
    qed
    have own0: "(owned(b := True)) (the (vd_b d' ! i0))" using vb(1) by simp
    show "set (in_flight d' idx work) = {h \<in> heads d'. (owned(b := True)) (the (vd_b d' ! h))}"
      unfolding set_fl I(7) hd using own own0 by (auto simp del: fun_upd_apply)
    show "vd_status d' ! h = 0" if "h \<in> set (used_heads d')" for h
    proof -
      have "h \<noteq> i0" using that n0f unfolding us by (auto simp: in_flight_def)
      then show ?thesis using I(8) [of h] that unfolding us by (simp add: d' avail_put_def format_req_def)
    qed
  qed
qed


lemma ring_nonempty: "r \<noteq> w \<Longrightarrow> ring_contents NUM data r w = data ! (unat r mod NUM) # ring_contents NUM data (r + 1) (w :: u16)"
  using vring.contents_get [of r w data] by (simp add: ring_slot_def)

text \<open>The device takes a request.\<close>

lemma queue_inv_fetch:
  assumes inv: "queue_inv d owned blk idx work" and ne: "idx \<noteq> vd_avail_idx d"
  defines "x \<equiv> unat (vd_avail_ring d ! (unat idx mod NUM))"
  shows "queue_inv d owned blk (idx + 1) (work @ [x])" and "set (avail_heads d (idx + 1) @ work @ [x]) = set (avail_heads d idx @ work)"
proof -
  note I = queue_invD [OF inv]
  have av: "avail_heads d idx = x # avail_heads d (idx + 1)"
    unfolding avail_heads_def x_def ring_nonempty [OF ne] by simp
  have st: "set (in_flight d (idx + 1) (work @ [x])) = set (in_flight d idx work)" by (auto simp: in_flight_def av)
  have ds: "distinct (in_flight d (idx + 1) (work @ [x]))" using I(6) by (auto simp: in_flight_def av)
  show "queue_inv d owned blk (idx + 1) (work @ [x])"
    by (rule queue_invI [OF I(1,2,3,4,5) ds _ I(8)]) (auto simp: st I(7))
  show "set (avail_heads d (idx + 1) @ work @ [x]) = set (avail_heads d idx @ work)" by (auto simp: av)
qed

text \<open>The device performs a request.\<close>

lemma queue_inv_complete:
  assumes inv: "queue_inv d owned blk idx work" and h: "h \<in> set work"
    and d': "d' = used_put h (d\<lparr>vd_status := (vd_status d)[h := 0]\<rparr>)"
  shows "queue_inv d' owned blk idx (remove1 h work)" and "used_heads d' = used_heads d @ [h]"
proof -
  note I = queue_invD [OF inv]
  have "h \<in> set (in_flight d idx work)" using h by (simp add: in_flight_def)
  then have hh: "h \<in> heads d" unfolding I(7) by simp
  then have hN: "h < NUM" by (simp add: heads_def)
  have "length (used_heads d) < length (in_flight d idx work)" using h by (cases work) (auto simp: in_flight_def)
  then have lt: "length (used_heads d) < NUM" using in_flight_bound(1) [OF inv] by linarith
  have ul: "length (vd_used_ring d) = NUM" "length (vd_status d) = NUM" using I(1) by (simp_all add: lengths_ok_def)
  show us: "used_heads d' = used_heads d @ [h]"
    using used_heads_put [of "d\<lparr>vd_status := (vd_status d)[h := 0]\<rparr>" h] lt hN ul unfolding d' by (simp add: used_heads_def)
  have e: "heads d' = heads d" "\<And>k. chain d' k = chain d k" "\<And>k b. formed d' k b (blk b) = formed d k b (blk b)"
      "avail_heads d' idx = avail_heads d idx" "vd_b d' = vd_b d" "vd_free d' = vd_free d" "vd_status d' = (vd_status d)[h := 0]"
    by (simp_all add: d' used_put_def heads_def chain_def formed_def avail_heads_def)
  have fl: "in_flight d' idx (remove1 h work) = avail_heads d idx @ remove1 h work @ used_heads d @ [h]"
    by (simp add: in_flight_def e us)
  have dw: "distinct work" using I(6) by (simp add: in_flight_def)
  have st: "set (in_flight d' idx (remove1 h work)) = set (in_flight d idx work)"
    unfolding fl using h dw by (auto simp: in_flight_def)
  have ds: "distinct (in_flight d' idx (remove1 h work))"
    using I(6) h dw unfolding fl by (auto simp: in_flight_def distinct_remove1)
  show "queue_inv d' owned blk idx (remove1 h work)"
  proof (rule queue_invI, unfold e st)
    show "lengths_ok d'" using I(1) by (simp add: lengths_ok_def d' used_put_def)
    show "(vd_status d)[h := 0] ! k = 0" if "k \<in> set (used_heads d')" for k
      using that I(8) [of k] hN ul(2) by (cases "k = h") (auto simp: us)
  qed (use I(2-5,7) ds in \<open>auto\<close>)
qed

text \<open>The driver sees that a request has been performed.\<close>

lemma queue_inv_seen:
  assumes inv: "queue_inv d owned blk idx work" and ne: "vd_seen d \<noteq> vd_used_idx d"
  defines "k \<equiv> unat (vd_used_ring d ! (unat (vd_seen d) mod NUM))"
  obtains b where "k < NUM" "vd_status d ! k = 0" "vd_b d ! k = Some b"
    "queue_inv (d\<lparr>vd_seen := vd_seen d + 1\<rparr>) (owned(b := False)) blk idx work"
proof -
  let ?d = "d\<lparr>vd_seen := vd_seen d + 1\<rparr>"
  note I = queue_invD [OF inv]
  have us: "used_heads d = k # used_heads ?d" unfolding used_heads_def k_def ring_nonempty [OF ne] by simp
  have "k \<in> set (in_flight d idx work)" by (simp add: in_flight_def us)
  then have kh: "k \<in> heads d" unfolding I(7) by simp
  then obtain b where b: "k < NUM" "vd_b d ! k = Some b" by (auto simp: heads_def)
  have e: "heads ?d = heads d" "\<And>k. chain ?d k = chain d k" "\<And>k b. formed ?d k b (blk b) = formed d k b (blk b)"
      "avail_heads ?d idx = avail_heads d idx" by (simp_all add: heads_def chain_def formed_def avail_heads_def)
  have ds: "distinct (in_flight ?d idx work)" and nk: "k \<notin> set (in_flight ?d idx work)"
    and st: "set (in_flight d idx work) = insert k (set (in_flight ?d idx work))"
    using I(6) by (auto simp: in_flight_def us e)
  have own: "(owned(b := False)) (the (vd_b d ! h)) \<longleftrightarrow> owned (the (vd_b d ! h)) \<and> h \<noteq> k" if "h \<in> heads d" for h
    using I(4) [OF that kh] b(2) that by (cases "h = k") (auto simp: heads_def)
  have "set (in_flight ?d idx work) = set (in_flight d idx work) - {k}" using nk st by simp
  also have "\<dots> = {h \<in> heads d. (owned(b := False)) (the (vd_b d ! h))}" unfolding I(7) using own by (auto simp del: fun_upd_apply)
  finally have set_eq: "set (in_flight ?d idx work) = {h \<in> heads d. (owned(b := False)) (the (vd_b d ! h))}" .
  have "queue_inv ?d (owned(b := False)) blk idx work"
  proof (rule queue_invI, unfold e set_eq)
    show "lengths_ok ?d" using I(1) by (simp add: lengths_ok_def)
    show "vd_status ?d ! h = 0" if "h \<in> set (used_heads ?d)" for h using I(8) [of h] that by (simp add: us)
  qed (use I(2-5) ds in \<open>auto\<close>)
  moreover have "vd_status d ! k = 0" using I(8) [of k] us by simp
  ultimately show thesis using b that by blast
qed


text \<open>The descriptors of a request that has been seen are given back.\<close>

definition release_req :: "nat \<Rightarrow> nat list \<Rightarrow> vdisk \<Rightarrow> vdisk" where
  "release_req h idx d = d\<lparr>vd_b := (vd_b d)[h := None],
     vd_desc := fold (\<lambda>i D. D[i := zero_desc]) idx (vd_desc d), vd_free := fold (\<lambda>i F. F[i := True]) idx (vd_free d)\<rparr>"

lemma nth_fold_update: "i < length xs \<Longrightarrow> fold (\<lambda>i xs. xs[i := v]) idx xs ! i = (if i \<in> set idx then v else xs ! i)"
  by (induction idx arbitrary: xs) (auto simp: nth_update_if)

lemma length_fold_update [simp]: "length (fold (\<lambda>i xs. xs[i := v]) idx xs) = length xs"
  by (induction idx arbitrary: xs) auto

lemma queue_inv_release:
  assumes inv: "queue_inv d owned blk idx work" and h: "h \<in> heads d" and ow: "\<not> owned (the (vd_b d ! h))"
  shows "queue_inv (release_req h (chain d h) d) owned blk idx work" and "heads (release_req h (chain d h) d) = heads d - {h}"
proof -
  let ?d = "release_req h (chain d h) d"
  note I = queue_invD [OF inv]
  have len: "length (vd_desc d) = NUM" "length (vd_b d) = NUM" "length (vd_free d) = NUM" using I(1) by (simp_all add: lengths_ok_def)
  show hd: "heads ?d = heads d - {h}" using h len(2) by (auto simp: heads_def release_req_def nth_update_if split: if_splits)
  have vb: "vd_b ?d ! k = vd_b d ! k" if "k \<in> heads d - {h}" for k using that by (auto simp: release_req_def)
  have fc: "formed ?d k b (blk b) \<and> chain ?d k = chain d k" if k: "k \<in> heads d - {h}" "vd_b d ! k = Some b" for k b
  proof -
    have "vd_desc ?d ! i = vd_desc d ! i" if "i \<in> set (chain d k)" for i
    proof -
      have "i \<notin> set (chain d h)" using I(3) [of k h] k h that by blast
      moreover have "i < NUM" using head_chain(1) [OF inv _ that] k by blast
      ultimately show ?thesis using len(1) by (simp add: release_req_def nth_fold_update)
    qed
    then show ?thesis using formed_cong [of d k b "blk b" ?d] I(2) [of k b] k by (simp add: release_req_def)
  qed
  have ch: "chain ?d k = chain d k" if "k \<in> heads d - {h}" for k using fc [OF that] that by (auto simp: heads_def)
  have fl: "in_flight ?d idx work = in_flight d idx work" "used_heads ?d = used_heads d"
    by (simp_all add: in_flight_def avail_heads_def used_heads_def release_req_def)
  show "queue_inv ?d owned blk idx work"
  proof (rule queue_invI, unfold hd fl)
    show "lengths_ok ?d" using I(1) by (simp add: lengths_ok_def release_req_def)
    show "formed ?d k b (blk b) \<and> blk b < 2 ^ 31" if "k \<in> heads d - {h}" "vd_b ?d ! k = Some b" for k b
      using fc [OF that(1)] I(2) [of k b] vb [OF that(1)] that by auto
    show "set (chain ?d k) \<inter> set (chain ?d l) = {}" if "k \<in> heads d - {h}" "l \<in> heads d - {h}" "k \<noteq> l" for k l
      unfolding ch [OF that(1)] ch [OF that(2)] using that by (intro I(3)) auto
    show "vd_b ?d ! k \<noteq> vd_b ?d ! l" if "k \<in> heads d - {h}" "l \<in> heads d - {h}" "k \<noteq> l" for k l
      unfolding vb [OF that(1)] vb [OF that(2)] using that by (intro I(4)) auto
    show "vd_free ?d ! i \<longleftrightarrow> (\<forall>k \<in> heads d - {h}. i \<notin> set (chain ?d k))" if i: "i < NUM" for i
    proof -
      have "vd_free ?d ! i \<longleftrightarrow> i \<in> set (chain d h) \<or> vd_free d ! i" using i len(3) by (simp add: release_req_def nth_fold_update)
      also have "\<dots> \<longleftrightarrow> (\<forall>k \<in> heads d - {h}. i \<notin> set (chain d k))" using I(5) [OF i] I(3) [OF h] h by blast
      finally show ?thesis using ch by simp
    qed
    show "distinct (in_flight d idx work)" by (rule I(6))
    have "owned (the (vd_b d ! k)) \<longleftrightarrow> k \<noteq> h \<and> owned (the (vd_b ?d ! k))" if "k \<in> heads d" for k
      using vb [of k] that ow by (cases "k = h") auto
    then show "set (in_flight d idx work) = {k \<in> heads d - {h}. owned (the (vd_b ?d ! k))}" unfolding I(7) by blast
    show "vd_status ?d ! k = 0" if "k \<in> set (used_heads d)" for k using I(8) [OF that] by (simp add: release_req_def)
  qed
qed


section \<open>The operations\<close>

text \<open>
  What the operations on descriptors change besides the table of descriptors: they wake processes. All
  other parts of the state that the invariant looks at stay as they are.
\<close>

definition same_io :: "'z kvirtio_scheme \<Rightarrow> 'z kvirtio_scheme \<Rightarrow> bool" where
  "same_io s t \<longleftrightarrow> kv_owned t = kv_owned s \<and> kv_dev_idx t = kv_dev_idx s \<and> kv_dev_work t = kv_dev_work s \<and>
     kb_buf t = kb_buf s \<and> kb_disk t = kb_disk s \<and> kp_me t = kp_me s \<and> length (kp_procs t) = length (kp_procs s)"

lemma same_io_refl: "same_io s s"
  by (simp add: same_io_def)

lemma same_io_trans: "same_io s t \<Longrightarrow> same_io t u \<Longrightarrow> same_io s u"
  by (simp add: same_io_def)

lemma free_desc_ok:
  assumes "i < NUM" and "\<not> vd_free (kv_disk s) ! i"
  shows "\<exists>t. free_desc i s = Ret () t \<and> same_io s t \<and>
    kv_disk t = (kv_disk s)\<lparr>vd_desc := (vd_desc (kv_disk s))[i := zero_desc], vd_free := (vd_free (kv_disk s))[i := True]\<rparr>"
  using assms by (simp add: free_desc_def upd_disk_def same_io_def)

lemma free_descs_ok:
  assumes "distinct idx" and "\<And>i. i \<in> set idx \<Longrightarrow> i < NUM \<and> \<not> vd_free (kv_disk s) ! i" and "length (vd_free (kv_disk s)) = NUM"
  shows "\<exists>t. kfor idx free_desc s = Ret () t \<and> same_io s t \<and>
    kv_disk t = (kv_disk s)\<lparr>vd_desc := fold (\<lambda>i D. D[i := zero_desc]) idx (vd_desc (kv_disk s)), vd_free := fold (\<lambda>i F. F[i := True]) idx (vd_free (kv_disk s))\<rparr>"
  using assms
proof (induction idx arbitrary: s)
  case Nil
  then show ?case by (simp add: same_io_refl)
next
  case (Cons i idx)
  obtain t where t: "free_desc i s = Ret () t" "same_io s t"
      "kv_disk t = (kv_disk s)\<lparr>vd_desc := (vd_desc (kv_disk s))[i := zero_desc], vd_free := (vd_free (kv_disk s))[i := True]\<rparr>"
    using free_desc_ok [of i s] Cons.prems(2) [of i] by auto
  have "\<And>j. j \<in> set idx \<Longrightarrow> j < NUM \<and> \<not> vd_free (kv_disk t) ! j"
    using Cons.prems by (auto simp: t(3) nth_update_if)
  then obtain u where u: "kfor idx free_desc t = Ret () u" "same_io t u"
      "kv_disk u = (kv_disk t)\<lparr>vd_desc := fold (\<lambda>i D. D[i := zero_desc]) idx (vd_desc (kv_disk t)), vd_free := fold (\<lambda>i F. F[i := True]) idx (vd_free (kv_disk t))\<rparr>"
    using Cons.IH [of t] Cons.prems(1,3) t(3) by auto
  show ?case using t u same_io_trans [OF t(2) u(2)] by (intro exI [of _ u]) simp
qed

text \<open>The outcome of an allocation: three free descriptors, or none, and then only free ones were touched.\<close>

definition allocates :: "'z kvirtio_scheme \<Rightarrow> nat list \<Rightarrow> nat list option \<Rightarrow> 'z kvirtio_scheme \<Rightarrow> bool" where
  "allocates s pre r t \<longleftrightarrow> same_io s t \<and> (case r of
       Some idx \<Rightarrow> (\<exists>new. idx = pre @ new \<and> distinct idx \<and> (\<forall>i \<in> set new. i < NUM \<and> vd_free (kv_disk s) ! i) \<and>
         kv_disk t = (kv_disk s)\<lparr>vd_free := fold (\<lambda>i F. F[i := False]) new (vd_free (kv_disk s))\<rparr>)
     | None \<Rightarrow> (\<exists>D. length D = length (vd_desc (kv_disk s)) \<and> (\<forall>i < NUM. \<not> vd_free (kv_disk s) ! i \<longrightarrow> i \<notin> set pre \<longrightarrow> D ! i = vd_desc (kv_disk s) ! i) \<and>
         kv_disk t = (kv_disk s)\<lparr>vd_desc := D, vd_free := fold (\<lambda>i F. F[i := True]) pre (vd_free (kv_disk s))\<rparr>))"

lemma allocates_step:
  assumes a: "allocates (s\<lparr>kv_disk := (kv_disk s)\<lparr>vd_free := (vd_free (kv_disk s))[i := False]\<rparr>\<rparr>) (pre @ [i]) r t"
    and i: "i < NUM" "vd_free (kv_disk s) ! i" "i \<notin> set pre" and len: "length (vd_free (kv_disk s)) = NUM"
  shows "allocates s pre r t"
proof (cases r)
  case None
  let ?F = "vd_free (kv_disk s)"
  have F: "(fold (\<lambda>i F. F[i := True]) pre (?F[i := False]))[i := True] = fold (\<lambda>i F. F[i := True]) pre ?F"
    using i len by (intro nth_equalityI) (auto simp: nth_fold_update nth_update_if)
  from a None obtain D where D: "length D = length (vd_desc (kv_disk s))"
      "\<And>j. j < NUM \<Longrightarrow> \<not> ?F[i := False] ! j \<Longrightarrow> j \<notin> set (pre @ [i]) \<Longrightarrow> D ! j = vd_desc (kv_disk s) ! j"
      "kv_disk t = (kv_disk s)\<lparr>vd_desc := D, vd_free := fold (\<lambda>i F. F[i := True]) pre ?F\<rparr>" "same_io s t"
    by (auto simp: allocates_def same_io_def F)
  have "D ! j = vd_desc (kv_disk s) ! j" if "j < NUM" "\<not> ?F ! j" "j \<notin> set pre" for j
    using D(2) [of j] that i len by (cases "j = i") (auto simp: nth_update_if)
  then show ?thesis using D(1,3,4) None by (auto simp: allocates_def)
next
  case (Some idx)
  from a Some obtain new where n: "idx = (pre @ [i]) @ new" "distinct idx" "\<And>j. j \<in> set new \<Longrightarrow> j < NUM \<and> (vd_free (kv_disk s))[i := False] ! j"
    "kv_disk t = (kv_disk s)\<lparr>vd_free := fold (\<lambda>i F. F[i := False]) new ((vd_free (kv_disk s))[i := False])\<rparr>" "same_io s t"
    by (auto simp: allocates_def same_io_def)
  have "j < NUM \<and> vd_free (kv_disk s) ! j" if "j \<in> set (i # new)" for j
    using that n(2) n(3) [of j] i len unfolding n(1) by (auto simp: nth_update_if split: if_splits)
  then show ?thesis using n Some by (auto simp: allocates_def intro!: exI [of _ "i # new"])
qed

lemma alloc3_loop_ok:
  assumes "distinct pre" and "\<And>i. i \<in> set pre \<Longrightarrow> i < NUM \<and> \<not> vd_free (kv_disk s) ! i"
    and "length (vd_free (kv_disk s)) = NUM" and "length (vd_desc (kv_disk s)) = NUM"
  shows "\<exists>r t. alloc3_loop k pre s = Ret r t \<and> allocates s pre r t \<and> (\<forall>idx. r = Some idx \<longrightarrow> length idx = length pre + k)"
  using assms
proof (induction k arbitrary: pre s)
  case 0
  then show ?case by (auto simp: allocates_def same_io_refl)
next
  case (Suc k)
  let ?d = "kv_disk s"
  show ?case
  proof (cases "scan_idx (\<lambda>x. x) (vd_free ?d)")
    case None
    then have a: "alloc_desc s = Ret None s" by (simp add: alloc_desc_def)
    obtain t where t: "kfor pre free_desc s = Ret () t" "same_io s t"
        "kv_disk t = ?d\<lparr>vd_desc := fold (\<lambda>i D. D[i := zero_desc]) pre (vd_desc ?d), vd_free := fold (\<lambda>i F. F[i := True]) pre (vd_free ?d)\<rparr>"
      using free_descs_ok [OF Suc.prems(1-3)] by blast
    have "allocates s pre None t" using t(2,3) Suc.prems(4) by (auto simp: allocates_def nth_fold_update intro!: exI [of _ "fold (\<lambda>i D. D[i := zero_desc]) pre (vd_desc ?d)"])
    moreover have "alloc3_loop (Suc k) pre s = Ret None t" using a t(1) by (simp add: kbind_def)
    ultimately show ?thesis by blast
  next
    case (Some i)
    note sc = scan_idxD [OF Some]
    let ?s = "s\<lparr>kv_disk := ?d\<lparr>vd_free := (vd_free ?d)[i := False]\<rparr>\<rparr>"
    have a: "alloc_desc s = Ret (Some i) ?s" using Some by (simp add: alloc_desc_def upd_disk_def)
    have i: "i < NUM" "vd_free ?d ! i" using sc Suc.prems(3) by auto
    have ip: "i \<notin> set pre" using i(2) Suc.prems(2) by blast
    have "\<exists>r t. alloc3_loop k (pre @ [i]) ?s = Ret r t \<and> allocates ?s (pre @ [i]) r t \<and> (\<forall>idx. r = Some idx \<longrightarrow> length idx = length (pre @ [i]) + k)"
      using Suc.prems ip i by (intro Suc.IH) (auto simp: nth_update_if split: if_splits)
    then obtain r t where rt: "alloc3_loop k (pre @ [i]) ?s = Ret r t" "allocates ?s (pre @ [i]) r t"
        "\<forall>idx. r = Some idx \<longrightarrow> length idx = length (pre @ [i]) + k" by blast
    have "alloc3_loop (Suc k) pre s = Ret r t" using a rt(1) by (simp add: kbind_def)
    moreover have "allocates s pre r t" using allocates_step [OF rt(2) i ip Suc.prems(3)] .
    ultimately show ?thesis using rt(3) by auto
  qed
qed


section \<open>The abstract disk\<close>

text \<open>
  What the buffer cache sees: each buffer has at most one request, for reading or writing its block, which is
  either still to be performed or done.
\<close>

record adisk =
  ad_disk :: "u32 \<Rightarrow> u8 list"
  ad_data :: "nat \<Rightarrow> u8 list"
  ad_block :: "nat \<Rightarrow> u32"
  ad_req :: "nat \<Rightarrow> (bool \<times> bool) option"

definition areq :: "vdisk \<Rightarrow> u16 \<Rightarrow> nat list \<Rightarrow> nat \<Rightarrow> (bool \<times> bool) option" where
  "areq d idx work b = map_option (\<lambda>h. (rq_type (vd_ops d ! h) = VIRTIO_BLK_T_OUT, h \<notin> set (avail_heads d idx @ work)))
     (find (\<lambda>h. vd_b d ! h = Some b) [0..<NUM])"

definition disk_abs :: "'z kvirtio_scheme \<Rightarrow> adisk" where
  "disk_abs s = \<lparr>ad_disk = kb_disk s, ad_data = \<lambda>b. b_data (kb_buf s b), ad_block = \<lambda>b. b_blockno (kb_buf s b),
     ad_req = areq (kv_disk s) (kv_dev_idx s) (kv_dev_work s)\<rparr>"

inductive astep :: "adisk \<Rightarrow> adisk \<Rightarrow> bool" where
  a_submit: "ad_req a b = None \<Longrightarrow> astep a (a\<lparr>ad_req := (ad_req a)(b := Some (w, False))\<rparr>)"
| a_write: "ad_req a b = Some (True, False) \<Longrightarrow>
    astep a (a\<lparr>ad_disk := (ad_disk a)(ad_block a b := ad_data a b), ad_req := (ad_req a)(b := Some (True, True))\<rparr>)"
| a_read: "ad_req a b = Some (False, False) \<Longrightarrow>
    astep a (a\<lparr>ad_data := (ad_data a)(b := ad_disk a (ad_block a b)), ad_req := (ad_req a)(b := Some (False, True))\<rparr>)"
| a_finish: "ad_req a b = Some (w, True) \<Longrightarrow> astep a (a\<lparr>ad_req := (ad_req a)(b := None)\<rparr>)"
| a_client: "(\<And>b. ad_req a b \<noteq> None \<Longrightarrow> data b = ad_data a b \<and> block b = ad_block a b) \<Longrightarrow>
    astep a (a\<lparr>ad_data := data, ad_block := block\<rparr>)"

text \<open>The request of a buffer is that of the one head that has it.\<close>

lemma areq_head:
  assumes "queue_inv d owned blk idx work" and "h \<in> heads d" and "vd_b d ! h = Some b"
  shows "areq d idx work b = Some (rq_type (vd_ops d ! h) = VIRTIO_BLK_T_OUT, h \<notin> set (avail_heads d idx @ work))"
proof -
  have "find (\<lambda>h. vd_b d ! h = Some b) [0..<NUM] \<noteq> None" using assms(2,3) by (auto simp: find_None_iff heads_def)
  then obtain k where k: "find (\<lambda>h. vd_b d ! h = Some b) [0..<NUM] = Some k" by blast
  then have "k < NUM" "vd_b d ! k = Some b" by (auto simp: find_Some_iff)
  then have "k = h" using queue_invD(4) [OF assms(1), of k h] assms(2,3) by (auto simp: heads_def)
  then show ?thesis using k by (simp add: areq_def)
qed

lemma areq_none: "(\<And>h. h \<in> heads d \<Longrightarrow> vd_b d ! h \<noteq> Some b) \<Longrightarrow> areq d idx work b = None"
  by (auto simp: areq_def find_None_iff heads_def)

lemma areq_none_iff: "areq d idx work b = None \<longleftrightarrow> (\<forall>h \<in> heads d. vd_b d ! h \<noteq> Some b)"
  by (auto simp: areq_def find_None_iff heads_def)

lemma areq_same [simp]: "areq (d\<lparr>vd_desc := D\<rparr>) = areq d" "areq (d\<lparr>vd_seen := k\<rparr>) = areq d"
  by (simp_all add: areq_def fun_eq_iff avail_heads_def)

text \<open>The requests of two states with the same heads are the same, up to a change at one buffer.\<close>

lemma areq_update:
  assumes inv: "queue_inv d owned blk idx work" and inv': "queue_inv d' owned' blk' idx' work'"
    and other: "\<And>h c. c \<noteq> b \<Longrightarrow> h \<in> heads d \<and> vd_b d ! h = Some c \<longleftrightarrow> h \<in> heads d' \<and> vd_b d' ! h = Some c"
    and same: "\<And>h c. c \<noteq> b \<Longrightarrow> h \<in> heads d \<Longrightarrow> vd_b d ! h = Some c \<Longrightarrow>
      vd_ops d' ! h = vd_ops d ! h \<and> (h \<in> set (avail_heads d' idx' @ work') \<longleftrightarrow> h \<in> set (avail_heads d idx @ work))"
  shows "areq d' idx' work' = (areq d idx work)(b := areq d' idx' work' b)"
proof
  fix c
  show "areq d' idx' work' c = ((areq d idx work)(b := areq d' idx' work' b)) c"
  proof (cases "c = b \<or> (\<forall>h \<in> heads d. vd_b d ! h \<noteq> Some c)")
    case True
    then show ?thesis using other [of c] areq_none_iff [of d idx work c] areq_none_iff [of d' idx' work' c] by auto
  next
    case False
    then obtain h where h: "h \<in> heads d" "vd_b d ! h = Some c" "c \<noteq> b" by blast
    have "h \<in> heads d'" "vd_b d' ! h = Some c" using other [OF h(3), of h] h by auto
    from areq_head [OF inv' this] areq_head [OF inv h(1,2)] same [OF h(3,1,2)] show ?thesis using h(3) by auto
  qed
qed


section \<open>The driver and the device\<close>

definition vinv :: "'z kvirtio_scheme \<Rightarrow> bool" where
  "vinv s \<longleftrightarrow> queue_inv (kv_disk s) (kv_owned s) (\<lambda>b. b_blockno (kb_buf s b)) (kv_dev_idx s) (kv_dev_work s) \<and>
     kp_me s < length (kp_procs s)"

definition busy :: "nat \<Rightarrow> 'z kvirtio_scheme \<Rightarrow> bool" where
  "busy b s \<longleftrightarrow> (\<exists>h \<in> heads (kv_disk s). vd_b (kv_disk s) ! h = Some b)"

lemma areq_busy: "areq (kv_disk s) (kv_dev_idx s) (kv_dev_work s) b = None \<longleftrightarrow> \<not> busy b s"
  by (simp add: areq_none_iff busy_def)

lemma vinvD:
  assumes "vinv s"
  shows "queue_inv (kv_disk s) (kv_owned s) (\<lambda>b. b_blockno (kb_buf s b)) (kv_dev_idx s) (kv_dev_work s)"
    and "kp_me s < length (kp_procs s)"
  using assms by (simp_all add: vinv_def)

lemma ksleep_same:
  assumes "kp_me s < length (kp_procs s)"
  shows "\<exists>t. ksleep c s = Sleeps t \<and> same_io s t \<and> kv_disk t = kv_disk s"
  using assms by (simp add: ksleep_apply same_io_def upd_proc_def)

text \<open>Submitting a request: it is recorded, or too few descriptors are free and the thread sleeps.\<close>

lemma submit_ok:
  fixes s :: "'z kvirtio_scheme"
  assumes inv: "vinv s" and nb: "\<not> busy b s" and blk: "b_blockno (kb_buf s b) < 2 ^ 31"
  shows "(\<exists>h t. virtio_disk_rw_submit b w s = Ret h t \<and> vinv t \<and> disk_abs t = (disk_abs s)\<lparr>ad_req := (ad_req (disk_abs s))(b := Some (w, False))\<rparr> \<and>
      h \<in> heads (kv_disk t) \<and> vd_b (kv_disk t) ! h = Some b) \<or>
    (\<exists>t. virtio_disk_rw_submit b w s = Sleeps t \<and> vinv t \<and> disk_abs t = disk_abs s)"
proof -
  note Q = vinvD(1) [OF inv] let ?d = "kv_disk s" let ?blk = "\<lambda>b. b_blockno (kb_buf s b)"
  have len: "length (vd_free ?d) = NUM" "length (vd_desc ?d) = NUM" using queue_invD(1) [OF Q] by (simp_all add: lengths_ok_def)
  obtain r t where rt: "alloc3_desc s = Ret r t" "allocates s [] r t" "\<And>idx. r = Some idx \<Longrightarrow> length idx = 3"
    using alloc3_loop_ok [of "[]" s 3] len unfolding alloc3_desc_def by auto
  have io: "same_io s t" using rt(2) by (simp add: allocates_def)
  show ?thesis
  proof (cases r)
    case None
    from rt(2) None obtain D where D: "length D = NUM" "\<And>i. i < NUM \<Longrightarrow> \<not> vd_free ?d ! i \<Longrightarrow> D ! i = vd_desc ?d ! i" "kv_disk t = ?d\<lparr>vd_desc := D\<rparr>"
      by (auto simp: allocates_def len)
    obtain u where u: "(ksleep AddrDiskFree :: ('z kvirtio_scheme, nat) kop) t = Sleeps u" "same_io t u" "kv_disk u = kv_disk t"
      using ksleep_same [of t AddrDiskFree] io vinvD(2) [OF inv] by (auto simp: same_io_def)
    have su: "same_io s u" using same_io_trans [OF io u(2)] .
    have q: "queue_inv (?d\<lparr>vd_desc := D\<rparr>) (kv_owned s) ?blk (kv_dev_idx s) (kv_dev_work s)" using queue_inv_zero [OF Q D(1,2)] .
    have "virtio_disk_rw_submit b w s = Sleeps u" using rt(1) None u(1) by (simp add: virtio_disk_rw_submit_def kbind_def)
    moreover have "vinv u" using q su vinvD(2) [OF inv] by (simp add: vinv_def same_io_def u(3) D(3))
    moreover have "disk_abs u = disk_abs s" using su by (simp add: disk_abs_def same_io_def u(3) D(3) areq_same)
    ultimately show ?thesis by blast
  next
    case (Some idx)
    obtain i0 i1 i2 where idx: "idx = [i0, i1, i2]" using rt(3) [OF Some] by (auto simp: numeral_3_eq_3 length_Suc_conv)
    have a: "distinct [i0, i1, i2]" "i0 < NUM" "i1 < NUM" "i2 < NUM" "vd_free ?d ! i0" "vd_free ?d ! i1" "vd_free ?d ! i2"
        "kv_disk t = ?d\<lparr>vd_free := (vd_free ?d)[i0 := False, i1 := False, i2 := False]\<rparr>"
      using rt(2) by (auto simp: allocates_def Some idx)
    define d' where "d' = avail_put i0 (format_req b w (ucast (b_blockno (kb_buf s b) * 2)) i0 i1 i2 (?d\<lparr>vd_free := (vd_free ?d)[i0 := False, i1 := False, i2 := False]\<rparr>))"
    let ?u = "t\<lparr>kv_disk := d', kv_owned := (kv_owned t)(b := True), kv_mmio := kv_mmio t @ [(R VIRTIO_MMIO_QUEUE_NOTIFY, 0)]\<rparr>"
    have sub: "virtio_disk_rw_submit b w s = Ret i0 ?u"
      using rt(1) io by (simp add: virtio_disk_rw_submit_def kbind_def Some idx upd_disk_def w_mmio_def a(8) same_io_def d'_def)
    have nb': "\<And>h. h \<in> heads ?d \<Longrightarrow> vd_b ?d ! h \<noteq> Some b" using nb by (auto simp: busy_def)
    note q = queue_inv_submit [OF Q a(2,3,4,1,5,6,7) nb' blk d'_def]
    have vinv': "vinv ?u" using q(1) io vinvD(2) [OF inv] by (simp add: vinv_def same_io_def)
    have i0: "i0 \<in> heads d'" using q(2) by simp
    have n0: "i0 \<notin> heads ?d" using head_chain(2) [OF Q _ head_in_chain] a(5) by blast
    have bl: "length (vd_b ?d) = NUM" using queue_invD(1) [OF Q] by (simp add: lengths_ok_def)
    have vb: "vd_b d' ! i0 = Some b" "\<And>h. h \<noteq> i0 \<Longrightarrow> vd_b d' ! h = vd_b ?d ! h" "\<And>h. h \<noteq> i0 \<Longrightarrow> vd_ops d' ! h = vd_ops ?d ! h"
      using a(2) bl by (simp_all add: d'_def avail_put_def format_req_def)
    have us: "used_heads d' = used_heads ?d" by (simp add: d'_def used_heads_def avail_put_def format_req_def)
    have av: "avail_heads d' (kv_dev_idx s) = avail_heads ?d (kv_dev_idx s) @ [i0]"
      using q(3) us by (simp add: in_flight_def)
    have "areq d' (kv_dev_idx s) (kv_dev_work s) b = Some (w, False)"
      using areq_head [OF q(1) i0 vb(1)] q(4) by (auto simp: av VIRTIO_BLK_T_OUT_def VIRTIO_BLK_T_IN_def)
    moreover have "areq d' (kv_dev_idx s) (kv_dev_work s) =
        (areq ?d (kv_dev_idx s) (kv_dev_work s))(b := areq d' (kv_dev_idx s) (kv_dev_work s) b)"
    proof (rule areq_update [OF Q q(1)])
      fix h c assume c: "c \<noteq> b"
      show "h \<in> heads ?d \<and> vd_b ?d ! h = Some c \<longleftrightarrow> h \<in> heads d' \<and> vd_b d' ! h = Some c"
        using q(2) c n0 vb(1) vb(2) [of h] by (cases "h = i0") auto
      assume "h \<in> heads ?d" "vd_b ?d ! h = Some c"
      then have "h \<noteq> i0" using n0 by blast
      then show "vd_ops d' ! h = vd_ops ?d ! h \<and>
          (h \<in> set (avail_heads d' (kv_dev_idx s) @ kv_dev_work s) \<longleftrightarrow> h \<in> set (avail_heads ?d (kv_dev_idx s) @ kv_dev_work s))"
        unfolding av using vb(3) by auto
    qed
    ultimately have "areq d' (kv_dev_idx s) (kv_dev_work s) = (areq ?d (kv_dev_idx s) (kv_dev_work s))(b := Some (w, False))" by simp
    then have "disk_abs ?u = (disk_abs s)\<lparr>ad_req := (ad_req (disk_abs s))(b := Some (w, False))\<rparr>"
      using io by (simp add: disk_abs_def same_io_def)
    then show ?thesis using sub vinv' i0 vb(1) by auto
  qed
qed


lemma flag_next: "VRING_DESC_F_NEXT AND VRING_DESC_F_NEXT \<noteq> 0" "((if w then 0 else VRING_DESC_F_WRITE) OR VRING_DESC_F_NEXT) AND VRING_DESC_F_NEXT \<noteq> 0"
    "VRING_DESC_F_WRITE AND VRING_DESC_F_NEXT = 0"
  by (cases w; simp add: VRING_DESC_F_NEXT_def VRING_DESC_F_WRITE_def)+

lemma free_chain_step:
  assumes "i < NUM" and "free_desc i s = Ret () t"
  shows "free_chain_loop (Suc k) i s = (if vq_flags (vd_desc (kv_disk s) ! i) AND VRING_DESC_F_NEXT \<noteq> 0
    then free_chain_loop k (unat (vq_next (vd_desc (kv_disk s) ! i))) t else Ret () t)"
  using assms by (simp add: Let_def)

lemma free_chain_ok:
  assumes inv: "queue_inv d owned blk idx work" and h: "h \<in> heads d" and d: "kv_disk s = d\<lparr>vd_b := B\<rparr>"
  shows "\<exists>t. free_chain h s = Ret () t \<and> same_io s t \<and>
    kv_disk t = (kv_disk s)\<lparr>vd_desc := fold (\<lambda>i D. D[i := zero_desc]) (chain d h) (vd_desc d), vd_free := fold (\<lambda>i F. F[i := True]) (chain d h) (vd_free d)\<rparr>"
proof -
  obtain b where b: "vd_b d ! h = Some b" "h < NUM" using h by (auto simp: heads_def)
  have "formed d h b (blk b)" using queue_invD(2) [OF inv h b(1)] by simp
  then obtain w i1 i2 where c: "chain d h = [h, i1, i2]" "distinct [h, i1, i2]" "i1 < NUM" "i2 < NUM"
    "vd_desc d ! h = \<lparr>vq_addr = VOps h, vq_len = 16, vq_flags = VRING_DESC_F_NEXT, vq_next = of_nat i1\<rparr>"
    "vd_desc d ! i1 = \<lparr>vq_addr = VData b, vq_len = of_nat BSIZE, vq_flags = (if w then 0 else VRING_DESC_F_WRITE) OR VRING_DESC_F_NEXT, vq_next = of_nat i2\<rparr>"
    "vd_desc d ! i2 = \<lparr>vq_addr = VStatus h, vq_len = 1, vq_flags = VRING_DESC_F_WRITE, vq_next = 0\<rparr>"
    by (rule formed_chain)
  have len: "length (vd_free d) = NUM" "length (vd_desc d) = NUM" using queue_invD(1) [OF inv] by (simp_all add: lengths_ok_def)
  have nf: "\<not> vd_free d ! h" "\<not> vd_free d ! i1" "\<not> vd_free d ! i2" using head_chain(2) [OF inv h] c(1) by simp_all
  obtain t1 where t1: "free_desc h s = Ret () t1" "same_io s t1"
      "kv_disk t1 = (kv_disk s)\<lparr>vd_desc := (vd_desc d)[h := zero_desc], vd_free := (vd_free d)[h := True]\<rparr>"
    using free_desc_ok [of h s] b(2) nf(1) by (auto simp: d)
  obtain t2 where t2: "free_desc i1 t1 = Ret () t2" "same_io t1 t2"
      "kv_disk t2 = (kv_disk s)\<lparr>vd_desc := (vd_desc d)[h := zero_desc, i1 := zero_desc], vd_free := (vd_free d)[h := True, i1 := True]\<rparr>"
    using free_desc_ok [of i1 t1] c(2,3) nf(2) by (auto simp: t1(3))
  obtain t3 where t3: "free_desc i2 t2 = Ret () t3" "same_io t2 t3"
      "kv_disk t3 = (kv_disk s)\<lparr>vd_desc := (vd_desc d)[h := zero_desc, i1 := zero_desc, i2 := zero_desc], vd_free := (vd_free d)[h := True, i1 := True, i2 := True]\<rparr>"
    using free_desc_ok [of i2 t2] c(2,4) nf(3) by (auto simp: t2(3))
  have s3: "free_chain_loop (Suc k) i2 t2 = Ret () t3" for k
    unfolding free_chain_step [OF c(4) t3(1)] using c(2,7) by (simp add: t2(3) d flag_next(3))
  have s2: "free_chain_loop (Suc (Suc k)) i1 t1 = Ret () t3" for k
    unfolding free_chain_step [OF c(3) t2(1)] using c(2,4,6) flag_next(2) s3 by (simp add: t1(3) d NUM_bound del: free_chain_loop.simps)
  have s1: "free_chain_loop (Suc (Suc (Suc k))) h s = Ret () t3" for k
    unfolding free_chain_step [OF b(2) t1(1)] using c(3,5) flag_next(1) s2 by (simp add: d NUM_bound del: free_chain_loop.simps)
  have "free_chain h s = Ret () t3" using s1 [of 6] by (simp add: free_chain_def NUM_def del: free_chain_loop.simps)
  moreover have "same_io s t3" using same_io_trans [OF t1(2) same_io_trans [OF t2(2) t3(2)]] .
  ultimately show ?thesis using t3(3) by (auto simp: c(1))
qed


text \<open>The end of a request.\<close>

lemma wait_ok:
  assumes inv: "vinv s" and h: "h \<in> heads (kv_disk s)" "vd_b (kv_disk s) ! h = Some b"
  shows "kv_owned s b \<Longrightarrow> \<exists>t. virtio_disk_rw_wait b h s = Sleeps t \<and> vinv t \<and> disk_abs t = disk_abs s"
    and "\<not> kv_owned s b \<Longrightarrow> \<exists>t w. virtio_disk_rw_wait b h s = Ret () t \<and> vinv t \<and> ad_req (disk_abs s) b = Some (w, True) \<and>
      disk_abs t = (disk_abs s)\<lparr>ad_req := (ad_req (disk_abs s))(b := None)\<rparr>"
proof -
  note Q = vinvD(1) [OF inv]
  show "\<exists>t. virtio_disk_rw_wait b h s = Sleeps t \<and> vinv t \<and> disk_abs t = disk_abs s" if "kv_owned s b"
    using ksleep_same [OF vinvD(2) [OF inv], of "AddrBuf b"] that inv
    by (auto simp: virtio_disk_rw_wait_def vinv_def disk_abs_def same_io_def)
  assume ow: "\<not> kv_owned s b"
  let ?d = "kv_disk s" let ?s = "s\<lparr>kv_disk := ?d\<lparr>vd_b := (vd_b ?d)[h := None]\<rparr>\<rparr>"
  obtain t where t: "free_chain h ?s = Ret () t" "same_io ?s t"
      "kv_disk t = (kv_disk ?s)\<lparr>vd_desc := fold (\<lambda>i D. D[i := zero_desc]) (chain ?d h) (vd_desc ?d), vd_free := fold (\<lambda>i F. F[i := True]) (chain ?d h) (vd_free ?d)\<rparr>"
    using free_chain_ok [OF Q h(1), of ?s "(vd_b ?d)[h := None]"] by auto
  have td: "kv_disk t = release_req h (chain ?d h) ?d" by (simp add: t(3) release_req_def)
  have w: "virtio_disk_rw_wait b h s = Ret () t" using ow t(1) by (simp add: virtio_disk_rw_wait_def upd_disk_def)
  have ow': "\<not> kv_owned s (the (vd_b ?d ! h))" using ow h(2) by simp
  note q = queue_inv_release [OF Q h(1) ow']
  have v: "vinv t" using q(1) t(2) vinvD(2) [OF inv] by (simp add: vinv_def same_io_def td)
  have "h \<notin> set (in_flight ?d (kv_dev_idx s) (kv_dev_work s))" unfolding queue_invD(7) [OF Q] using ow' by simp
  then have r: "ad_req (disk_abs s) b = Some (rq_type (vd_ops ?d ! h) = VIRTIO_BLK_T_OUT, True)"
    using areq_head [OF Q h] by (simp add: disk_abs_def in_flight_def)
  have none: "areq (release_req h (chain ?d h) ?d) idx work b = None" for idx work
  proof (rule areq_none, unfold q(2))
    fix k assume "k \<in> heads ?d - {h}"
    then show "vd_b (release_req h (chain ?d h) ?d) ! k \<noteq> Some b" using queue_invD(4) [OF Q, of k h] h by (auto simp: release_req_def)
  qed
  have "areq (release_req h (chain ?d h) ?d) (kv_dev_idx s) (kv_dev_work s) = (areq ?d (kv_dev_idx s) (kv_dev_work s))(b := areq (release_req h (chain ?d h) ?d) (kv_dev_idx s) (kv_dev_work s) b)"
  proof (rule areq_update [OF Q q(1)])
    fix k c assume c: "c \<noteq> b"
    show "k \<in> heads ?d \<and> vd_b ?d ! k = Some c \<longleftrightarrow> k \<in> heads (release_req h (chain ?d h) ?d) \<and> vd_b (release_req h (chain ?d h) ?d) ! k = Some c"
      unfolding q(2) using c h by (cases "k = h") (auto simp: release_req_def)
    show "vd_ops (release_req h (chain ?d h) ?d) ! k = vd_ops ?d ! k \<and>
        (k \<in> set (avail_heads (release_req h (chain ?d h) ?d) (kv_dev_idx s) @ kv_dev_work s) \<longleftrightarrow> k \<in> set (avail_heads ?d (kv_dev_idx s) @ kv_dev_work s))"
      by (simp add: release_req_def avail_heads_def)
  qed
  then have "disk_abs t = (disk_abs s)\<lparr>ad_req := (ad_req (disk_abs s))(b := None)\<rparr>"
    using t(2) by (simp add: disk_abs_def same_io_def td none)
  then show "\<exists>t w. virtio_disk_rw_wait b h s = Ret () t \<and> vinv t \<and> ad_req (disk_abs s) b = Some (w, True) \<and>
      disk_abs t = (disk_abs s)\<lparr>ad_req := (ad_req (disk_abs s))(b := None)\<rparr>" using w v r by blast
qed

text \<open>The interrupt handler.\<close>

lemma intr_loop_ok:
  assumes "vinv s" and "n = unat (vd_used_idx (kv_disk s) - vd_seen (kv_disk s))"
  shows "\<exists>t. intr_loop n s = Ret () t \<and> vinv t \<and> disk_abs t = disk_abs s \<and> vd_seen (kv_disk t) = vd_used_idx (kv_disk t) \<and>
    vd_b (kv_disk t) = vd_b (kv_disk s)"
  using assms
proof (induction n arbitrary: s)
  case 0
  then have "vd_used_idx (kv_disk s) - vd_seen (kv_disk s) = 0" by (simp add: unat_eq_0)
  then show ?case using 0(1) by simp
next
  case (Suc n)
  let ?d = "kv_disk s"
  have ne: "vd_seen ?d \<noteq> vd_used_idx ?d" using Suc.prems(2) by auto
  obtain b where b: "unat (vd_used_ring ?d ! (unat (vd_seen ?d) mod NUM)) < NUM"
      "vd_status ?d ! unat (vd_used_ring ?d ! (unat (vd_seen ?d) mod NUM)) = 0"
      "vd_b ?d ! unat (vd_used_ring ?d ! (unat (vd_seen ?d) mod NUM)) = Some b"
      "queue_inv (?d\<lparr>vd_seen := vd_seen ?d + 1\<rparr>) ((kv_owned s)(b := False)) (\<lambda>b. b_blockno (kb_buf s b)) (kv_dev_idx s) (kv_dev_work s)"
    by (rule queue_inv_seen [OF vinvD(1) [OF Suc.prems(1)] ne])
  let ?t = "s\<lparr>kv_owned := (kv_owned s)(b := False), kp_procs := wakeup (Some (AddrBuf b)) (kp_procs s), kv_disk := ?d\<lparr>vd_seen := vd_seen ?d + 1\<rparr>\<rparr>"
  have step: "intr_loop (Suc n) s = intr_loop n ?t" using ne b(1-3) by (simp add: Let_def upd_disk_def)
  have v: "vinv ?t" using b(4) vinvD(2) [OF Suc.prems(1)] by (simp add: vinv_def)
  have eq: "vd_used_idx ?d - (vd_seen ?d + 1) = (vd_used_idx ?d - vd_seen ?d) - 1" by simp
  have nz: "vd_used_idx ?d - vd_seen ?d \<noteq> 0" using ne by auto
  have "n = unat (vd_used_idx (kv_disk ?t) - vd_seen (kv_disk ?t))" using Suc.prems(2) unat_minus_one [OF nz] by (simp add: eq)
  then obtain u where "intr_loop n ?t = Ret () u" "vinv u" "disk_abs u = disk_abs ?t" "vd_seen (kv_disk u) = vd_used_idx (kv_disk u)"
    "vd_b (kv_disk u) = vd_b (kv_disk ?t)" using Suc.IH [OF v] by blast
  then show ?case unfolding step by (auto simp: disk_abs_def)
qed

lemma intr_ok:
  assumes "vinv s"
  shows "\<exists>t. virtio_disk_intr dev s = Ret () t \<and> vinv t \<and> disk_abs t = disk_abs s \<and> vd_seen (kv_disk t) = vd_used_idx (kv_disk t) \<and>
    vd_b (kv_disk t) = vd_b (kv_disk s)"
proof -
  let ?s = "s\<lparr>kv_mmio := kv_mmio s @ [(R VIRTIO_MMIO_INTERRUPT_ACK, dev (kv_mmio s) (R VIRTIO_MMIO_INTERRUPT_STATUS) AND 3)]\<rparr>"
  have v: "vinv ?s" and a: "disk_abs ?s = disk_abs s" using assms by (simp_all add: vinv_def disk_abs_def)
  have "virtio_disk_intr dev s = intr_loop (unat (vd_used_idx (kv_disk s) - vd_seen (kv_disk s))) ?s"
    by (simp add: virtio_disk_intr_def r_mmio_def w_mmio_def)
  then show ?thesis using intr_loop_ok [OF v refl] a by simp
qed


text \<open>The device takes the requests in the order of the ring, and performs exactly what was submitted.\<close>

lemma fetch_ok:
  assumes "vinv s" and "device_fetch s = Some t"
  shows "vinv t \<and> disk_abs t = disk_abs s"
proof -
  let ?d = "kv_disk s" and ?x = "unat (vd_avail_ring (kv_disk s) ! (unat (kv_dev_idx s) mod NUM))"
  have ne: "kv_dev_idx s \<noteq> vd_avail_idx ?d" and t: "t = s\<lparr>kv_dev_idx := kv_dev_idx s + 1, kv_dev_work := kv_dev_work s @ [?x]\<rparr>"
    using assms(2) by (auto simp: device_fetch_def Let_def split: if_splits)
  note q = queue_inv_fetch [OF vinvD(1) [OF assms(1)] ne]
  have "areq ?d (kv_dev_idx s + 1) (kv_dev_work s @ [?x]) = areq ?d (kv_dev_idx s) (kv_dev_work s)"
    using q(2) by (simp add: areq_def fun_eq_iff)
  then show ?thesis using q(1) vinvD(2) [OF assms(1)] by (simp add: t vinv_def disk_abs_def)
qed

lemma sector_block:
  assumes "(x::u32) < 2 ^ 31"
  shows "ucast ((ucast (x * 2) :: u64) div 2) = x"
proof -
  have "unat x < 2 ^ 31" using assms by (simp add: word_less_nat_alt)
  then have "unat (x * 2) = unat x * 2" by (simp add: unat_word_ariths)
  then have "unat (ucast (x * 2) :: u64) = unat x * 2"
    using \<open>unat x < 2 ^ 31\<close> by (simp add: unsigned_ucast_eq take_bit_eq_mod)
  then have h: "unat ((ucast (x * 2) :: u64) div 2) = unat x" by (simp add: unat_div)
  have "unat (ucast ((ucast (x * 2) :: u64) div 2) :: u32) = unat x"
    using unat_lt_u32 [of x] by (simp add: unsigned_ucast_eq take_bit_eq_mod h)
  then show ?thesis by (simp only: word_unat_eq_iff)
qed

lemma complete_ok:
  assumes inv: "vinv s" and h: "h \<in> set (kv_dev_work s)" and c: "device_complete h s = Some t"
  shows "vinv t \<and> astep (disk_abs s) (disk_abs t)"
proof -
  note Q = vinvD(1) [OF inv] let ?d = "kv_disk s"
  have hh: "h \<in> heads ?d" using queue_invD(7) [OF Q] h by (auto simp: in_flight_def)
  then obtain b where b: "vd_b ?d ! h = Some b" by (auto simp: heads_def)
  have f: "formed ?d h b (b_blockno (kb_buf s b))" and blk: "b_blockno (kb_buf s b) < 2 ^ 31" using queue_invD(2) [OF Q hh b] by simp_all
  obtain w i1 i2 where ch: "i1 < NUM" "i2 < NUM"
    "vd_desc ?d ! h = \<lparr>vq_addr = VOps h, vq_len = 16, vq_flags = VRING_DESC_F_NEXT, vq_next = of_nat i1\<rparr>"
    "vd_desc ?d ! i1 = \<lparr>vq_addr = VData b, vq_len = of_nat BSIZE, vq_flags = (if w then 0 else VRING_DESC_F_WRITE) OR VRING_DESC_F_NEXT, vq_next = of_nat i2\<rparr>"
    "vd_desc ?d ! i2 = \<lparr>vq_addr = VStatus h, vq_len = 1, vq_flags = VRING_DESC_F_WRITE, vq_next = 0\<rparr>"
    "vd_ops ?d ! h = \<lparr>rq_type = (if w then VIRTIO_BLK_T_OUT else VIRTIO_BLK_T_IN), rq_reserved = 0, rq_sector = ucast (b_blockno (kb_buf s b) * 2)\<rparr>"
    by (rule formed_chain [OF f])
  have ty: "rq_type (vd_ops ?d ! h) = VIRTIO_BLK_T_OUT \<longleftrightarrow> w" by (simp add: ch(6) VIRTIO_BLK_T_OUT_def VIRTIO_BLK_T_IN_def)
  define d' where "d' = used_put h (?d\<lparr>vd_status := (vd_status ?d)[h := 0]\<rparr>)"
  have t: "t = (transfer w (b_blockno (kb_buf s b)) b s)\<lparr>kv_disk := d', kv_dev_work := remove1 h (kv_dev_work s)\<rparr>"
    using c ch ty sector_block [OF blk] by (simp add: device_complete_def Let_def NUM_bound d'_def)
  note q = queue_inv_complete [OF Q h d'_def]
  have tb: "(\<lambda>c. b_blockno (kb_buf t c)) = (\<lambda>c. b_blockno (kb_buf s c))" "kv_owned t = kv_owned s" "kv_dev_idx t = kv_dev_idx s"
      "kp_me t = kp_me s" "kp_procs t = kp_procs s" by (auto simp: t transfer_def)
  have v: "vinv t" using q(1) vinvD(2) [OF inv] unfolding vinv_def tb by (simp add: t)
  have e: "heads d' = heads ?d" "vd_b d' = vd_b ?d" "vd_ops d' = vd_ops ?d" "avail_heads d' = avail_heads ?d"
    by (simp_all add: d'_def used_put_def heads_def avail_heads_def fun_eq_iff)
  have dw: "distinct (kv_dev_work s)" and na: "h \<notin> set (avail_heads ?d (kv_dev_idx s))"
    using queue_invD(6) [OF Q] h by (auto simp: in_flight_def)
  have r: "areq ?d (kv_dev_idx s) (kv_dev_work s) b = Some (w, False)" using areq_head [OF Q hh b] h ty by simp
  have r': "areq d' (kv_dev_idx s) (remove1 h (kv_dev_work s)) b = Some (w, True)"
    using areq_head [OF q(1), of h b] hh b ty dw na by (simp add: e)
  have "areq d' (kv_dev_idx s) (remove1 h (kv_dev_work s)) =
      (areq ?d (kv_dev_idx s) (kv_dev_work s))(b := areq d' (kv_dev_idx s) (remove1 h (kv_dev_work s)) b)"
    by (rule areq_update [OF Q q(1)]) (use b dw in \<open>auto simp: e\<close>)
  then have ar: "areq d' (kv_dev_idx s) (remove1 h (kv_dev_work s)) = (areq ?d (kv_dev_idx s) (kv_dev_work s))(b := Some (w, True))"
    unfolding r' .
  have "astep (disk_abs s) (disk_abs t)"
  proof (cases w)
    case True
    have "disk_abs t = (disk_abs s)\<lparr>ad_disk := (ad_disk (disk_abs s))(ad_block (disk_abs s) b := ad_data (disk_abs s) b),
        ad_req := (ad_req (disk_abs s))(b := Some (True, True))\<rparr>" using True ar by (simp add: disk_abs_def t transfer_def)
    then show ?thesis using a_write [of "disk_abs s" b] r True by (simp add: disk_abs_def)
  next
    case False
    have "disk_abs t = (disk_abs s)\<lparr>ad_data := (ad_data (disk_abs s))(b := ad_disk (disk_abs s) (ad_block (disk_abs s) b)),
        ad_req := (ad_req (disk_abs s))(b := Some (False, True))\<rparr>" using False ar by (auto simp: disk_abs_def t transfer_def fun_eq_iff)
    then show ?thesis using a_read [of "disk_abs s" b] r False by (simp add: disk_abs_def)
  qed
  then show ?thesis using v by simp
qed


text \<open>Once the driver has looked at all of the ring, no buffer whose request was performed is still with the device.\<close>

lemma drained:
  assumes inv: "vinv t" and seen: "vd_seen (kv_disk t) = vd_used_idx (kv_disk t)"
    and h: "h \<in> heads (kv_disk t)" "vd_b (kv_disk t) ! h = Some b" and r: "ad_req (disk_abs t) b = Some (w, True)"
  shows "\<not> kv_owned t b"
proof
  note Q = vinvD(1) [OF inv]
  assume "kv_owned t b"
  then have "h \<in> set (in_flight (kv_disk t) (kv_dev_idx t) (kv_dev_work t))" unfolding queue_invD(7) [OF Q] using h by simp
  moreover have "used_heads (kv_disk t) = []" by (simp add: used_heads_def seen ring_contents_def)
  ultimately show False using r areq_head [OF Q h] by (simp add: in_flight_def disk_abs_def)
qed

text \<open>
  At boot \<open>struct disk\<close> is a zeroed global variable and the device has been reset; \<open>virtio_disk_init\<close> then sets up
  the queue.
\<close>

definition virtio_boot :: "'z kvirtio_scheme \<Rightarrow> bool" where
  "virtio_boot s \<longleftrightarrow> vd_seen (kv_disk s) = 0 \<and> vd_b (kv_disk s) = replicate NUM None \<and> vd_status (kv_disk s) = replicate NUM 0 \<and>
     vd_ops (kv_disk s) = replicate NUM zero_req \<and> kv_dev_idx s = 0 \<and> kv_dev_work s = [] \<and> kp_me s < length (kp_procs s)"

lemma boot_inv:
  assumes "virtio_boot s"
  shows "queue_inv ((zero_queue (kv_disk s))\<lparr>vd_free := replicate NUM True\<rparr>) owned blk 0 []"
proof -
  let ?d = "(zero_queue (kv_disk s))\<lparr>vd_free := replicate NUM True\<rparr>"
  have z: "heads ?d = {}" "avail_heads ?d 0 = []" "used_heads ?d = []" "lengths_ok ?d" "vd_b ?d = replicate NUM None"
    using assms by (auto simp: virtio_boot_def heads_def avail_heads_def used_heads_def zero_queue_def lengths_ok_def ring_contents_def)
  have "vd_free ?d = replicate NUM True" by simp
  then show ?thesis unfolding queue_inv_def using z by auto
qed

lemma init_ok:
  assumes boot: "virtio_boot s" and init: "virtio_disk_init dev s = Ret () t"
  shows "vinv t" and "heads (kv_disk t) = {}" and "kb_buf t = kb_buf s"
proof -
  have u: "\<exists>m. virtio_reset dev s = Ret st v \<longrightarrow> v = s\<lparr>kv_mmio := m\<rparr>" for st v
    by (auto simp: virtio_reset_def r_mmio_def w_mmio_def split: if_splits)
  from init obtain st v where v: "virtio_reset dev s = Ret st v" "virtio_queue dev st v = Ret () t"
    by (auto simp: virtio_disk_init_def split: if_splits elim: kbind_RetD)
  with u obtain m where vm: "v = s\<lparr>kv_mmio := m\<rparr>" by blast
  have ka: "\<exists>a m fl. kalloc x = Ret a (x\<lparr>km_mem := m, km_freelist := fl\<rparr>)" for x :: "'a kvirtio_scheme"
  proof -
    obtain a t where "kalloc x = Ret a t" by (simp add: kalloc_def Let_def) metis
    then show ?thesis by (metis mem_onlyD mem_only_prims(1))
  qed
  define v0 where "v0 = s\<lparr>kv_mmio := m @ [(R VIRTIO_MMIO_QUEUE_SEL, 0)]\<rparr>"
  obtain a1 m1 f1 where k1: "kalloc v0 = Ret a1 (v0\<lparr>km_mem := m1, km_freelist := f1\<rparr>)" using ka by blast
  obtain a2 m2 f2 where k2: "kalloc (v0\<lparr>km_mem := m1, km_freelist := f1\<rparr>) = Ret a2 (v0\<lparr>km_mem := m2, km_freelist := f2\<rparr>)"
    using ka [of "v0\<lparr>km_mem := m1, km_freelist := f1\<rparr>"] by auto
  obtain a3 m3 f3 where k3: "kalloc (v0\<lparr>km_mem := m2, km_freelist := f2\<rparr>) = Ret a3 (v0\<lparr>km_mem := m3, km_freelist := f3\<rparr>)"
    using ka [of "v0\<lparr>km_mem := m2, km_freelist := f2\<rparr>"] by auto
  have "kv_disk t = (zero_queue (kv_disk s))\<lparr>vd_free := replicate NUM True\<rparr> \<and> kv_dev_idx t = kv_dev_idx s \<and> kv_dev_work t = kv_dev_work s \<and>
      kp_me t = kp_me s \<and> kp_procs t = kp_procs s \<and> kb_buf t = kb_buf s"
    using v(2) k1 k2 k3 unfolding vm virtio_queue_def v0_def
    by (auto simp: r_mmio_def w_mmio_def w_mmio_addr_def upd_disk_def kbind_def split: if_splits)
  then show "vinv t" "heads (kv_disk t) = {}" "kb_buf t = kb_buf s" using boot_inv [OF boot] boot
    by (simp_all add: vinv_def virtio_boot_def heads_def zero_queue_def)
qed


text \<open>
  The steps of the driver, the device and the rest of the kernel, in any order. A thread calls \<open>virtio_disk_rw\<close> on a
  buffer it has locked, so that no request for the buffer is on its way; it runs until it sleeps or waits for the device, and again when it is
  woken. Other code changes only buffers that are not with the disk, which is the lock of the buffer again.
\<close>

definition virtio_start :: "regs \<Rightarrow> kvirtio \<Rightarrow> bool" where
  "virtio_start dev t \<longleftrightarrow> (\<exists>s. virtio_boot s \<and> virtio_disk_init dev s = Ret () t)"

inductive vstep :: "(kvirtio \<Rightarrow> kvirtio \<Rightarrow> bool) \<Rightarrow> regs \<Rightarrow> kvirtio \<Rightarrow> kvirtio \<Rightarrow> bool" for D dev where
  v_submit: "\<not> busy b s \<Longrightarrow> b_blockno (kb_buf s b) < 2 ^ 31 \<Longrightarrow> virtio_disk_rw_submit b w s = Ret h t \<Longrightarrow> vstep D dev s t"
| v_full: "\<not> busy b s \<Longrightarrow> b_blockno (kb_buf s b) < 2 ^ 31 \<Longrightarrow> virtio_disk_rw_submit b w s = Sleeps t \<Longrightarrow> vstep D dev s t"
| v_device: "D s t \<Longrightarrow> vstep D dev s t"
| v_intr: "virtio_disk_intr dev s = Ret () t \<Longrightarrow> vstep D dev s t"
| v_wait: "h \<in> heads (kv_disk s) \<Longrightarrow> vd_b (kv_disk s) ! h = Some b \<Longrightarrow> virtio_disk_rw_wait b h s = Sleeps t \<Longrightarrow> vstep D dev s t"
| v_finish: "h \<in> heads (kv_disk s) \<Longrightarrow> vd_b (kv_disk s) ! h = Some b \<Longrightarrow> virtio_disk_rw_wait b h s = Ret () t \<Longrightarrow> vstep D dev s t"
| v_client: "kv_disk t = kv_disk s \<Longrightarrow> kv_owned t = kv_owned s \<Longrightarrow> kv_dev_idx t = kv_dev_idx s \<Longrightarrow> kv_dev_work t = kv_dev_work s \<Longrightarrow>
    kb_disk t = kb_disk s \<Longrightarrow>
    (\<And>b. busy b s \<Longrightarrow> b_data (kb_buf t b) = b_data (kb_buf s b) \<and> b_blockno (kb_buf t b) = b_blockno (kb_buf s b)) \<Longrightarrow>
    kp_me t < length (kp_procs t) \<Longrightarrow> vstep D dev s t"

lemma queue_inv_blocks:
  assumes "queue_inv d owned blk idx work" and "\<And>h b. h \<in> heads d \<Longrightarrow> vd_b d ! h = Some b \<Longrightarrow> blk' b = blk b"
  shows "queue_inv d owned blk' idx work"
proof -
  have "blk' b = blk b" if "h < NUM" "vd_b d ! h = Some b" for h b using assms(2) that by (simp add: heads_def)
  then show ?thesis using assms(1) unfolding queue_inv_def by auto
qed

lemma client_ok:
  assumes inv: "vinv s" and same: "kv_disk t = kv_disk s" "kv_owned t = kv_owned s" "kv_dev_idx t = kv_dev_idx s" "kv_dev_work t = kv_dev_work s"
      "kb_disk t = kb_disk s" and me: "kp_me t < length (kp_procs t)"
    and buf: "\<And>b. busy b s \<Longrightarrow> b_data (kb_buf t b) = b_data (kb_buf s b) \<and> b_blockno (kb_buf t b) = b_blockno (kb_buf s b)"
  shows "vinv t \<and> astep (disk_abs s) (disk_abs t)"
proof -
  have "vinv t" unfolding vinv_def same
    using queue_inv_blocks [OF vinvD(1) [OF inv], of "\<lambda>b. b_blockno (kb_buf t b)"] buf me by (auto simp: busy_def)
  moreover have "disk_abs t = (disk_abs s)\<lparr>ad_data := \<lambda>b. b_data (kb_buf t b), ad_block := \<lambda>b. b_blockno (kb_buf t b)\<rparr>"
    by (simp add: disk_abs_def same)
  moreover have "astep (disk_abs s) ((disk_abs s)\<lparr>ad_data := \<lambda>b. b_data (kb_buf t b), ad_block := \<lambda>b. b_blockno (kb_buf t b)\<rparr>)"
    by (rule a_client) (use buf areq_busy [of s] in \<open>auto simp: disk_abs_def\<close>)
  ultimately show ?thesis by simp
qed

lemma vstep_ok:
  assumes dev: "virtio_device D" and inv: "vinv s" and st: "vstep D dev s t"
  shows "vinv t \<and> (disk_abs t = disk_abs s \<or> astep (disk_abs s) (disk_abs t))"
  using st
proof cases
  case (v_submit b w h)
  then have a: "vinv t" "disk_abs t = (disk_abs s)\<lparr>ad_req := (ad_req (disk_abs s))(b := Some (w, False))\<rparr>"
    using submit_ok [OF inv v_submit(1,2), of w] by auto
  have "ad_req (disk_abs s) b = None" using v_submit(1) areq_busy [of s b] by (simp add: disk_abs_def)
  then show ?thesis using a_submit [of "disk_abs s" b w] a by simp
next
  case (v_full b w)
  then show ?thesis using submit_ok [OF inv v_full(1,2), of w] by auto
next
  case v_device
  then show ?thesis using dev fetch_ok [OF inv] complete_ok [OF inv] unfolding virtio_device_def by blast
next
  case v_intr
  then show ?thesis using intr_ok [OF inv, of dev] by auto
next
  case (v_wait h b)
  then show ?thesis using wait_ok [OF inv v_wait(1,2)] by (cases "kv_owned s b") auto
next
  case (v_finish h b)
  then obtain w where a: "vinv t" "ad_req (disk_abs s) b = Some (w, True)" "disk_abs t = (disk_abs s)\<lparr>ad_req := (ad_req (disk_abs s))(b := None)\<rparr>"
    using wait_ok [OF inv v_finish(1,2)] by (cases "kv_owned s b") auto
  then show ?thesis using a_finish [OF a(2)] by simp
next
  case v_client
  then show ?thesis using client_ok [OF inv v_client(1-5,7,6)] by blast
qed

lemma vinv_reach:
  assumes "virtio_device D" and "reach (virtio_start dev) (vstep D dev) s"
  shows "vinv s"
  using assms(2)
proof induction
  case (reach_init s)
  then show ?case using init_ok(1) by (auto simp: virtio_start_def)
next
  case (reach_step s t)
  then show ?case using vstep_ok [OF assms(1)] by blast
qed

text \<open>A device that takes requests and performs the oldest one it has taken, and a state at boot with three free pages.\<close>

definition fifo_device :: "kvirtio \<Rightarrow> kvirtio \<Rightarrow> bool" where
  "fifo_device s t \<longleftrightarrow> device_fetch s = Some t \<or> (kv_dev_work s \<noteq> [] \<and> device_complete (hd (kv_dev_work s)) s = Some t)"

lemma fifo_device_ok: "virtio_device fifo_device"
  by (auto simp: virtio_device_def fifo_device_def)

definition demo_regs :: regs where
  "demo_regs w r = (if r = R VIRTIO_MMIO_MAGIC_VALUE then 0x74726976 else if r = R VIRTIO_MMIO_VENDOR_ID then 0x554d4551
     else if r = R VIRTIO_MMIO_QUEUE_NUM_MAX then 1024 else if r = R VIRTIO_MMIO_QUEUE_READY then 0
     else if r = R VIRTIO_MMIO_STATUS then 11 else 2)"

definition demo_virtio :: kvirtio where
  "demo_virtio = \<lparr>km_mem = store64 0x80022000 0x80023000 (store64 0x80021000 0x80022000 (\<lambda>_. 0)), km_freelist = 0x80021000, km_end = 0x80020000,
     kp_procs = [demo_user_proc], kp_nextpid = 4, kp_initproc = Some 0, kp_me = 0,
     kc_out = [], kc_rx = [], kc_lsr = [], kc_txlock = initsleeplock, kc_cons = demo_cons,
     kp_pipes = \<lambda>_. \<lparr>pi_data = demo_ring, pi_nread = -2, pi_nwrite = 0, pi_readopen = True, pi_writeopen = True\<rparr>,
     kb_buf = \<lambda>_. zero_buf, kb_disk = \<lambda>n. replicate BSIZE 0, kb_writes = [],
     kl_log = \<lparr>lg_start = 2, lg_outstanding = 0, lg_committing = False, lg_dev = ROOTDEV, lg_ncommit = 0,
       lh_n = 0, lh_block = replicate LOGBLOCKS 0\<rparr>,
     kf_sb = \<lparr>sb_magic = FSMAGIC, sb_size = 100, sb_nblocks = 59, sb_ninodes = 16, sb_nlog = 31, sb_logstart = 2,
       sb_inodestart = 33, sb_bmapstart = 40\<rparr>, kf_itable = [], kf_ftable = [], kf_pad = [], kf_trampoline = 0, kf_forkret = 0, kf_ticks = 0,
     kv_disk = \<lparr>vd_desc = [], vd_avail_idx = 0, vd_avail_ring = [], vd_used_idx = 0, vd_used_ring = [], vd_free = replicate NUM False,
       vd_seen = 0, vd_b = replicate NUM None, vd_status = replicate NUM 0, vd_ops = replicate NUM zero_req\<rparr>,
     kv_owned = \<lambda>_. False, kv_mmio = [], kv_pages = (0, 0, 0), kv_dev_idx = 0, kv_dev_work = []\<rparr>"

lemma demo_boot: "virtio_boot demo_virtio"
  by (simp add: virtio_boot_def demo_virtio_def)

lemma demo_init: "\<exists>t. virtio_disk_init demo_regs demo_virtio = Ret () t \<and> kb_buf t = (\<lambda>_. zero_buf)"
proof -
  let ?m = "store64 0x80022000 0x80023000 (store64 0x80021000 0x80022000 (\<lambda>_. 0)) :: pmem"
  have a: "aligned 8 (0x80021000::u64)" "aligned 8 (0x80022000::u64)" "aligned 4096 (0x80021000::u64)" "aligned 4096 (0x80022000::u64)"
    by (simp_all add: aligned_def)
  have l1: "load64 ?m 0x80021000 = 0x80022000" using load64_store64_other [OF a(2,1)] by simp
  have l2: "load64 (memset 0x80021000 5 4096 ?m) 0x80022000 = 0x80023000"
    using load64_outside [OF same_outside_memset [of "0x80021000" ?m 5] a(3,4)] by simp
  have r: "demo_regs w (R VIRTIO_MMIO_QUEUE_READY) = 0" "demo_regs w (R VIRTIO_MMIO_QUEUE_NUM_MAX) = 1024" "demo_regs w (R VIRTIO_MMIO_STATUS) = 11"
      "demo_regs w (R VIRTIO_MMIO_MAGIC_VALUE) = 0x74726976" "demo_regs w (R VIRTIO_MMIO_VERSION) = 2" "demo_regs w (R VIRTIO_MMIO_DEVICE_ID) = 2"
      "demo_regs w (R VIRTIO_MMIO_VENDOR_ID) = 0x554d4551" for w
    by (simp_all add: demo_regs_def R_def)
  obtain st m where u: "virtio_reset demo_regs demo_virtio = Ret st (demo_virtio\<lparr>kv_mmio := m\<rparr>)"
    by (simp add: virtio_reset_def r_mmio_def w_mmio_def r VIRTIO_CONFIG_S_FEATURES_OK_def)
  have "virtio_disk_init demo_regs demo_virtio = virtio_queue demo_regs st (demo_virtio\<lparr>kv_mmio := m\<rparr>)"
    by (simp add: virtio_disk_init_def r u)
  also have "\<exists>t. \<dots> = Ret () t"
    using l2 by (simp add: virtio_queue_def r_mmio_def w_mmio_def w_mmio_addr_def upd_disk_def r kalloc_def demo_virtio_def l1 NUM_def)
  finally show ?thesis using init_ok(3) [OF demo_boot] by (auto simp: demo_virtio_def)
qed

definition demo_up :: kvirtio where
  "demo_up = (case virtio_disk_init demo_regs demo_virtio of Ret _ t \<Rightarrow> t | _ \<Rightarrow> demo_virtio)"

lemma demo_up:
  shows demo_up_reach: "reach (virtio_start demo_regs) (vstep fifo_device demo_regs) demo_up"
    and demo_up_free: "\<not> busy 0 demo_up" "b_blockno (kb_buf demo_up 0) < 2 ^ 31"
proof -
  obtain t where t: "virtio_disk_init demo_regs demo_virtio = Ret () t" "kb_buf t = (\<lambda>_. zero_buf)" using demo_init by blast
  then have e: "demo_up = t" by (simp add: demo_up_def)
  show "reach (virtio_start demo_regs) (vstep fifo_device demo_regs) demo_up"
    using t(1) demo_boot by (intro reach_init) (auto simp: virtio_start_def e)
  show "\<not> busy 0 demo_up" using init_ok(2) [OF demo_boot t(1)] by (simp add: busy_def e)
  show "b_blockno (kb_buf demo_up 0) < 2 ^ 31" by (simp add: e t(2) zero_buf_def)
qed





end
