(* ===== verification/Asm.thy ===== *)
theory Asm
  imports Riscv ProcTable
begin

text \<open>
  The assembly code of the kernel: \<open>kernel/trampoline.S\<close>, \<open>kernel/kernelvec.S\<close>, \<open>kernel/swtch.S\<close> and \<open>kernel/entry.S\<close>, as lists of
  the instructions of the source, with a semantics for the few kinds of instructions they use. The memory management unit is a parameter:
  the physical address of a virtual address under a value of \<open>satp\<close>. Loads and stores are those of the
  byte memory, at aligned addresses. The lemmas show that what one piece of code saves, another one restores: a process does
  not notice a trap, kernel code does not notice an interrupt, and a kernel thread does not notice that it was switched away.
\<close>

unbundle bit_operations_syntax

section \<open>The machine\<close>

datatype areg = Zero | RA | SP | GP | TP | T0 | T1 | T2 | S0 | S1 | A0 | A1 | A2 | A3 | A4 | A5 | A6 | A7
  | S2 | S3 | S4 | S5 | S6 | S7 | S8 | S9 | S10 | S11 | T3 | T4 | T5 | T6

datatype csr = Sscratch | Satp | Sepc | Sstatus | Scause | Stval | Stvec | Sie | Stimecmp | Time
  | Mhartid | Mstatus | Mepc | Medeleg | Mideleg | Pmpaddr0 | Pmpcfg0 | Menvcfg | Mcounteren

datatype priv = User | Supervisor | Machine

record mach =
  mc_reg :: "areg \<Rightarrow> u64"
  mc_csr :: "csr \<Rightarrow> u64"
  mc_mem :: pmem
  mc_pc :: u64
  mc_priv :: priv

type_synonym mmu = "u64 \<Rightarrow> u64 \<Rightarrow> u64"

text \<open>
  A jump has its target, and a call also the address of the next instruction, where the callee returns to.
\<close>

datatype instr = SD areg int areg | LD areg int areg | ADDI areg areg int | LI areg u64 | ADD areg areg areg | MUL areg areg areg
  | CSRW csr areg | CSRR areg csr | SFENCE_VMA | FENCE_I | JALR areg u64 | CALL u64 u64 | RET | SRET

definition rg :: "mach \<Rightarrow> areg \<Rightarrow> u64" where
  "rg s r = (if r = Zero then 0 else mc_reg s r)"

definition set_rg :: "areg \<Rightarrow> u64 \<Rightarrow> mach \<Rightarrow> mach" where
  "set_rg r v s = s\<lparr>mc_reg := (mc_reg s)(r := v)\<rparr>"

definition set_csr :: "csr \<Rightarrow> u64 \<Rightarrow> mach \<Rightarrow> mach" where
  "set_csr c v s = s\<lparr>mc_csr := (mc_csr s)(c := v)\<rparr>"

definition vaddr_of :: "mmu \<Rightarrow> mach \<Rightarrow> areg \<Rightarrow> int \<Rightarrow> u64" where
  "vaddr_of mmu s b off = mmu (mc_csr s Satp) (rg s b + word_of_int off)"

text \<open>\<open>sret\<close> goes to \<open>sepc\<close> in the mode of bit 8 of \<open>sstatus\<close>, and takes the interrupt enable bit 1 from bit 5.\<close>

definition sret :: "mach \<Rightarrow> mach" where
  "sret s = (let x = mc_csr s Sstatus in
     (set_csr Sstatus (set_bit 5 (if bit x 5 then set_bit 1 (unset_bit 8 x) else unset_bit 1 (unset_bit 8 x))) s)
       \<lparr>mc_pc := mc_csr s Sepc, mc_priv := (if bit x 8 then Supervisor else User)\<rparr>)"

fun step_instr :: "mmu \<Rightarrow> instr \<Rightarrow> mach \<Rightarrow> mach" where
  "step_instr mmu (SD r off b) s = s\<lparr>mc_mem := store64 (vaddr_of mmu s b off) (rg s r) (mc_mem s)\<rparr>"
| "step_instr mmu (LD r off b) s = set_rg r (load64 (mc_mem s) (vaddr_of mmu s b off)) s"
| "step_instr mmu (ADDI r a i) s = set_rg r (rg s a + word_of_int i) s"
| "step_instr mmu (LI r v) s = set_rg r v s"
| "step_instr mmu (ADD r a b) s = set_rg r (rg s a + rg s b) s"
| "step_instr mmu (MUL r a b) s = set_rg r (rg s a * rg s b) s"
| "step_instr mmu (CSRW c r) s = set_csr c (rg s r) s"
| "step_instr mmu (CSRR r c) s = set_rg r (mc_csr s c) s"
| "step_instr mmu SFENCE_VMA s = s"
| "step_instr mmu FENCE_I s = s"
| "step_instr mmu (JALR r link) s = (set_rg RA link s)\<lparr>mc_pc := rg s r\<rparr>"
| "step_instr mmu (CALL f link) s = (set_rg RA link s)\<lparr>mc_pc := f\<rparr>"
| "step_instr mmu RET s = s\<lparr>mc_pc := rg s RA\<rparr>"
| "step_instr mmu SRET s = sret s"

primrec run_code :: "mmu \<Rightarrow> instr list \<Rightarrow> mach \<Rightarrow> mach" where
  "run_code mmu [] s = s"
| "run_code mmu (i # cs) s = run_code mmu cs (step_instr mmu i s)"

section \<open>The code\<close>

definition uservec :: "u64 \<Rightarrow> instr list" where
  "uservec userret_addr =
     [CSRW Sscratch A0, LI A0 TRAPFRAME, SD RA 40 A0, SD SP 48 A0, SD GP 56 A0,
      SD TP 64 A0, SD T0 72 A0, SD T1 80 A0, SD T2 88 A0, SD S0 96 A0,
      SD S1 104 A0, SD A1 120 A0, SD A2 128 A0, SD A3 136 A0, SD A4 144 A0,
      SD A5 152 A0, SD A6 160 A0, SD A7 168 A0, SD S2 176 A0, SD S3 184 A0,
      SD S4 192 A0, SD S5 200 A0, SD S6 208 A0, SD S7 216 A0, SD S8 224 A0,
      SD S9 232 A0, SD S10 240 A0, SD S11 248 A0, SD T3 256 A0, SD T4 264 A0,
      SD T5 272 A0, SD T6 280 A0, CSRR T0 Sscratch, SD T0 112 A0, LD SP 8 A0,
      LD TP 32 A0, LD T0 16 A0, LD T1 0 A0, SFENCE_VMA, CSRW Satp T1,
      SFENCE_VMA, JALR T0 userret_addr]"

definition userret :: "instr list" where
  "userret =
     [FENCE_I, SFENCE_VMA, CSRW Satp A0, SFENCE_VMA, LI A0 TRAPFRAME,
      LD RA 40 A0, LD SP 48 A0, LD GP 56 A0, LD TP 64 A0, LD T0 72 A0,
      LD T1 80 A0, LD T2 88 A0, LD S0 96 A0, LD S1 104 A0, LD A1 120 A0,
      LD A2 128 A0, LD A3 136 A0, LD A4 144 A0, LD A5 152 A0, LD A6 160 A0,
      LD A7 168 A0, LD S2 176 A0, LD S3 184 A0, LD S4 192 A0, LD S5 200 A0,
      LD S6 208 A0, LD S7 216 A0, LD S8 224 A0, LD S9 232 A0, LD S10 240 A0,
      LD S11 248 A0, LD T3 256 A0, LD T4 264 A0, LD T5 272 A0, LD T6 280 A0,
      LD A0 112 A0, SRET]"

text \<open>\<open>kernelvec\<close> up to the call of \<open>kerneltrap\<close>, and from its return.\<close>

definition kernelvec_save :: "u64 \<Rightarrow> u64 \<Rightarrow> instr list" where
  "kernelvec_save kerneltrap_addr link =
     [ADDI SP SP (- 256), SD RA 0 SP, SD GP 16 SP, SD T0 32 SP, SD T1 40 SP,
      SD T2 48 SP, SD A0 72 SP, SD A1 80 SP, SD A2 88 SP, SD A3 96 SP,
      SD A4 104 SP, SD A5 112 SP, SD A6 120 SP, SD A7 128 SP, SD T3 216 SP,
      SD T4 224 SP, SD T5 232 SP, SD T6 240 SP, CALL kerneltrap_addr link]"

definition kernelvec_restore :: "instr list" where
  "kernelvec_restore =
     [LD RA 0 SP, LD GP 16 SP, LD T0 32 SP, LD T1 40 SP, LD T2 48 SP,
      LD A0 72 SP, LD A1 80 SP, LD A2 88 SP, LD A3 96 SP, LD A4 104 SP,
      LD A5 112 SP, LD A6 120 SP, LD A7 128 SP, LD T3 216 SP, LD T4 224 SP,
      LD T5 232 SP, LD T6 240 SP, ADDI SP SP 256, SRET]"

definition swtch :: "instr list" where
  "swtch =
     [SD RA 0 A0, SD SP 8 A0, SD S0 16 A0, SD S1 24 A0, SD S2 32 A0,
      SD S3 40 A0, SD S4 48 A0, SD S5 56 A0, SD S6 64 A0, SD S7 72 A0,
      SD S8 80 A0, SD S9 88 A0, SD S10 96 A0, SD S11 104 A0, LD RA 0 A1,
      LD SP 8 A1, LD S0 16 A1, LD S1 24 A1, LD S2 32 A1, LD S3 40 A1,
      LD S4 48 A1, LD S5 56 A1, LD S6 64 A1, LD S7 72 A1, LD S8 80 A1,
      LD S9 88 A1, LD S10 96 A1, LD S11 104 A1, RET]"

definition entry_code :: "u64 \<Rightarrow> u64 \<Rightarrow> u64 \<Rightarrow> instr list" where
  "entry_code stack0 start_addr spin =
     [LI SP stack0, LI A0 (1024 * 4), CSRR A1 Mhartid, ADDI A1 A1 1, MUL A0 A0 A1, ADD SP SP A0, CALL start_addr spin]"

section \<open>Saving and restoring registers\<close>

definition saves :: "areg \<Rightarrow> (areg \<times> int) list \<Rightarrow> instr list" where
  "saves b xs = map (\<lambda>(r, off). SD r off b) xs"

definition restores :: "areg \<Rightarrow> (areg \<times> int) list \<Rightarrow> instr list" where
  "restores b xs = map (\<lambda>(r, off). LD r off b) xs"

text \<open>\<open>struct trapframe\<close>: where the user registers are.\<close>

definition trapframe_slots :: "(areg \<times> int) list" where
  "trapframe_slots = zip [RA, SP, GP, TP, T0, T1, T2, S0, S1, A0, A1, A2, A3, A4, A5, A6, A7, S2, S3, S4, S5, S6, S7, S8, S9, S10, S11, T3, T4, T5, T6]
     (map (\<lambda>i. 40 + 8 * int i) [0..<31])"

definition context_slots :: "(areg \<times> int) list" where
  "context_slots = zip [RA, SP, S0, S1, S2, S3, S4, S5, S6, S7, S8, S9, S10, S11] (map (\<lambda>i. 8 * int i) [0..<14])"

definition user_slots :: "(areg \<times> int) list" where
  "user_slots = filter (\<lambda>(r, _). r \<noteq> A0) trapframe_slots"

definition kernelvec_slots :: "(areg \<times> int) list" where
  "kernelvec_slots = [(RA, 0), (GP, 16), (T0, 32), (T1, 40), (T2, 48), (A0, 72), (A1, 80), (A2, 88), (A3, 96), (A4, 104), (A5, 112),
     (A6, 120), (A7, 128), (T3, 216), (T4, 224), (T5, 232), (T6, 240)]"

lemma rg_simps [simp]:
  "rg (s\<lparr>mc_mem := m\<rparr>) = rg s" "rg (s\<lparr>mc_csr := c\<rparr>) = rg s" "rg (s\<lparr>mc_pc := p\<rparr>) = rg s" "rg (s\<lparr>mc_priv := q\<rparr>) = rg s"
  "rg (set_csr k v s) = rg s"
  by (simp_all add: rg_def fun_eq_iff set_csr_def)

lemma rg_Zero [simp]: "rg s Zero = 0"
  by (simp add: rg_def)

lemma rg_set_rg [simp]: "rg (set_rg r v s) r' = (if r' = r \<and> r \<noteq> Zero then v else rg s r')"
  by (simp add: rg_def set_rg_def)

lemma set_rg_simps [simp]:
  "mc_mem (set_rg r v s) = mc_mem s" "mc_csr (set_rg r v s) = mc_csr s" "mc_pc (set_rg r v s) = mc_pc s"
  "mc_mem (set_csr c v s) = mc_mem s" "mc_pc (set_csr c v s) = mc_pc s" "mc_csr (set_csr c v s) = (mc_csr s)(c := v)"
  by (simp_all add: set_rg_def set_csr_def)

lemma vaddr_of_simps [simp]:
  "vaddr_of mmu (s\<lparr>mc_mem := m\<rparr>) = vaddr_of mmu s"
  "b \<noteq> r \<Longrightarrow> vaddr_of mmu (set_rg r v s) b = vaddr_of mmu s b"
  by (simp_all add: vaddr_of_def fun_eq_iff)

lemma saves_ok:
  assumes "distinct (map snd xs)" and "\<And>o'. o' \<in> snd ` set xs \<Longrightarrow> aligned 8 (vaddr_of mmu s b o')"
    and "inj_on (vaddr_of mmu s b) (snd ` set xs)"
  shows "\<exists>m. run_code mmu (saves b xs @ cs) s = run_code mmu cs (s\<lparr>mc_mem := m\<rparr>) \<and>
    (\<forall>r o'. (r, o') \<in> set xs \<longrightarrow> load64 m (vaddr_of mmu s b o') = rg s r) \<and>
    (\<forall>a. aligned 8 a \<longrightarrow> a \<notin> vaddr_of mmu s b ` snd ` set xs \<longrightarrow> load64 m a = load64 (mc_mem s) a)"
  using assms
proof (induction xs arbitrary: s)
  case Nil
  then show ?case by (intro exI [of _ "mc_mem s"]) (simp add: saves_def)
next
  case (Cons x xs)
  obtain r k where x: "x = (r, k)" by force
  let ?v = "vaddr_of mmu s b"
  define t where "t = s\<lparr>mc_mem := store64 (?v k) (rg s r) (mc_mem s)\<rparr>"
  have vt: "vaddr_of mmu t b = ?v" "rg t = rg s" by (simp_all add: t_def)
  obtain m where m: "run_code mmu (saves b xs @ cs) t = run_code mmu cs (t\<lparr>mc_mem := m\<rparr>)"
      "\<And>r o'. (r, o') \<in> set xs \<Longrightarrow> load64 m (?v o') = rg s r"
      "\<And>a. aligned 8 a \<Longrightarrow> a \<notin> ?v ` snd ` set xs \<Longrightarrow> load64 m a = load64 (mc_mem t) a"
    using Cons.IH [of t] Cons.prems unfolding vt by (auto simp: inj_on_def)
  have ak: "aligned 8 (?v k)" using Cons.prems(2) [of k] by (simp add: x)
  have nk: "?v k \<notin> ?v ` snd ` set xs"
  proof
    assume "?v k \<in> ?v ` snd ` set xs"
    then obtain j where j: "j \<in> snd ` set xs" "?v k = ?v j" by blast
    then have "k = j" using Cons.prems(3) by (auto simp: x inj_on_def)
    then show False using Cons.prems(1) j(1) by (auto simp: x)
  qed
  have "load64 m (?v k) = rg s r" using m(3) [OF ak nk] by (simp add: t_def)
  moreover have "load64 m a = load64 (mc_mem s) a" if "aligned 8 a" "a \<notin> ?v ` snd ` set (x # xs)" for a
    using m(3) [of a] that load64_store64_other [OF ak that(1)] by (auto simp: t_def x)
  ultimately show ?case using m(1,2)
    by (intro exI [of _ m]) (auto simp: saves_def x t_def)
qed

lemma restores_ok:
  assumes "distinct (map fst xs)" and "b \<notin> fst ` set xs"
  shows "run_code mmu (restores b xs @ cs) s =
    run_code mmu cs (s\<lparr>mc_reg := \<lambda>r. case map_of xs r of None \<Rightarrow> mc_reg s r | Some k \<Rightarrow> load64 (mc_mem s) (vaddr_of mmu s b k)\<rparr>)"
  using assms
proof (induction xs arbitrary: s)
  case Nil
  then show ?case by (simp add: restores_def)
next
  case (Cons x xs)
  obtain r k where x: "x = (r, k)" by force
  let ?t = "set_rg r (load64 (mc_mem s) (vaddr_of mmu s b k)) s"
  have v: "vaddr_of mmu ?t b = vaddr_of mmu s b" using Cons.prems(2) by (simp add: x)
  have "map_of xs r = None" using Cons.prems(1) by (simp add: x map_of_eq_None_iff)
  then have e: "(\<lambda>q. case map_of xs q of None \<Rightarrow> mc_reg ?t q | Some k \<Rightarrow> load64 (mc_mem ?t) (vaddr_of mmu ?t b k)) =
      (\<lambda>q. case map_of (x # xs) q of None \<Rightarrow> mc_reg s q | Some k \<Rightarrow> load64 (mc_mem s) (vaddr_of mmu s b k))"
    unfolding v by (auto simp: fun_eq_iff x set_rg_def split: option.splits)
  have "run_code mmu (restores b (x # xs) @ cs) s = run_code mmu (restores b xs @ cs) ?t" by (simp add: restores_def x)
  also have "\<dots> = run_code mmu cs (?t\<lparr>mc_reg := \<lambda>q. case map_of xs q of None \<Rightarrow> mc_reg ?t q | Some k \<Rightarrow> load64 (mc_mem ?t) (vaddr_of mmu ?t b k)\<rparr>)"
    using Cons.IH [of ?t] Cons.prems by simp
  finally show ?case unfolding e by (simp add: set_rg_def)
qed

text \<open>A frame of \<open>n\<close> bytes at the address in register \<open>b\<close> is contiguous in physical memory, from \<open>pa\<close>.\<close>

definition frame_at :: "mmu \<Rightarrow> mach \<Rightarrow> areg \<Rightarrow> u64 \<Rightarrow> int \<Rightarrow> bool" where
  "frame_at mmu s b pa n \<longleftrightarrow> aligned 8 pa \<and> (\<forall>k. 0 \<le> k \<and> k < n \<longrightarrow> vaddr_of mmu s b k = pa + word_of_int k)"

lemma aligned_slot:
  assumes "aligned 8 pa" and "8 dvd k"
  shows "aligned 8 (pa + word_of_int k)"
proof -
  have conv: "8 dvd uint x \<longleftrightarrow> unat x mod 8 = 0" for x :: u64
    using int_dvd_int_iff [of 8 "unat x"] by (simp add: dvd_eq_mod_eq_0)
  have "8 dvd (uint pa + k) mod 2 ^ 64" using assms by (simp add: aligned_def dvd_mod flip: conv)
  then have "8 dvd uint (pa + word_of_int k)" by (simp add: uint_word_ariths uint_word_of_int mod_simps)
  then show ?thesis by (simp add: aligned_def conv)
qed

lemma frame_slot_inj:
  assumes "(pa::u64) + word_of_int k = pa + word_of_int j" and "0 \<le> k" "k < 4096" "0 \<le> j" "j < 4096"
  shows "k = j"
proof -
  have "(word_of_int k :: u64) = word_of_int j" using assms(1) by simp
  then have "uint (word_of_int k :: u64) = uint (word_of_int j :: u64)" by simp
  then show ?thesis using assms(2-) by (simp add: uint_word_of_int)
qed

locale register_frame =
  fixes slots :: "(areg \<times> int) list" and size_of :: int
  assumes regs: "distinct (map fst slots)" and offs: "distinct (map snd slots)" and no_zero: "Zero \<notin> fst ` set slots"
    and range: "\<And>r k. (r, k) \<in> set slots \<Longrightarrow> 8 dvd k \<and> 0 \<le> k \<and> k < size_of" and small: "size_of \<le> 4096"
begin

lemma slot_addr: "frame_at mmu s b pa size_of \<Longrightarrow> (r, k) \<in> set slots \<Longrightarrow> vaddr_of mmu s b k = pa + word_of_int k"
  using range by (simp add: frame_at_def)

lemma save:
  assumes f: "frame_at mmu s b pa size_of"
  shows "\<exists>m. run_code mmu (saves b slots @ cs) s = run_code mmu cs (s\<lparr>mc_mem := m\<rparr>) \<and>
    (\<forall>r k. (r, k) \<in> set slots \<longrightarrow> load64 m (pa + word_of_int k) = rg s r) \<and>
    (\<forall>a. aligned 8 a \<longrightarrow> (\<forall>r k. (r, k) \<in> set slots \<longrightarrow> a \<noteq> pa + word_of_int k) \<longrightarrow> load64 m a = load64 (mc_mem s) a)"
proof -
  note sa = slot_addr [OF f]
  have al: "aligned 8 (vaddr_of mmu s b k)" if "k \<in> snd ` set slots" for k
    using that sa range f by (force simp: frame_at_def intro: aligned_slot)
  have inj: "inj_on (vaddr_of mmu s b) (snd ` set slots)"
  proof (rule inj_onI)
    fix k j assume h: "k \<in> snd ` set slots" "j \<in> snd ` set slots" "vaddr_of mmu s b k = vaddr_of mmu s b j"
    then obtain r q where rq: "(r, k) \<in> set slots" "(q, j) \<in> set slots" by force
    show "k = j" using h(3) range [OF rq(1)] range [OF rq(2)] small unfolding sa [OF rq(1)] sa [OF rq(2)] by (intro frame_slot_inj) auto
  qed
  obtain m where m: "run_code mmu (saves b slots @ cs) s = run_code mmu cs (s\<lparr>mc_mem := m\<rparr>)"
      "\<And>r k. (r, k) \<in> set slots \<Longrightarrow> load64 m (vaddr_of mmu s b k) = rg s r"
      "\<And>a. aligned 8 a \<Longrightarrow> a \<notin> vaddr_of mmu s b ` snd ` set slots \<Longrightarrow> load64 m a = load64 (mc_mem s) a"
    using saves_ok [OF offs al inj, of cs] by blast
  have "load64 m a = load64 (mc_mem s) a" if "aligned 8 a" "\<forall>r k. (r, k) \<in> set slots \<longrightarrow> a \<noteq> pa + word_of_int k" for a
  proof (rule m(3) [OF that(1)])
    show "a \<notin> vaddr_of mmu s b ` snd ` set slots" using that(2) sa by fastforce
  qed
  then show ?thesis using m(1,2) sa by (intro exI [of _ m]) auto
qed

lemma restore:
  assumes f: "frame_at mmu s b pa size_of" and b: "b \<notin> fst ` set slots"
  shows "\<exists>t. run_code mmu (restores b slots @ cs) s = run_code mmu cs t \<and> (\<exists>R. t = s\<lparr>mc_reg := R\<rparr>) \<and>
    (\<forall>r k. (r, k) \<in> set slots \<longrightarrow> rg t r = load64 (mc_mem s) (pa + word_of_int k)) \<and> (\<forall>r. r \<notin> fst ` set slots \<longrightarrow> rg t r = rg s r)"
proof -
  let ?t = "s\<lparr>mc_reg := \<lambda>r. case map_of slots r of None \<Rightarrow> mc_reg s r | Some k \<Rightarrow> load64 (mc_mem s) (vaddr_of mmu s b k)\<rparr>"
  have "rg ?t r = load64 (mc_mem s) (pa + word_of_int k)" if h: "(r, k) \<in> set slots" for r k
  proof -
    have "map_of slots r = Some k" using h regs by simp
    moreover have "r \<noteq> Zero" using h no_zero by force
    ultimately show ?thesis using slot_addr [OF f h] by (simp add: rg_def)
  qed
  moreover have "rg ?t r = rg s r" if "r \<notin> fst ` set slots" for r
    using that by (simp add: rg_def flip: map_of_eq_None_iff)
  ultimately show ?thesis using restores_ok [OF regs b, of mmu cs s] by (intro exI [of _ ?t]) auto
qed

end

interpretation user_frame: register_frame user_slots 288
  by unfold_locales (auto simp: user_slots_def trapframe_slots_def upt_rec)

interpretation kernelvec_frame: register_frame kernelvec_slots 256
  by unfold_locales (auto simp: kernelvec_slots_def)

interpretation context_frame: register_frame context_slots 112
  by unfold_locales (auto simp: context_slots_def upt_rec)

section \<open>Traps from user space\<close>

text \<open>
  The page at virtual address \<open>va\<close> is mapped to the physical page \<open>pa\<close>: \<open>proc_pagetable\<close> maps the trapframe of a
  process at \<open>TRAPFRAME\<close>.
\<close>

definition maps_page :: "mmu \<Rightarrow> u64 \<Rightarrow> u64 \<Rightarrow> u64 \<Rightarrow> bool" where
  "maps_page mmu satp va pa \<longleftrightarrow> aligned 8 pa \<and> (\<forall>k. 0 \<le> k \<and> k < 4096 \<longrightarrow> mmu satp (va + word_of_int k) = pa + word_of_int k)"

lemma maps_pageD: "maps_page mmu satp va pa \<Longrightarrow> 0 \<le> k \<Longrightarrow> k < 4096 \<Longrightarrow> mmu satp (va + word_of_int k) = pa + word_of_int k"
  by (simp add: maps_page_def)

lemma frame_trapframe:
  "maps_page mmu (mc_csr s Satp) TRAPFRAME tf \<Longrightarrow> rg s A0 = TRAPFRAME \<Longrightarrow> n \<le> 4096 \<Longrightarrow> frame_at mmu s A0 tf n"
  by (simp add: frame_at_def maps_page_def vaddr_of_def)

lemma uservec_code:
  "uservec link = [CSRW Sscratch A0, LI A0 TRAPFRAME] @ saves A0 user_slots @
     [CSRR T0 Sscratch, SD T0 112 A0, LD SP 8 A0, LD TP 32 A0, LD T0 16 A0, LD T1 0 A0, SFENCE_VMA, CSRW Satp T1, SFENCE_VMA, JALR T0 link]"
  by (simp add: uservec_def saves_def user_slots_def trapframe_slots_def upt_rec)

lemma userret_code:
  "userret = [FENCE_I, SFENCE_VMA, CSRW Satp A0, SFENCE_VMA, LI A0 TRAPFRAME] @ restores A0 user_slots @ [LD A0 112 A0, SRET]"
  by (simp add: userret_def restores_def user_slots_def trapframe_slots_def upt_rec)

lemma user_slots_props:
  "set trapframe_slots = insert (A0, 112) (set user_slots)" "A0 \<notin> fst ` set user_slots"
  "(r, k) \<in> set user_slots \<Longrightarrow> k \<noteq> 0 \<and> k \<noteq> 8 \<and> k \<noteq> 16 \<and> k \<noteq> 32 \<and> k \<noteq> 112 \<and> 0 \<le> k \<and> k < 4096 \<and> 8 dvd k \<and> r \<noteq> A0"
  "r \<noteq> Zero \<Longrightarrow> r \<in> fst ` set trapframe_slots"
  by (auto simp: trapframe_slots_def user_slots_def upt_rec) (cases r; simp)+

lemma uservec_ok:
  fixes link :: u64
  assumes tf: "maps_page mmu (mc_csr s Satp) TRAPFRAME tf"
  defines "t \<equiv> run_code mmu (uservec link) s"
  shows "\<And>r k. (r, k) \<in> set trapframe_slots \<Longrightarrow> load64 (mc_mem t) (tf + word_of_int k) = rg s r"
    and "rg t SP = load64 (mc_mem s) (tf + 8)" and "rg t TP = load64 (mc_mem s) (tf + 32)"
    and "mc_csr t Satp = load64 (mc_mem s) tf" and "mc_pc t = load64 (mc_mem s) (tf + 16)" and "rg t RA = link"
    and "\<And>c. c \<noteq> Satp \<Longrightarrow> c \<noteq> Sscratch \<Longrightarrow> mc_csr t c = mc_csr s c"
proof -
  let ?u = "set_rg A0 TRAPFRAME (set_csr Sscratch (rg s A0) s)"
  have al: "aligned 8 tf" and ad: "\<And>k. 0 \<le> k \<Longrightarrow> k < 4096 \<Longrightarrow> mmu (mc_csr s Satp) (TRAPFRAME + word_of_int k) = tf + word_of_int k"
    using tf by (simp_all add: maps_page_def)
  have f: "frame_at mmu ?u A0 tf 288" by (rule frame_trapframe) (use tf in simp_all)
  define cs where "cs = [CSRR T0 Sscratch, SD T0 112 A0, LD SP 8 A0, LD TP 32 A0, LD T0 16 A0, LD T1 0 A0, SFENCE_VMA, CSRW Satp T1, SFENCE_VMA, JALR T0 link]"
  obtain m where m: "run_code mmu (saves A0 user_slots @ cs) ?u = run_code mmu cs (?u\<lparr>mc_mem := m\<rparr>)"
      "\<And>r k. (r, k) \<in> set user_slots \<Longrightarrow> load64 m (tf + word_of_int k) = rg ?u r"
      "\<And>a. aligned 8 a \<Longrightarrow> (\<And>r k. (r, k) \<in> set user_slots \<Longrightarrow> a \<noteq> tf + word_of_int k) \<Longrightarrow> load64 m a = load64 (mc_mem s) a"
    using user_frame.save [OF f, of cs] by auto
  have ld: "load64 (store64 (tf + 112) v m) (tf + word_of_int k) = load64 m (tf + word_of_int k)" if "0 \<le> k" "k < 4096" "k \<noteq> 112" "8 dvd k" for v k
  proof -
    have "tf + word_of_int 112 \<noteq> tf + word_of_int k" using frame_slot_inj [of tf 112 k] that by auto
    from load64_store64_other [OF aligned_slot [OF al, of 112] aligned_slot [OF al that(4)] this] show ?thesis by simp
  qed
  have keep: "load64 m (tf + word_of_int k) = load64 (mc_mem s) (tf + word_of_int k)" if "k \<in> {0, 8, 16, 32}" for k
  proof (rule m(3))
    show "aligned 8 (tf + word_of_int k)" using that by (intro aligned_slot [OF al]) auto
    show "tf + word_of_int k \<noteq> tf + word_of_int j" if "(r, j) \<in> set user_slots" for r j
      using frame_slot_inj [of tf k j] user_slots_props(3) [OF that] \<open>k \<in> _\<close> by auto
  qed
  have t: "t = run_code mmu cs (?u\<lparr>mc_mem := m\<rparr>)" unfolding t_def uservec_code cs_def [symmetric] using m(1) by simp
  note ads = ad [of 112, simplified] ad [of 8, simplified] ad [of 32, simplified] ad [of 16, simplified] ad [of 0, simplified]
  note lds = ld [of 8, simplified] ld [of 32, simplified] ld [of 16, simplified] ld [of 0, simplified]
  note keeps = keep [of 8, simplified] keep [of 32, simplified] keep [of 16, simplified] keep [of 0, simplified]
  show "rg t SP = load64 (mc_mem s) (tf + 8)" "rg t TP = load64 (mc_mem s) (tf + 32)" "mc_csr t Satp = load64 (mc_mem s) tf"
    "mc_pc t = load64 (mc_mem s) (tf + 16)" "rg t RA = link"
    "\<And>c. c \<noteq> Satp \<Longrightarrow> c \<noteq> Sscratch \<Longrightarrow> mc_csr t c = mc_csr s c"
    unfolding t cs_def by (simp_all add: vaddr_of_def ads lds keeps)
  fix r k assume h: "(r, k) \<in> set trapframe_slots"
  have mt: "mc_mem t = store64 (tf + 112) (rg s A0) m" unfolding t cs_def by (simp add: vaddr_of_def ads)
  show "load64 (mc_mem t) (tf + word_of_int k) = rg s r"
  proof (cases "(r, k) \<in> set user_slots")
    case True
    then show ?thesis using m(2) [OF True] ld [of k] user_slots_props(3) [OF True] by (simp add: mt)
  next
    case False
    then show ?thesis using h by (simp add: user_slots_props(1) mt)
  qed
qed

lemma userret_ok:
  assumes tf: "maps_page mmu (rg s A0) TRAPFRAME tf"
  defines "t \<equiv> run_code mmu userret s"
  shows "\<And>r k. (r, k) \<in> set trapframe_slots \<Longrightarrow> rg t r = load64 (mc_mem s) (tf + word_of_int k)"
    and "mc_csr t Satp = rg s A0" and "mc_pc t = mc_csr s Sepc" and "mc_priv t = (if bit (mc_csr s Sstatus) 8 then Supervisor else User)" 
proof -
  let ?u = "set_rg A0 TRAPFRAME (set_csr Satp (rg s A0) s)"
  have f: "frame_at mmu ?u A0 tf 288" by (rule frame_trapframe) (use tf in simp_all)
  obtain v R where v: "run_code mmu (restores A0 user_slots @ [LD A0 112 A0, SRET]) ?u = run_code mmu [LD A0 112 A0, SRET] v" "v = ?u\<lparr>mc_reg := R\<rparr>"
      "\<And>r k. (r, k) \<in> set user_slots \<Longrightarrow> rg v r = load64 (mc_mem s) (tf + word_of_int k)" "rg v A0 = rg ?u A0"
    using user_frame.restore [OF f user_slots_props(2), of "[LD A0 112 A0, SRET]"] user_slots_props(2) by auto
  have a: "mmu (rg s A0) (TRAPFRAME + 112) = tf + 112" using maps_pageD [OF tf, of 112] by simp
  have t: "t = run_code mmu [LD A0 112 A0, SRET] v" unfolding t_def userret_code using v(1) by simp
  have w: "vaddr_of mmu v A0 112 = tf + 112" "mc_mem v = mc_mem s" "mc_csr v = (mc_csr s)(Satp := rg s A0)"
    using v(4) a by (simp_all add: vaddr_of_def v(2))
  show "mc_csr t Satp = rg s A0" "mc_pc t = mc_csr s Sepc" "mc_priv t = (if bit (mc_csr s Sstatus) 8 then Supervisor else User)"
    unfolding t by (simp_all add: sret_def Let_def w set_csr_def)
  fix r k assume "(r, k) \<in> set trapframe_slots"
  then show "rg t r = load64 (mc_mem s) (tf + word_of_int k)"
    unfolding t using v(3) user_slots_props(3) by (auto simp: user_slots_props(1) sret_def Let_def w)
qed

section \<open>Interrupts of the kernel and context switches\<close>

lemma kernelvec_code:
  "kernelvec_save f link = ADDI SP SP (- 256) # saves SP kernelvec_slots @ [CALL f link]"
  "kernelvec_restore = restores SP kernelvec_slots @ [ADDI SP SP 256, SRET]"
  by (simp_all add: kernelvec_save_def kernelvec_restore_def saves_def restores_def kernelvec_slots_def)

lemma swtch_code: "swtch = saves A0 context_slots @ restores A1 context_slots @ [RET]"
  by (simp add: swtch_def saves_def restores_def context_slots_def upt_rec)

text \<open>The registers that a C function keeps for its caller; \<open>tp\<close> and \<open>gp\<close> are not used by C code.\<close>

definition callee_saved :: "areg list" where
  "callee_saved = [SP, S0, S1, S2, S3, S4, S5, S6, S7, S8, S9, S10, S11]"

text \<open>
  An interrupt of kernel code: \<open>s\<close> is interrupted, \<open>kerneltrap\<close> starts in \<open>t\<close> and returns in \<open>u\<close>. It follows the calling
  convention, and leaves the 256 bytes above its stack alone. Then the interrupted code goes on with all its registers, except for
  \<open>tp\<close>, which has the number of the current hart.
\<close>

lemma kernelvec_transparent:
  assumes frame: "frame_at mmu (s\<lparr>mc_reg := (mc_reg s)(SP := mc_reg s SP - 256)\<rparr>) SP pa 256"
    and t: "t = run_code mmu (kernelvec_save f link) s"
    and conv: "\<And>r. r \<in> set callee_saved \<Longrightarrow> rg u r = rg t r" and satp: "mc_csr u Satp = mc_csr s Satp"
    and stack: "\<And>k. 0 \<le> k \<Longrightarrow> k < 256 \<Longrightarrow> load64 (mc_mem u) (pa + word_of_int k) = load64 (mc_mem t) (pa + word_of_int k)"
  shows "mc_pc t = f \<and> (\<forall>r. r \<noteq> TP \<longrightarrow> rg (run_code mmu kernelvec_restore u) r = rg s r) \<and>
    mc_pc (run_code mmu kernelvec_restore u) = mc_csr u Sepc"
proof -
  let ?v = "set_rg SP (rg s SP - 256) s"
  have fv: "frame_at mmu ?v SP pa 256" using frame by (simp add: set_rg_def rg_def)
  obtain m where m: "run_code mmu (saves SP kernelvec_slots @ [CALL f link]) ?v = run_code mmu [CALL f link] (?v\<lparr>mc_mem := m\<rparr>)"
      "\<And>r k. (r, k) \<in> set kernelvec_slots \<Longrightarrow> load64 m (pa + word_of_int k) = rg ?v r"
    using kernelvec_frame.save [OF fv, of "[CALL f link]"] by blast
  have tt: "t = (set_rg RA link (?v\<lparr>mc_mem := m\<rparr>))\<lparr>mc_pc := f\<rparr>" using m(1) unfolding t kernelvec_code by simp
  have sp: "rg u SP = rg s SP - 256" using conv [of SP] by (simp add: tt callee_saved_def)
  have fu: "frame_at mmu u SP pa 256" using fv satp sp by (simp add: frame_at_def vaddr_of_def)
  have nsp: "SP \<notin> fst ` set kernelvec_slots" by (simp add: kernelvec_slots_def)
  obtain w R where w: "run_code mmu (restores SP kernelvec_slots @ [ADDI SP SP 256, SRET]) u = run_code mmu [ADDI SP SP 256, SRET] w" "w = u\<lparr>mc_reg := R\<rparr>"
      "\<And>r k. (r, k) \<in> set kernelvec_slots \<Longrightarrow> rg w r = load64 (mc_mem u) (pa + word_of_int k)"
      "\<And>r. r \<notin> fst ` set kernelvec_slots \<Longrightarrow> rg w r = rg u r"
    using kernelvec_frame.restore [OF fu nsp, of "[ADDI SP SP 256, SRET]"] by blast
  let ?e = "run_code mmu kernelvec_restore u"
  have e: "?e = sret (set_rg SP (rg w SP + 256) w)" unfolding kernelvec_code w(1) by simp
  have saved: "rg w r = rg s r" if h: "r \<in> fst ` set kernelvec_slots" for r
  proof -
    obtain k where k: "(r, k) \<in> set kernelvec_slots" using h by force
    have "0 \<le> k" "k < 256" using kernelvec_frame.range [OF k] by simp_all
    moreover have "r \<noteq> SP" using h nsp by blast
    ultimately show ?thesis using w(3) [OF k] stack [of k] m(2) [OF k] by (simp add: tt)
  qed
  have "rg ?e r = rg s r" if "r \<noteq> TP" for r
  proof (cases "r \<in> fst ` set kernelvec_slots")
    case True
    then have "r \<noteq> SP" using nsp by blast
    then show ?thesis using saved [OF True] by (simp add: e sret_def Let_def)
  next
    case False
    then have "r = Zero \<or> r \<in> set callee_saved" using that by (cases r) (simp_all add: kernelvec_slots_def callee_saved_def)
    moreover have "r \<noteq> RA" using False by (auto simp: kernelvec_slots_def)
    ultimately have u: "rg u r = rg ?v r" using conv [of r] by (auto simp: tt)
    show ?thesis using w(4) [OF False] w(4) [OF nsp] sp u by (simp add: e sret_def Let_def)
  qed
  then show ?thesis by (simp add: tt) (simp add: e sret_def Let_def w(2))
qed

text \<open>\<open>struct context\<close> in memory, and the registers that belong to it.\<close>

definition context_at :: "pmem \<Rightarrow> u64 \<Rightarrow> kcontext" where
  "context_at m a = \<lparr>ctx_ra = load64 m a, ctx_sp = load64 m (a + 8), ctx_s = map (\<lambda>i. load64 m (a + 16 + 8 * of_nat i)) [0..<12]\<rparr>"

definition context_of :: "mach \<Rightarrow> kcontext" where
  "context_of s = \<lparr>ctx_ra = rg s RA, ctx_sp = rg s SP, ctx_s = map (rg s) [S0, S1, S2, S3, S4, S5, S6, S7, S8, S9, S10, S11]\<rparr>"

lemma context_slots_at:
  "context_at m a = context_of s \<longleftrightarrow> (\<forall>r k. (r, k) \<in> set context_slots \<longrightarrow> load64 m (a + word_of_int k) = rg s r)"
proof -
  have "(\<forall>r k. (r, k) \<in> set context_slots \<longrightarrow> load64 m (a + word_of_int k) = rg s r) \<longleftrightarrow>
      list_all (\<lambda>(r, k). load64 m (a + word_of_int k) = rg s r) context_slots"
    by (auto simp: list_all_iff)
  also have "\<dots> \<longleftrightarrow> context_at m a = context_of s"
    by (simp add: context_at_def context_of_def context_slots_def upt_rec add.assoc)
  finally show ?thesis by blast
qed

lemma swtch_ok:
  assumes old: "frame_at mmu s A0 p 112" and new: "frame_at mmu s A1 q 112"
    and apart: "\<And>k j. 0 \<le> k \<Longrightarrow> k < 112 \<Longrightarrow> 0 \<le> j \<Longrightarrow> j < 112 \<Longrightarrow> p + word_of_int k \<noteq> q + word_of_int j"
  shows "context_at (mc_mem (run_code mmu swtch s)) p = context_of s"
    and "context_of (run_code mmu swtch s) = context_at (mc_mem s) q"
    and "mc_pc (run_code mmu swtch s) = ctx_ra (context_at (mc_mem s) q)"
    and "aligned 8 a \<Longrightarrow> (\<And>k. 0 \<le> k \<Longrightarrow> k < 112 \<Longrightarrow> a \<noteq> p + word_of_int k) \<Longrightarrow> load64 (mc_mem (run_code mmu swtch s)) a = load64 (mc_mem s) a"
proof -
  obtain m where m: "run_code mmu (saves A0 context_slots @ restores A1 context_slots @ [RET]) s = run_code mmu (restores A1 context_slots @ [RET]) (s\<lparr>mc_mem := m\<rparr>)"
      "\<And>r k. (r, k) \<in> set context_slots \<Longrightarrow> load64 m (p + word_of_int k) = rg s r"
      "\<And>a. aligned 8 a \<Longrightarrow> (\<And>r k. (r, k) \<in> set context_slots \<Longrightarrow> a \<noteq> p + word_of_int k) \<Longrightarrow> load64 m a = load64 (mc_mem s) a"
    using context_frame.save [OF old, of "restores A1 context_slots @ [RET]"] by blast
  have f: "frame_at mmu (s\<lparr>mc_mem := m\<rparr>) A1 q 112" using new by (simp add: frame_at_def)
  have na: "A1 \<notin> fst ` set context_slots" by (simp add: context_slots_def upt_rec)
  obtain t R where t: "run_code mmu (restores A1 context_slots @ [RET]) (s\<lparr>mc_mem := m\<rparr>) = run_code mmu [RET] t" "t = s\<lparr>mc_mem := m, mc_reg := R\<rparr>"
      "\<And>r k. (r, k) \<in> set context_slots \<Longrightarrow> rg t r = load64 m (q + word_of_int k)"
    using context_frame.restore [OF f na, of "[RET]"] by auto
  let ?t = "run_code mmu swtch s"
  have e: "?t = t\<lparr>mc_pc := rg t RA\<rparr>" unfolding swtch_code m(1) t(1) by simp
  have al: "aligned 8 q" using new by (simp add: frame_at_def)
  have keep: "load64 m (q + word_of_int k) = load64 (mc_mem s) (q + word_of_int k)" if "(r, k) \<in> set context_slots" for r k
  proof (rule m(3))
    show "aligned 8 (q + word_of_int k)" using context_frame.range [OF that] al by (intro aligned_slot) auto
    show "q + word_of_int k \<noteq> p + word_of_int j" if "(r', j) \<in> set context_slots" for r' j
      using apart [of j k] context_frame.range [OF that] context_frame.range [OF \<open>(r, k) \<in> _\<close>] by auto
  qed
  show "context_at (mc_mem ?t) p = context_of s" using m(2) by (simp add: e t(2) context_slots_at)
  have "context_at (mc_mem s) q = context_of ?t" unfolding context_slots_at using t(3) keep by (simp add: e)
  then show c: "context_of ?t = context_at (mc_mem s) q" by simp
  show "mc_pc ?t = ctx_ra (context_at (mc_mem s) q)" unfolding c [symmetric] by (simp add: context_of_def e)
  show "load64 (mc_mem ?t) a = load64 (mc_mem s) a" if "aligned 8 a" "\<And>k. 0 \<le> k \<Longrightarrow> k < 112 \<Longrightarrow> a \<noteq> p + word_of_int k"
  proof -
    have "a \<noteq> p + word_of_int k" if "(r, k) \<in> set context_slots" for r k
      using context_frame.range [OF that] \<open>\<And>k. 0 \<le> k \<Longrightarrow> k < 112 \<Longrightarrow> a \<noteq> p + word_of_int k\<close> by blast
    then show ?thesis using m(3) [OF that(1)] by (simp add: e t(2))
  qed
qed

definition frames_apart :: "u64 \<Rightarrow> u64 \<Rightarrow> int \<Rightarrow> bool" where
  "frames_apart p q n \<longleftrightarrow> (\<forall>k j. 0 \<le> k \<and> k < n \<and> 0 \<le> j \<and> j < n \<longrightarrow> p + word_of_int k \<noteq> q + word_of_int j)"

section \<open>Start of a hart\<close>

text \<open>\<open>mret\<close> goes to \<open>mepc\<close> in the mode of bits 12 and 11 of \<open>mstatus\<close>.\<close>

definition mret :: "mach \<Rightarrow> mach" where
  "mret s = s\<lparr>mc_pc := mc_csr s Mepc,
     mc_priv := (if bit (mc_csr s Mstatus) 12 then Machine else if bit (mc_csr s Mstatus) 11 then Supervisor else User)\<rparr>"

definition MSTATUS_MPP_MASK :: u64 where "MSTATUS_MPP_MASK = push_bit 11 3"
definition MSTATUS_MPP_S :: u64 where "MSTATUS_MPP_S = push_bit 11 1"
definition SIE_SEIE :: u64 where "SIE_SEIE = push_bit 9 1"
definition SIE_STIE :: u64 where "SIE_STIE = push_bit 5 1"
definition MENVCFG_STCE :: u64 where "MENVCFG_STCE = push_bit 63 1"
definition MENVCFG_ADUE :: u64 where "MENVCFG_ADUE = push_bit 61 1"

definition timerinit :: "mach \<Rightarrow> mach" where
  "timerinit s0 =
     (let s1 = set_csr Menvcfg (mc_csr s0 Menvcfg OR MENVCFG_STCE) s0;
          s2 = set_csr Mcounteren (mc_csr s1 Mcounteren OR 2) s1
      in set_csr Stimecmp (mc_csr s2 Time + 1000000) s2)"

text \<open>The hart number goes through an \<open>int\<close>, of 32 bits.\<close>

definition start :: "u64 \<Rightarrow> mach \<Rightarrow> mach" where
  "start main_addr s0 =
     (let s1 = set_csr Mstatus ((mc_csr s0 Mstatus AND NOT MSTATUS_MPP_MASK) OR MSTATUS_MPP_S) s0;
          s2 = set_csr Mepc main_addr s1;
          s3 = set_csr Satp 0 s2;
          s4 = set_csr Mideleg 0xffff (set_csr Medeleg 0xffff s3);
          s5 = set_csr Sie (mc_csr s4 Sie OR SIE_SEIE OR SIE_STIE) s4;
          s6 = set_csr Pmpcfg0 0xf (set_csr Pmpaddr0 0x3fffffffffffff s5);
          s7 = set_csr Menvcfg (mc_csr s6 Menvcfg OR MENVCFG_ADUE) s6;
          s8 = timerinit s7;
          s9 = set_rg TP (scast (ucast (mc_csr s8 Mhartid) :: u32)) s8
      in mret s9)"

text \<open>
  Each hart has its own stack: it starts on page \<open>hartid\<close> of \<open>stack0\<close>, and \<open>main\<close> starts in supervisor mode, without paging, with the
  number of the hart in \<open>tp\<close>.
\<close>

lemma entry_stack:
  "rg (run_code mmu (entry_code stack0 f link) s) SP = stack0 + 4096 * (mc_csr s Mhartid + 1)"
  "mc_pc (run_code mmu (entry_code stack0 f link) s) = f"
  by (simp_all add: entry_code_def)

lemma start_ok:
  assumes "mc_csr s Mhartid < 8"
  shows "mc_priv (start f s) = Supervisor" and "mc_pc (start f s) = f" and "mc_csr (start f s) Satp = 0" and "rg (start f s) TP = mc_csr s Mhartid"
    and "rg (start f s) SP = rg s SP"
proof -
  let ?x = "(mc_csr s Mstatus AND NOT (push_bit 11 3)) OR push_bit 11 1 :: u64"
  have b: "bit ?x 11" "\<not> bit ?x 12" by (simp_all add: bit_simps bit_numeral_rec)
  have "unat (mc_csr s Mhartid) < 8" using assms by (simp add: word_less_nat_alt)
  moreover have "mc_csr s Mhartid = of_nat (unat (mc_csr s Mhartid))" by simp
  ultimately obtain n where n: "mc_csr s Mhartid = of_nat n" "n < 8" by blast
  from n(2) have "n = 0 \<or> n = 1 \<or> n = 2 \<or> n = 3 \<or> n = 4 \<or> n = 5 \<or> n = 6 \<or> n = 7" by linarith
  then have "(scast (ucast (mc_csr s Mhartid) :: u32) :: u64) = mc_csr s Mhartid" unfolding n(1) by auto
  then show "mc_priv (start f s) = Supervisor" "mc_pc (start f s) = f" "mc_csr (start f s) Satp = 0" "rg (start f s) TP = mc_csr s Mhartid"
    "rg (start f s) SP = rg s SP"
    using b by (simp_all add: start_def timerinit_def mret_def Let_def MSTATUS_MPP_MASK_def MSTATUS_MPP_S_def)
qed

text \<open>C20: A process does not notice a trap. \<open>uservec\<close> saves every user register in its place of the trapframe and enters \<open>usertrap\<close> on
  the stack, hart number and page table that the kernel left there; when \<open>usertrap\<close> returns to \<open>userret\<close> with the page
  table of the process, every register whose place in the trapframe was left alone has the value that it had at the trap, and execution goes on at \<open>sepc\<close>.\<close>

theorem trap_roundtrip:
  assumes "maps_page mmu (mc_csr s Satp) TRAPFRAME tf" and "t = run_code mmu (uservec link) s"
    and "rg u A0 = mc_csr s Satp" and "v = run_code mmu userret u"
  shows "(rg t SP = load64 (mc_mem s) (tf + 8) \<and> rg t TP = load64 (mc_mem s) (tf + 32) \<and> mc_csr t Satp = load64 (mc_mem s) tf \<and>
      mc_pc t = load64 (mc_mem s) (tf + 16) \<and> rg t RA = link) \<and>
    (\<forall>r k. (r, k) \<in> set trapframe_slots \<longrightarrow> load64 (mc_mem t) (tf + word_of_int k) = rg s r) \<and>
    (\<forall>r k. (r, k) \<in> set trapframe_slots \<longrightarrow> load64 (mc_mem u) (tf + word_of_int k) = load64 (mc_mem t) (tf + word_of_int k) \<longrightarrow> rg v r = rg s r) \<and>
    (\<forall>r. r \<noteq> Zero \<longrightarrow> r \<in> fst ` set trapframe_slots) \<and> mc_csr v Satp = mc_csr s Satp \<and> mc_pc v = mc_csr u Sepc"
proof -
  have "maps_page mmu (rg u A0) TRAPFRAME tf" using assms(1,3) by simp
  note e = uservec_ok [OF assms(1), where link = link, folded assms(2)] and l = userret_ok [OF this, folded assms(4)]
  show ?thesis using e l assms(3) user_slots_props(4) by auto
qed

definition demo_mach :: mach where
  "demo_mach = \<lparr>mc_reg = \<lambda>r. if r = A0 then 0x1000 else if r = A1 then 0x2000 else 7, mc_csr = \<lambda>_. 0, mc_mem = \<lambda>_. 0, mc_pc = 0, mc_priv = User\<rparr>"

definition demo_mmu :: mmu where
  "demo_mmu satp va = va"

text \<open>A trap on which the kernel does nothing.\<close>

theorem trap_roundtrip_witness:
  "let t = run_code demo_mmu (uservec 4) demo_mach; v = run_code demo_mmu userret (set_rg A0 0 t)
   in load64 (mc_mem t) (TRAPFRAME + 112) = 0x1000 \<and> rg v A0 = 0x1000 \<and> rg v S5 = 7"
proof -
  let ?t = "run_code demo_mmu (uservec 4) demo_mach" let ?u = "set_rg A0 0 ?t"
  have "unat TRAPFRAME mod 8 = 0" by (simp add: TRAPFRAME_def TRAMPOLINE_def MAXVA_def PGSIZE_def)
  then have m: "maps_page demo_mmu (mc_csr demo_mach Satp) TRAPFRAME TRAPFRAME" by (simp add: maps_page_def demo_mmu_def aligned_def)
  have u: "rg ?u A0 = mc_csr demo_mach Satp" by (simp add: demo_mach_def)
  note r = trap_roundtrip [OF m refl u refl]
  have "(A0, 112) \<in> set trapframe_slots" "(S5, 200) \<in> set trapframe_slots" by (simp_all add: trapframe_slots_def upt_rec)
  moreover have "rg demo_mach A0 = 0x1000" "rg demo_mach S5 = 7" by (simp_all add: demo_mach_def rg_def)
  ultimately show ?thesis using r unfolding Let_def by (metis set_rg_simps(1) word_of_int_numeral)
qed

text \<open>C21: A kernel thread does not notice that it was switched away. \<open>swtch\<close> saves the context of the caller in \<open>old\<close> and goes on in \<open>new\<close>;
  the next \<open>swtch\<close> to \<open>old\<close>, from any other context, returns to the caller with its context, as long as \<open>old\<close> was left alone.\<close>

theorem swtch_resumes:
  assumes "frame_at mmu s A0 old 112" and "frame_at mmu s A1 new 112" and "frames_apart old new 112" and "t = run_code mmu swtch s"
    and "frame_at mmu u A0 other 112" and "frame_at mmu u A1 old 112" and "frames_apart other old 112"
    and "context_at (mc_mem u) old = context_at (mc_mem t) old" and "v = run_code mmu swtch u"
  shows "context_of t = context_at (mc_mem s) new \<and> mc_pc t = ctx_ra (context_at (mc_mem s) new) \<and>
    context_of v = context_of s \<and> mc_pc v = rg s RA \<and> context_at (mc_mem v) other = context_of u"
proof -
  have ap: "\<And>k j. 0 \<le> k \<Longrightarrow> k < 112 \<Longrightarrow> 0 \<le> j \<Longrightarrow> j < 112 \<Longrightarrow> old + word_of_int k \<noteq> new + word_of_int j"
    and ap': "\<And>k j. 0 \<le> k \<Longrightarrow> k < 112 \<Longrightarrow> 0 \<le> j \<Longrightarrow> j < 112 \<Longrightarrow> other + word_of_int k \<noteq> old + word_of_int j"
    using assms(3,7) by (simp_all add: frames_apart_def)
  note a = swtch_ok [OF assms(1,2) ap, folded assms(4)] and b = swtch_ok [OF assms(5,6) ap', folded assms(9)]
  have "mc_pc v = ctx_ra (context_of s)" using b(3) a(1) assms(8) by simp
  then show ?thesis using a b(1,2) assms(8) by (simp add: context_of_def)
qed

theorem swtch_resumes_witness:
  "let t = run_code demo_mmu swtch demo_mach; u = set_rg A1 0x1000 (set_rg A0 0x2000 t); v = run_code demo_mmu swtch u
   in ctx_ra (context_of t) = 0 \<and> context_of v = context_of demo_mach \<and> mc_pc v = 7"
proof -
  let ?t = "run_code demo_mmu swtch demo_mach" let ?u = "set_rg A1 0x1000 (set_rg A0 0x2000 ?t)"
  have f: "frame_at demo_mmu s b (rg s b) 112" if "aligned 8 (rg s b)" for s b
    using that by (simp add: frame_at_def vaddr_of_def demo_mmu_def)
  have al: "aligned 8 0x1000" "aligned 8 0x2000" by (simp_all add: aligned_def)
  have ap: "(0x1000::u64) + word_of_int k \<noteq> 0x2000 + word_of_int j" if "0 \<le> k" "k < 112" "0 \<le> j" "j < 112" for k j
  proof
    assume "(0x1000::u64) + word_of_int k = 0x2000 + word_of_int j"
    then have "(word_of_int k :: u64) = word_of_int (0x1000 + j)" by (simp add: algebra_simps)
    then have "uint (word_of_int k :: u64) = uint (word_of_int (0x1000 + j) :: u64)" by (rule arg_cong)
    then show False using that unfolding uint_word_of_int by simp
  qed
  have apart: "frames_apart 0x1000 0x2000 112" "frames_apart 0x2000 0x1000 112"
    using ap unfolding frames_apart_def by metis+
  have r: "rg demo_mach A0 = 0x1000" "rg demo_mach A1 = 0x2000" "rg ?u A0 = 0x2000" "rg ?u A1 = 0x1000" "rg demo_mach RA = 7"
    by (simp_all add: demo_mach_def rg_def set_rg_def)
  note fr = f [of demo_mach A0, unfolded r, OF al(1)] f [of demo_mach A1, unfolded r, OF al(2)]
    f [of ?u A0, unfolded r, OF al(2)] f [of ?u A1, unfolded r, OF al(1)]
  have c: "context_at (mc_mem ?u) 0x1000 = context_at (mc_mem ?t) 0x1000" by simp
  have "load64 (mc_mem demo_mach) 0x2000 = 0" by (simp add: demo_mach_def load64_def load_bytes_def upt_rec)
  then show ?thesis using swtch_resumes [OF fr(1,2) apart(1) refl fr(3,4) apart(2) c refl] r(5)
    by (simp add: Let_def context_at_def)
qed

end
