(* ===== verification/Trap.thy ===== *)
theory Trap
  imports Syscall Virtio Asm
begin

text \<open>
  Traps and interrupts, \<open>kernel/trap.c\<close> and \<open>kernel/plic.c\<close>, and the first steps of a new process, \<open>forkret\<close> of \<open>kernel/proc.c\<close>. The
  state of the kernel is extended with the control registers of the hart that runs, the register \<open>tp\<close>, and the writes to the
  interrupt controller. What the hardware answers and where the linker puts the code are parameters; so is what other threads
  do while the current one has given up the CPU. A thread that sleeps in a system call goes on with the
  system call and with the rest of \<open>usertrap\<close>.
\<close>

unbundle bit_operations_syntax

section \<open>The state\<close>

record ktrap = kvirtio +
  kt_csr :: "csr \<Rightarrow> u64"
  kt_tp :: u64
  kt_plic :: "(u64 \<times> u32) list"
  kt_idle :: bool        \<comment> \<open>the hart is in the scheduler, with no process\<close>
  kt_first :: bool       \<comment> \<open>the static variable of \<open>forkret\<close>\<close>

record trap_env =
  te_kernelvec :: u64
  te_uservec :: u64      \<comment> \<open>\<open>uservec - trampoline\<close>\<close>
  te_userret :: u64      \<comment> \<open>\<open>userret - trampoline\<close>\<close>
  te_usertrap :: u64
  te_disk :: regs
  te_plic :: "(u64 \<times> u32) list \<Rightarrow> u64 \<Rightarrow> u32"
  te_others :: "ktrap \<Rightarrow> ktrap"

definition SSTATUS_SPP :: u64 where "SSTATUS_SPP = push_bit 8 1"
definition SSTATUS_SPIE :: u64 where "SSTATUS_SPIE = push_bit 5 1"
definition SSTATUS_SIE :: u64 where "SSTATUS_SIE = push_bit 1 1"
definition SATP_SV39 :: u64 where "SATP_SV39 = push_bit 60 8"
definition UART0_IRQ :: nat where "UART0_IRQ = 10"
definition VIRTIO0_IRQ :: nat where "VIRTIO0_IRQ = 1"

definition MAKE_SATP :: "u64 \<Rightarrow> u64" where
  "MAKE_SATP pagetable = SATP_SV39 OR drop_bit 12 pagetable"

definition w_csr :: "csr \<Rightarrow> u64 \<Rightarrow> (ktrap, unit) kop" where
  "w_csr c v = kmod (\<lambda>s. s\<lparr>kt_csr := (kt_csr s)(c := v)\<rparr>)"

definition sstatus_on :: "(ktrap, unit) kop" where
  "sstatus_on = (\<lambda>s. w_csr Sstatus (kt_csr s Sstatus OR SSTATUS_SIE) s)"

definition sstatus_off :: "(ktrap, unit) kop" where
  "sstatus_off = (\<lambda>s. w_csr Sstatus (kt_csr s Sstatus AND NOT SSTATUS_SIE) s)"

definition cpuid :: "ktrap \<Rightarrow> int" where
  "cpuid s = sint (ucast (kt_tp s) :: u32)"

section \<open>The interrupt controller\<close>

definition PLIC_SENABLE :: "int \<Rightarrow> u64" where "PLIC_SENABLE hart = PLIC + 0x2080 + word_of_int (hart * 0x100)"
definition PLIC_SPRIORITY :: "int \<Rightarrow> u64" where "PLIC_SPRIORITY hart = PLIC + 0x201000 + word_of_int (hart * 0x2000)"
definition PLIC_SCLAIM :: "int \<Rightarrow> u64" where "PLIC_SCLAIM hart = PLIC + 0x201004 + word_of_int (hart * 0x2000)"

definition w_plic :: "u64 \<Rightarrow> u32 \<Rightarrow> (ktrap, unit) kop" where
  "w_plic a v = kmod (\<lambda>s. s\<lparr>kt_plic := kt_plic s @ [(a, v)]\<rparr>)"

definition plicinit :: "(ktrap, unit) kop" where
  "plicinit = kseq (w_plic (PLIC + of_nat UART0_IRQ * 4) 1) (w_plic (PLIC + of_nat VIRTIO0_IRQ * 4) 1)"

definition plicinithart :: "(ktrap, unit) kop" where
  "plicinithart = (\<lambda>s. let hart = cpuid s in
     kseq (w_plic (PLIC_SENABLE hart) (push_bit UART0_IRQ 1 OR push_bit VIRTIO0_IRQ 1)) (w_plic (PLIC_SPRIORITY hart) 0) s)"

definition plic_claim :: "trap_env \<Rightarrow> (ktrap, int) kop" where
  "plic_claim e = kget (\<lambda>s. sint (te_plic e (kt_plic s) (PLIC_SCLAIM (cpuid s))))"

definition plic_complete :: "int \<Rightarrow> (ktrap, unit) kop" where
  "plic_complete irq = (\<lambda>s. w_plic (PLIC_SCLAIM (cpuid s)) (word_of_int irq) s)"

section \<open>The handlers\<close>

definition trapinithart :: "trap_env \<Rightarrow> (ktrap, unit) kop" where
  "trapinithart e = w_csr Stvec (te_kernelvec e)"

definition clockintr :: "(ktrap, unit) kop" where
  "clockintr =
     kseq (\<lambda>s. if cpuid s = 0 then kseq (kmod (\<lambda>s. s\<lparr>kf_ticks := kf_ticks s + 1\<rparr>)) (kwakeup AddrTicks) s else Ret () s)
       (\<lambda>s. w_csr Stimecmp (kt_csr s Time + 1000000) s)"

definition devintr :: "trap_env \<Rightarrow> (ktrap, int) kop" where
  "devintr e = (\<lambda>s. let scause = kt_csr s Scause in
     if scause = 0x8000000000000009 then
       kbind (plic_claim e) (\<lambda>irq.
         kseq (if irq = int UART0_IRQ then uartintr
               else if irq = int VIRTIO0_IRQ then virtio_disk_intr (te_disk e)
               else if irq \<noteq> 0 then kprintk (''unexpected interrupt irq=%d'' @ [CHR 0x0A]) [KWord (word_of_int irq)]
               else kret ())
        (kseq (if irq \<noteq> 0 then plic_complete irq else kret ())
              (kret 1))) s
     else if scause = 0x8000000000000005 then kseq clockintr (kret 2) s
     else Ret 0 s)"

text \<open>\<open>yield()\<close>, and what happens until the thread runs again.\<close>

definition kyield :: "trap_env \<Rightarrow> (ktrap, unit) kop" where
  "kyield e = kmod (\<lambda>s. te_others e (s\<lparr>kp_procs := yield (kp_me s) (kp_procs s)\<rparr>))"

definition prepare_return :: "trap_env \<Rightarrow> (ktrap, unit) kop" where
  "prepare_return e =
     kseq sstatus_off
    (kseq (w_csr Stvec (TRAMPOLINE + te_uservec e))
    (kseq (\<lambda>s. tf_store (kp_me s) TF_KERNEL_SATP (kt_csr s Satp) s)
    (kseq (\<lambda>s. tf_store (kp_me s) TF_KERNEL_SP (p_kstack (myproc s) + PGSIZE) s)
    (kseq (\<lambda>s. tf_store (kp_me s) TF_KERNEL_TRAP (te_usertrap e) s)
    (kseq (\<lambda>s. tf_store (kp_me s) TF_KERNEL_HARTID (kt_tp s) s)
    (kseq (\<lambda>s. w_csr Sstatus ((kt_csr s Sstatus AND NOT SSTATUS_SPP) OR SSTATUS_SPIE) s)
          (\<lambda>s. w_csr Sepc (tf_load (kp_me s) TF_EPC s) s)))))))"

definition unexpected_trap :: "(ktrap, unit) kop" where
  "unexpected_trap =
     kseq (\<lambda>s. kprintk (''usertrap(): unexpected scause 0x%lx pid=%d'' @ [CHR 0x0A]) [KWord (kt_csr s Scause), KWord (word_of_int (p_pid (myproc s)))] s)
    (kseq (\<lambda>s. kprintk (''            sepc=0x%lx stval=0x%lx'' @ [CHR 0x0A]) [KWord (kt_csr s Sepc), KWord (kt_csr s Stval)] s)
          (kmod (\<lambda>s. s\<lparr>kp_procs := setkilled (kp_me s) (kp_procs s)\<rparr>)))"

definition exit_if_killed :: "(ktrap, unit) kop" where
  "exit_if_killed = (\<lambda>s. if kkilled s then kexit (-1) s else Ret () s)"

text \<open>The cause of the trap: a system call, an interrupt of a device, a page fault, or something that kills the process.\<close>

definition usertrap_cause :: "trap_env \<Rightarrow> (ktrap, int) kop" where
  "usertrap_cause e = (\<lambda>s.
     if kt_csr s Scause = 8 then
       kseq exit_if_killed
      (kseq (\<lambda>s. tf_store (kp_me s) TF_EPC (tf_load (kp_me s) TF_EPC s + 4) s)
      (kseq sstatus_on
      (kseq syscall (kret 0)))) s
     else kbind (devintr e) (\<lambda>which_dev s.
       if which_dev \<noteq> 0 then Ret which_dev s
       else if kt_csr s Scause = 15 \<or> kt_csr s Scause = 13 then
         kbind (vmfault (p_pagetable (myproc s)) (p_sz (myproc s)) (kt_csr s Stval)) (\<lambda>r.
           if r \<noteq> 0 then kret 0 else kseq unexpected_trap (kret 0)) s
       else kseq unexpected_trap (kret 0) s) s)"

definition usertrap_return :: "trap_env \<Rightarrow> int \<Rightarrow> (ktrap, u64) kop" where
  "usertrap_return e which_dev =
     kseq exit_if_killed
    (kseq (if which_dev = 2 then kyield e else kret ())
    (kseq (prepare_return e) (kget (\<lambda>s. MAKE_SATP (p_pagetable (myproc s))))))"

definition usertrap :: "trap_env \<Rightarrow> (ktrap, u64) kop" where
  "usertrap e = (\<lambda>s.
     if kt_csr s Sstatus AND SSTATUS_SPP \<noteq> 0 then Panic ''usertrap: not from user mode''
     else kseq (w_csr Stvec (te_kernelvec e))
         (kseq (\<lambda>s. tf_store (kp_me s) TF_EPC (kt_csr s Sepc) s)
         (kbind (usertrap_cause e) (usertrap_return e))) s)"

definition kerneltrap :: "trap_env \<Rightarrow> (ktrap, unit) kop" where
  "kerneltrap e = (\<lambda>s. let sepc = kt_csr s Sepc; sstatus = kt_csr s Sstatus; scause = kt_csr s Scause in
     if sstatus AND SSTATUS_SPP = 0 then Panic ''kerneltrap: not from supervisor mode''
     else if kt_csr s Sstatus AND SSTATUS_SIE \<noteq> 0 then Panic ''kerneltrap: interrupts enabled''
     else kbind (devintr e) (\<lambda>which_dev.
       if which_dev = 0 then
         kseq (\<lambda>s. kprintk (''scause=0x%lx sepc=0x%lx stval=0x%lx'' @ [CHR 0x0A]) [KWord scause, KWord (kt_csr s Sepc), KWord (kt_csr s Stval)] s)
           (kpanic ''kerneltrap'')
       else kseq (\<lambda>s. if which_dev = 2 \<and> \<not> kt_idle s then kyield e s else Ret () s)
           (kseq (w_csr Sepc sepc) (w_csr Sstatus sstatus))) s)"

text \<open>\<open>forkret\<close> up to the jump to \<open>userret\<close>: its address, and the argument.\<close>

definition forkret :: "trap_env \<Rightarrow> (ktrap, u64 \<times> u64) kop" where
  "forkret e =
     kseq (\<lambda>s. if kt_first s then
         kseq (fsinit ROOTDEV)
        (kseq (kmod (\<lambda>s. s\<lparr>kt_first := False\<rparr>))
        (kbind (kexec (map of_char ''/init'') [map of_char ''/init'']) (\<lambda>r.
         kseq (\<lambda>s. tf_store (kp_me s) TF_A0 (word_of_int r) s)
           (\<lambda>s. if tf_load (kp_me s) TF_A0 s = -1 then Panic ''exec'' else Ret () s)))) s
       else Ret () s)
    (kseq (prepare_return e) (kget (\<lambda>s. (TRAMPOLINE + te_userret e, MAKE_SATP (p_pagetable (myproc s))))))"

section \<open>Returning to user space\<close>

lemmas trap_simps = w_csr_def tf_store_def sstatus_off_def sstatus_on_def

text \<open>The eight bytes of the trapframe at \<open>k\<close>.\<close>

definition tf_slot :: "ktrap \<Rightarrow> int \<Rightarrow> u64" where
  "tf_slot s k = load64 (km_mem s) (p_trapframe (myproc s) + word_of_int k)"

lemma tf_slot_load: "tf_load (kp_me s) (word_of_int k) s = tf_slot s k"
  by (simp add: tf_load_def tf_slot_def myproc_def)

lemma sstatus_user:
  fixes x :: u64
  defines "y \<equiv> ((x AND NOT SSTATUS_SIE) AND NOT SSTATUS_SPP) OR SSTATUS_SPIE"
  shows "\<not> bit y 8" and "bit y 5" and "\<not> bit y 1"
  by (simp_all add: y_def SSTATUS_SIE_def SSTATUS_SPP_def SSTATUS_SPIE_def bit_simps)

lemma slot_load_store:
  assumes "aligned 8 tf" and "8 dvd j" "8 dvd k" "0 \<le> j" "j < 4096" "0 \<le> k" "k < 4096"
  shows "load64 (store64 (tf + word_of_int j) v m) (tf + word_of_int k) = (if j = k then v else load64 m (tf + word_of_int k))"
proof (cases "j = k")
  case False
  then have "tf + word_of_int j \<noteq> tf + word_of_int k" using frame_slot_inj [of tf j k] assms by blast
  then show ?thesis using load64_store64_other [OF aligned_slot [OF assms(1,2)] aligned_slot [OF assms(1,3)]] False by simp
qed simp

lemma prepare_return_ok:
  assumes al: "aligned 8 (p_trapframe (myproc s))"
  shows "\<exists>t. prepare_return e s = Ret () t \<and> kp_procs t = kp_procs s \<and> kp_me t = kp_me s \<and> kt_tp t = kt_tp s \<and>
    \<not> bit (kt_csr t Sstatus) 8 \<and> bit (kt_csr t Sstatus) 5 \<and> \<not> bit (kt_csr t Sstatus) 1 \<and>
    kt_csr t Stvec = TRAMPOLINE + te_uservec e \<and> kt_csr t Sepc = tf_slot s 24 \<and> kt_csr t Satp = kt_csr s Satp \<and>
    (\<forall>k. 8 dvd k \<and> 0 \<le> k \<and> k < 4096 \<longrightarrow> tf_slot t k =
      (if k = 0 then kt_csr s Satp else if k = 8 then p_kstack (myproc s) + PGSIZE else if k = 16 then te_usertrap e
       else if k = 32 then kt_tp s else tf_slot s k))"
proof -
  let ?tf = "p_trapframe (myproc s)"
  note sl = slot_load_store [OF al]
  define m where "m = store64 (?tf + word_of_int 32) (kt_tp s) (store64 (?tf + word_of_int 16) (te_usertrap e)
     (store64 (?tf + word_of_int 8) (p_kstack (myproc s) + PGSIZE) (store64 (?tf + word_of_int 0) (kt_csr s Satp) (km_mem s))))"
  define y where "y = ((kt_csr s Sstatus AND NOT SSTATUS_SIE) AND NOT SSTATUS_SPP) OR SSTATUS_SPIE"
  define t where "t = s\<lparr>kt_csr := (kt_csr s)(Sstatus := kt_csr s Sstatus AND NOT SSTATUS_SIE, Stvec := TRAMPOLINE + te_uservec e,
     Sstatus := y, Sepc := load64 m (?tf + word_of_int 24)), km_mem := m\<rparr>"
  have ret: "prepare_return e s = Ret () t"
    by (simp add: prepare_return_def trap_simps t_def y_def m_def tf_load_def myproc_def TF_KERNEL_SATP_def TF_KERNEL_SP_def TF_KERNEL_TRAP_def
        TF_KERNEL_HARTID_def TF_EPC_def)
  have slots: "load64 m (?tf + word_of_int k) = (if k = 0 then kt_csr s Satp else if k = 8 then p_kstack (myproc s) + PGSIZE else if k = 16 then te_usertrap e
       else if k = 32 then kt_tp s else tf_slot s k)" if h: "8 dvd k" "0 \<le> k" "k < 4096" for k
  proof -
    have a: "load64 (store64 (?tf + word_of_int j) v m) (?tf + word_of_int k) = (if j = k then v else load64 m (?tf + word_of_int k))"
      if "j \<in> {0, 8, 16, 32}" for j v m using sl [of j k] that h by auto
    have j: "(32::int) \<in> {0, 8, 16, 32}" "(16::int) \<in> {0, 8, 16, 32}" "(8::int) \<in> {0, 8, 16, 32}" "(0::int) \<in> {0, 8, 16, 32}" by simp_all
    show ?thesis unfolding m_def a [OF j(1)] a [OF j(2)] a [OF j(3)] a [OF j(4)] tf_slot_def by simp
  qed
  have t: "kp_procs t = kp_procs s" "kp_me t = kp_me s" "kt_tp t = kt_tp s" "kt_csr t Sstatus = y" "kt_csr t Stvec = TRAMPOLINE + te_uservec e"
      "kt_csr t Satp = kt_csr s Satp" "kt_csr t Sepc = load64 m (?tf + word_of_int 24)" "myproc t = myproc s" "km_mem t = m"
    by (simp_all add: t_def myproc_def)
  have "kt_csr t Sepc = tf_slot s 24" unfolding t(7) using slots [of 24] by simp
  moreover have "\<not> bit y 8" "bit y 5" "\<not> bit y 1" unfolding y_def by (rule sstatus_user)+
  moreover have "tf_slot t k = (if k = 0 then kt_csr s Satp else if k = 8 then p_kstack (myproc s) + PGSIZE else if k = 16 then te_usertrap e
       else if k = 32 then kt_tp s else tf_slot s k)" if "8 dvd k" "0 \<le> k" "k < 4096" for k
    using slots [OF that] unfolding tf_slot_def [of t] t .
  ultimately show ?thesis using ret t(1-6) by blast
qed

section \<open>Timer interrupts\<close>

text \<open>A thread finds its process as it left it: the same memory, kernel stack and trapframe.\<close>

definition same_thread :: "ktrap \<Rightarrow> ktrap \<Rightarrow> bool" where
  "same_thread s t \<longleftrightarrow> kp_me t = kp_me s \<and> p_trapframe (myproc t) = p_trapframe (myproc s) \<and> p_pagetable (myproc t) = p_pagetable (myproc s) \<and>
     p_kstack (myproc t) = p_kstack (myproc s) \<and> (\<forall>k. 8 dvd k \<and> 0 \<le> k \<and> k < 288 \<longrightarrow> tf_slot t k = tf_slot s k)"

lemma same_thread_trans: "same_thread s t \<Longrightarrow> same_thread t u \<Longrightarrow> same_thread s u"
  by (simp add: same_thread_def)

lemma same_thread_mem:
  "kp_me t = kp_me s \<Longrightarrow> p_trapframe (myproc t) = p_trapframe (myproc s) \<Longrightarrow> p_pagetable (myproc t) = p_pagetable (myproc s) \<Longrightarrow>
   p_kstack (myproc t) = p_kstack (myproc s) \<Longrightarrow> km_mem t = km_mem s \<Longrightarrow> same_thread s t"
  by (simp add: same_thread_def tf_slot_def)

lemma wakeup_thread: "p_trapframe (wakeup_proc c p) = p_trapframe p" "p_pagetable (wakeup_proc c p) = p_pagetable p" "p_kstack (wakeup_proc c p) = p_kstack p"
  by (simp_all add: wakeup_proc_def Let_def)

lemma timer_devintr:
  assumes "kt_csr s Scause = 0x8000000000000005" and "kp_me s < length (kp_procs s)"
  shows "\<exists>t. devintr e s = Ret 2 t \<and> same_thread s t \<and> (kkilled t \<longleftrightarrow> kkilled s) \<and> kf_ticks t = (if cpuid s = 0 then kf_ticks s + 1 else kf_ticks s) \<and>
    kt_idle t = kt_idle s \<and> kt_csr t = (kt_csr s)(Stimecmp := kt_csr s Time + 1000000)"
proof -
  let ?c = "(kt_csr s)(Stimecmp := kt_csr s Time + 1000000)"
  let ?t = "if cpuid s = 0 then s\<lparr>kf_ticks := kf_ticks s + 1, kp_procs := wakeup (Some AddrTicks) (kp_procs s), kt_csr := ?c\<rparr> else s\<lparr>kt_csr := ?c\<rparr>"
  have "devintr e s = Ret 2 ?t" using assms(1) by (simp add: devintr_def clockintr_def w_csr_def Let_def)
  moreover have "same_thread s ?t" by (rule same_thread_mem) (use assms(2) in \<open>simp_all add: myproc_def wakeup_thread\<close>)
  moreover have "kkilled ?t \<longleftrightarrow> kkilled s" using assms(2) by (simp add: kkilled_def killed_def)
  ultimately show ?thesis by (intro exI [of _ ?t]) simp
qed

lemma yield_thread: "same_thread s (s\<lparr>kp_procs := yield (kp_me s) (kp_procs s)\<rparr>)"
proof (cases "kp_me s < length (kp_procs s)")
  case True
  then show ?thesis by (intro same_thread_mem) (simp_all add: myproc_def yield_def)
next
  case False
  then show ?thesis by (intro same_thread_mem) (simp_all add: myproc_def yield_def list_update_beyond)
qed

lemma usertrap_timer:
  assumes "kt_csr s Sstatus AND SSTATUS_SPP = 0" and cause: "kt_csr s Scause = 0x8000000000000005"
    and alive: "\<not> kkilled s" and me: "kp_me s < length (kp_procs s)"
    and al: "aligned 8 (p_trapframe (myproc s))" and others: "\<And>s. same_thread s (te_others e s)"
  shows "\<exists>t. usertrap e s = Ret (MAKE_SATP (p_pagetable (myproc s))) t \<and> p_trapframe (myproc t) = p_trapframe (myproc s) \<and>
    \<not> bit (kt_csr t Sstatus) 8 \<and> kt_csr t Sepc = kt_csr s Sepc \<and> (\<forall>k. 8 dvd k \<and> 40 \<le> k \<and> k < 288 \<longrightarrow> tf_slot t k = tf_slot s k)"
proof -
  let ?tf = "p_trapframe (myproc s)"
  define s1 where "s1 = s\<lparr>kt_csr := (kt_csr s)(Stvec := te_kernelvec e), km_mem := store64 (?tf + word_of_int 24) (kt_csr s Sepc) (km_mem s)\<rparr>"
  have p1: "myproc s1 = myproc s" "kp_me s1 = kp_me s" "kp_procs s1 = kp_procs s" "kkilled s1 = kkilled s" "kt_csr s1 Scause = kt_csr s Scause"
    by (simp_all add: s1_def myproc_def kkilled_def)
  have m1: "tf_slot s1 k = (if k = 24 then kt_csr s Sepc else tf_slot s k)" if "8 dvd k" "0 \<le> k" "k < 4096" for k
    using slot_load_store [OF al, of 24 k "kt_csr s Sepc" "km_mem s"] that unfolding tf_slot_def p1(1) by (simp add: s1_def)
  obtain s2 where s2: "devintr e s1 = Ret 2 s2" "same_thread s1 s2" "kkilled s2 \<longleftrightarrow> kkilled s1"
    using timer_devintr [of s1 e] cause me p1 by auto
  define s3 where "s3 = te_others e (s2\<lparr>kp_procs := yield (kp_me s2) (kp_procs s2)\<rparr>)"
  have th: "same_thread s1 s3" unfolding s3_def by (rule same_thread_trans [OF same_thread_trans [OF s2(2) yield_thread] others])
  then have p3: "p_trapframe (myproc s3) = ?tf" "p_pagetable (myproc s3) = p_pagetable (myproc s)" by (simp_all add: same_thread_def p1)
  obtain t where t: "prepare_return e s3 = Ret () t" "kp_procs t = kp_procs s3" "kp_me t = kp_me s3" "\<not> bit (kt_csr t Sstatus) 8" "kt_csr t Sepc = tf_slot s3 24"
      "\<And>k. 8 dvd k \<Longrightarrow> 0 \<le> k \<Longrightarrow> k < 4096 \<Longrightarrow> tf_slot t k = (if k = 0 then kt_csr s3 Satp else if k = 8 then p_kstack (myproc s3) + PGSIZE else if k = 16 then te_usertrap e
       else if k = 32 then kt_tp s3 else tf_slot s3 k)"
    using prepare_return_ok [of s3 e] al p3 by metis
  have pt: "myproc t = myproc s3" using t(2,3) by (simp add: myproc_def)
  have w: "exit_if_killed s2 = Ret () s2" using alive s2(3) p1(4) by (simp add: exit_if_killed_def)
  have "usertrap e s = kbind (usertrap_cause e) (usertrap_return e) s1"
    using assms(1) by (simp add: usertrap_def w_csr_def tf_store_def s1_def myproc_def TF_EPC_def)
  also have "\<dots> = usertrap_return e 2 s2" using cause p1(5) s2(1) by (simp add: usertrap_cause_def kbind_def)
  also have "\<dots> = Ret (MAKE_SATP (p_pagetable (myproc s))) t" using w t(1) pt p3 by (simp add: usertrap_return_def kyield_def s3_def [symmetric])
  finally have "usertrap e s = Ret (MAKE_SATP (p_pagetable (myproc s))) t" .
  moreover have "kt_csr t Sepc = kt_csr s Sepc" using t(5) th m1 [of 24] by (simp add: same_thread_def)
  moreover have "tf_slot t k = tf_slot s k" if "8 dvd k" "40 \<le> k" "k < 288" for k
    using t(6) [of k] th m1 [of k] that by (simp add: same_thread_def)
  ultimately show ?thesis using t(4) pt p3 by auto
qed

text \<open>A timer interrupt of kernel code: \<open>kerneltrap\<close> returns with the registers that \<open>sret\<close> uses as they were, whatever happens in between.\<close>

lemma kerneltrap_timer:
  assumes "kt_csr s Sstatus AND SSTATUS_SPP \<noteq> 0" and "kt_csr s Sstatus AND SSTATUS_SIE = 0"
    and "kt_csr s Scause = 0x8000000000000005" and "kp_me s < length (kp_procs s)"
  shows "\<exists>t. kerneltrap e s = Ret () t \<and> kt_csr t Sepc = kt_csr s Sepc \<and> kt_csr t Sstatus = kt_csr s Sstatus"
proof -
  obtain s2 where s2: "devintr e s = Ret 2 s2" using timer_devintr [OF assms(3,4)] by blast
  let ?u = "if kt_idle s2 then s2 else te_others e (s2\<lparr>kp_procs := yield (kp_me s2) (kp_procs s2)\<rparr>)"
  let ?t = "?u\<lparr>kt_csr := (kt_csr ?u)(Sepc := kt_csr s Sepc, Sstatus := kt_csr s Sstatus)\<rparr>"
  have "kerneltrap e s = Ret () ?t"
    using assms(1,2) s2 by (simp add: kerneltrap_def Let_def kyield_def w_csr_def kbind_def)
  then show ?thesis by (intro exI [of _ ?t]) simp
qed

text \<open>An interrupt or exception of an unknown cause in the kernel is a panic.\<close>

lemma kerneltrap_unknown:
  assumes "kt_csr s Sstatus AND SSTATUS_SPP \<noteq> 0" and "kt_csr s Sstatus AND SSTATUS_SIE = 0"
    and "kt_csr s Scause \<noteq> 0x8000000000000005" and "kt_csr s Scause \<noteq> 0x8000000000000009"
    and "kprintk (''scause=0x%lx sepc=0x%lx stval=0x%lx'' @ [CHR 0x0A]) [KWord (kt_csr s Scause), KWord (kt_csr s Sepc), KWord (kt_csr s Stval)] s = Ret () t"
  shows "kerneltrap e s = Panic ''kerneltrap''"
  using assms by (simp add: kerneltrap_def Let_def devintr_def kbind_def)

text \<open>C19: A process does not notice a timer interrupt. After \<open>uservec\<close>, \<open>usertrap\<close> counts the tick, gives up the CPU, and returns once the process is chosen again, maybe on
  another hart and after any number of other threads; \<open>userret\<close> then goes on, in user mode, at the instruction that was interrupted with
  all registers and the page table that the process had.\<close>

theorem timer_transparent:
  assumes tf: "maps_page mmu (mc_csr m Satp) TRAPFRAME (p_trapframe (myproc s))" and satp: "mc_csr m Satp = MAKE_SATP (p_pagetable (myproc s))"
    and cause: "mc_csr m Scause = 0x8000000000000005" and user: "mc_csr m Sstatus AND SSTATUS_SPP = 0"
    and k: "km_mem s = mc_mem (run_code mmu (uservec link) m)" "kt_csr s = mc_csr (run_code mmu (uservec link) m)"
    and alive: "\<not> kkilled s" and me: "kp_me s < length (kp_procs s)" and others: "\<And>s. same_thread s (te_others e s)"
  shows "\<exists>t. usertrap e s = Ret (mc_csr m Satp) t \<and>
    (\<forall>u. mc_mem u = km_mem t \<longrightarrow> mc_csr u = kt_csr t \<longrightarrow> rg u A0 = mc_csr m Satp \<longrightarrow>
      (let v = run_code mmu userret u in
        (\<forall>r. rg v r = rg m r) \<and> mc_pc v = mc_csr m Sepc \<and> mc_csr v Satp = mc_csr m Satp \<and> mc_priv v = User))"
proof -
  let ?tf = "p_trapframe (myproc s)"
  note e = uservec_ok [OF tf, where link = link]
  have csr: "kt_csr s Scause = mc_csr m Scause" "kt_csr s Sstatus = mc_csr m Sstatus" "kt_csr s Sepc = mc_csr m Sepc"
    using e(7) by (simp_all add: k(2))
  have al: "aligned 8 ?tf" using tf by (simp add: maps_page_def)
  obtain t where t: "usertrap e s = Ret (MAKE_SATP (p_pagetable (myproc s))) t" "p_trapframe (myproc t) = ?tf" "\<not> bit (kt_csr t Sstatus) 8"
      "kt_csr t Sepc = kt_csr s Sepc" "\<And>k. 8 dvd k \<Longrightarrow> 40 \<le> k \<Longrightarrow> k < 288 \<Longrightarrow> tf_slot t k = tf_slot s k"
    using usertrap_timer [of s e, OF _ _ alive me al others] cause user csr by auto
  have "(\<forall>r. rg (run_code mmu userret u) r = rg m r) \<and> mc_pc (run_code mmu userret u) = mc_csr m Sepc \<and>
      mc_csr (run_code mmu userret u) Satp = mc_csr m Satp \<and> mc_priv (run_code mmu userret u) = User"
    if u: "mc_mem u = km_mem t" "mc_csr u = kt_csr t" "rg u A0 = mc_csr m Satp" for u
  proof -
    have "maps_page mmu (rg u A0) TRAPFRAME ?tf" using tf u(3) by simp
    note l = userret_ok [OF this]
    have slot: "rg (run_code mmu userret u) r = rg m r" if rk: "(r, k) \<in> set trapframe_slots" for r k
    proof -
      have "8 dvd k" "40 \<le> k" "k < 288" using rk by (auto simp: trapframe_slots_def upt_rec)
      then have "tf_slot t k = tf_slot s k" by (rule t(5))
      then show ?thesis using l(1) [OF rk] e(1) [OF rk] by (simp add: tf_slot_def t(2) u(1) k(1))
    qed
    have "rg (run_code mmu userret u) r = rg m r" for r
      using slot user_slots_props(4) [of r] by (cases "r = Zero") force+
    then show ?thesis using l(2-4) u t(3,4) csr by simp
  qed
  then show ?thesis using t(1) satp unfolding Let_def by auto
qed

definition demo_env :: trap_env where
  "demo_env = \<lparr>te_kernelvec = 0, te_uservec = 0, te_userret = 0x100, te_usertrap = 0, te_disk = demo_regs, te_plic = \<lambda>_ _. 0, te_others = \<lambda>s. s\<rparr>"

definition demo_user :: mach where
  "demo_user = demo_mach\<lparr>mc_csr := (\<lambda>_. 0)(Satp := MAKE_SATP (p_pagetable demo_user_proc), Scause := 0x8000000000000005, Sepc := 0x1234)\<rparr>"

definition demo_trap :: ktrap where
  "demo_trap = kvirtio.extend (demo_virtio\<lparr>km_mem := mc_mem (run_code demo_mmu (uservec 4) demo_user),
       kp_procs := [demo_user_proc\<lparr>p_trapframe := TRAPFRAME\<rparr>]\<rparr>)
     (ktrap.fields (mc_csr (run_code demo_mmu (uservec 4) demo_user)) 0 [] False False)"

theorem timer_transparent_witness:
  "\<exists>t. usertrap demo_env demo_trap = Ret (MAKE_SATP (p_pagetable demo_user_proc)) t \<and>
     (let v = run_code demo_mmu userret \<lparr>mc_reg = \<lambda>_. MAKE_SATP (p_pagetable demo_user_proc), mc_csr = kt_csr t, mc_mem = km_mem t, mc_pc = 0, mc_priv = Supervisor\<rparr>
      in rg v A0 = 0x1000 \<and> mc_pc v = 0x1234 \<and> mc_priv v = User)"
proof -
  let ?p = "demo_user_proc\<lparr>p_trapframe := TRAPFRAME\<rparr>"
  have p: "myproc demo_trap = ?p" "kp_me demo_trap = 0" "kp_procs demo_trap = [?p]"
    by (simp_all add: demo_trap_def myproc_def kvirtio.defs ktrap.defs demo_virtio_def)
  have "unat TRAPFRAME mod 8 = 0" by (simp add: TRAPFRAME_def TRAMPOLINE_def MAXVA_def PGSIZE_def)
  then have 1: "maps_page demo_mmu (mc_csr demo_user Satp) TRAPFRAME (p_trapframe (myproc demo_trap))"
    by (simp add: maps_page_def demo_mmu_def aligned_def p)
  have 2: "mc_csr demo_user Satp = MAKE_SATP (p_pagetable (myproc demo_trap))" "mc_csr demo_user Scause = 0x8000000000000005"
      "mc_csr demo_user Sstatus AND SSTATUS_SPP = 0" "mc_csr demo_user Sepc = 0x1234"
    by (simp_all add: demo_user_def p)
  have 3: "km_mem demo_trap = mc_mem (run_code demo_mmu (uservec 4) demo_user)" "kt_csr demo_trap = mc_csr (run_code demo_mmu (uservec 4) demo_user)"
    by (simp_all add: demo_trap_def kvirtio.defs ktrap.defs demo_virtio_def)
  have 4: "\<not> kkilled demo_trap" "kp_me demo_trap < length (kp_procs demo_trap)" by (simp_all add: p kkilled_def killed_def demo_user_proc_def zero_proc_def)
  have 5: "same_thread s (te_others demo_env s)" for s by (simp add: same_thread_def demo_env_def)
  let ?u = "\<lambda>t. \<lparr>mc_reg = \<lambda>_. MAKE_SATP (p_pagetable demo_user_proc), mc_csr = kt_csr t, mc_mem = km_mem t, mc_pc = 0, mc_priv = Supervisor\<rparr>"
  obtain t where t: "usertrap demo_env demo_trap = Ret (mc_csr demo_user Satp) t"
      "\<And>u. mc_mem u = km_mem t \<Longrightarrow> mc_csr u = kt_csr t \<Longrightarrow> rg u A0 = mc_csr demo_user Satp \<Longrightarrow> (\<forall>r. rg (run_code demo_mmu userret u) r = rg demo_user r) \<and>
        mc_pc (run_code demo_mmu userret u) = mc_csr demo_user Sepc \<and> mc_priv (run_code demo_mmu userret u) = User"
    using timer_transparent [OF 1 2(1-3) 3 4 5] unfolding Let_def by blast
  have "rg demo_user A0 = 0x1000" by (simp add: demo_user_def demo_mach_def rg_def)
  then show ?thesis using t(1) t(2) [of "?u t"] 2 p unfolding Let_def by (intro exI [of _ t]) (simp add: rg_def [of "?u t"])
qed

end
