(* ===== verification/Spec2Isabelle.thy ===== *)
theory Spec2Isabelle
  imports Smp PageTable Spinlock Itable Syscall Grep Nice Shell Trap
begin

text \<open>
  \<^bold>\<open>The xv6 kernel with priority scheduling.\<close> The sources are a RISC-V xv6 whose scheduler
  has priorities and aging (\<open>src/kernel\<close>), its user programs (\<open>src/user\<close>) and the tool that makes a disk
  image (\<open>src/mkfs\<close>). This development models the kernel and some of the user programs function by function and proves
  the properties that the parts promise to each other and to user programs.

  \<^bold>\<open>Parts and how they interact.\<close> A user program traps into the kernel: \<open>uservec\<close> saves its registers and \<open>usertrap\<close> finds the cause of
  the trap. \<open>syscall\<close> dispatches on
  register a7 to a handler, which takes its arguments from the trap frame and from user memory. Handlers for
  processes work on the process table; those for files go through the file table to pipes,
  the console or inodes. The inode layer runs between \<open>begin_op\<close> and \<open>end_op\<close> of the log, which
  goes through the buffer cache and the driver to the disk; the disk, the console and the timer interrupt through \<open>devintr\<close>. Page tables and pipes take their pages from
  the page allocator. A thread that waits sleeps on a channel and the scheduler picks another.

  \<^bold>\<open>How code becomes definitions.\<close> Unsigned C integers are words of their width, \<open>int\<close> is an
  integer, \<open>short\<close> a 16 bit word. A pointer into a fixed table is the index of the entry, a raw
  address is a 64 bit word, and physical memory is a function from addresses to bytes. A C function is an operation
  \<open>('s, 'a) kop\<close> (theory \<open>Prelude\<close>) on the state: it returns a value and a state, panics with
  the message of the code, puts the thread to sleep, or does something undefined in C (\<open>Fault\<close>: a null
  dereference, an index out of range). A section under spin locks is one update; theories \<open>Smp\<close> and \<open>Spinlock\<close> treat
  the interleaving of such sections and the locks themselves. \<open>sleep\<close> is the outcome \<open>Sleeps\<close> with
  the state at that moment; being woken is another run of the operation. The state grows with the layers, each a record
  that extends the one below: \<open>kmem\<close> (memory and free list), \<open>kproc\<close> (process table), \<open>kcons\<close> (uart and
  console), \<open>kpipe\<close>, \<open>kbio\<close> (buffer cache and disk), \<open>klog\<close>, \<open>kfs\<close> (super block and inode table), \<open>kfile\<close> (file
  table), \<open>kvirtio\<close> (queue of the disk driver, and the device), \<open>ktrap\<close> (control registers and interrupt controller). An operation of a layer is polymorphic in the layers above it, so it cannot touch them.

  \<^bold>\<open>Theories.\<close>
  \<^item> \<open>Prelude\<close>: operations and their composition, table scans, reachability and the locale of
    invariants of a step relation.
  \<^item> \<open>ProcTable\<close>, \<open>Sched\<close>, \<open>ProcOps\<close>, \<open>Smp\<close>: \<open>proc.h\<close> and \<open>proc.c\<close>. The scheduler picks a runnable process of best
    priority in ring order, waits exactly if there is none, and starves nobody: the
    bound on the number of rounds comes from aging. No wakeup is lost between \<open>sleep_prepare\<close> and
    \<open>sleep\<close>. With any number of CPUs, each process runs on at most one of them.
  \<^item> \<open>CMemory\<close>, \<open>Riscv\<close>, \<open>Kalloc\<close>, \<open>Vm\<close>, \<open>PageTable\<close>: \<open>string.c\<close>, \<open>riscv.h\<close>, \<open>memlayout.h\<close>, \<open>kalloc.c\<close>, \<open>vm.c\<close>. The
    allocator refines a pool of pages (locale \<open>page_pool\<close>); a mapped page translates, and no other translation changes.
  \<^item> \<open>Spinlock\<close>: \<open>spinlock.c\<close>. Mutual exclusion, with interrupts off, and the nesting of \<open>push_off\<close>.
  \<^item> \<open>KState\<close>: the layer \<open>kproc\<close>, copies from and to user memory, and \<open>sleeplock.c\<close>.
  \<^item> \<open>Ring\<close>, \<open>Pipe\<close>, \<open>Console\<close>, \<open>Printk\<close>: \<open>pipe.c\<close>, \<open>uart.c\<close>, \<open>console.c\<close>, \<open>printk.c\<close>, \<open>user/printf.c\<close>. A pipe is a bounded queue; the
    console is a line editor over the ring buffer of the locale \<open>ring_buffer\<close>; numbers are printed without overrun.
  \<^item> \<open>Bio\<close>, \<open>Block\<close>, \<open>Log\<close>: \<open>bio.c\<close> and \<open>log.c\<close>. Clients of the cache see the contents of the blocks (locale \<open>block_cache\<close>), and a
    crash at any write of a commit leaves all or nothing of a transaction.
  \<^item> \<open>Fs\<close>, \<open>FreeMap\<close>, \<open>Itable\<close>, \<open>Dir\<close>: \<open>fs.c\<close>. The free map, the inode table, inodes on disk, and path names.
  \<^item> \<open>File\<close>, \<open>Process\<close>, \<open>Exec\<close>, \<open>Fcntl\<close>, \<open>Syscall\<close>: \<open>file.c\<close>, the rest of \<open>proc.c\<close>, \<open>exec.c\<close>, \<open>fcntl.h\<close>, \<open>syscall.c\<close>,
    \<open>sysproc.c\<close>, \<open>sysfile.c\<close>.
  \<^item> \<open>Virtio\<close>: \<open>virtio_disk.c\<close>, \<open>virtio.h\<close>. Driver and device implement a disk that performs each request once, for every interleaving of threads, device
    and interrupts, and no operation of the driver panics; the two rings are instances of the locale \<open>ring_buffer\<close>. What the device answers and does
    is a parameter, with its documented behaviour (\<open>virtio_device\<close>) as a hypothesis.
  \<^item> \<open>Asm\<close>: \<open>trampoline.S\<close>, \<open>kernelvec.S\<close>, \<open>swtch.S\<close>, \<open>entry.S\<close>, \<open>start.c\<close>, as lists of instructions with their semantics. What is saved in
    a frame (locale \<open>register_frame\<close>) is restored from it: for traps of a process, interrupts of the kernel, and context switches.
  \<^item> \<open>Trap\<close>: \<open>trap.c\<close>, \<open>plic.c\<close>, \<open>forkret\<close>. A process does not notice a timer interrupt.
  \<^item> \<open>Ulib\<close>, \<open>Grep\<close>, \<open>Nice\<close>, \<open>Shell\<close>: \<open>ulib.c\<close>, \<open>grep.c\<close>, \<open>nice.c\<close>, \<open>sh.c\<close> of \<open>src/user\<close>. The matcher decides the language of its pattern, and grep prints the matching
    lines; numbers are read without overflow; the parser of the shell ends, and reads back a printed command.

  \<^bold>\<open>Loops and fuel.\<close> Loops are structural recursion or have a termination proof. Where the C loop is
  bounded by the width of its counter, the recursion counts the remaining iterations: each such bound is stated at
  the definition, and running out of it is a \<open>Fault\<close>, which the theorems on the operation exclude.

  \<^bold>\<open>Not modelled.\<close> \<open>main.c\<close>, the order of the initialisation calls and the boot messages, and the linker scripts: the addresses that they
  choose are parameters. \<open>Bio\<close> keeps a disk that performs each request at once; \<open>Virtio\<close> shows that the driver gives such a disk step by
  step, and the two are not composed to one run. The flushes of the TLB and the memory fences have no effect in the model, whose memory is coherent. Traps that interrupt a handler
  are not interleaved with it. The user programs that only make system calls, the test programs, the user memory allocator, and the tool that makes the
  disk image.
\<close>

end
